(* ===== verification/Dme_Prelude.thy ===== *)
theory Dme_Prelude
  imports Main "HOL-Library.Word" "HOL-Library.Signed_Division" "HOL-Library.Monad_Syntax"
    "HOL-Library.Code_Target_Nat"
begin

text \<open>
  Shared vocabulary of the development: machine-integer types, the access
  functions of a \<^verbatim>\<open>std::vector\<close>, the counters with written-out wrap-around, the
  bit-counting functions of the C++ header \<^verbatim>\<open><bit>\<close>, and the generic lemmas the
  component theories use.

  Conventions.  Values that travel in messages (identifiers, sequence numbers,
  prices, quantities) are words of their declared width; container sizes and
  indices (\<^verbatim>\<open>std::size_t\<close>, node indices) are natural numbers, and the operations
  that increment or decrement them write the wrap-around out.  An operation that
  may leave the defined behaviour of C++ (an out-of-range \<^verbatim>\<open>operator[]\<close>, a
  \<^verbatim>\<open>pop_back\<close> on an empty vector), may throw an exception its caller never catches,
  or may not terminate returns an option: \<open>None\<close> means that the call does not
  return normally.  Exceptions that are part of an interface are values of the
  sum type \<open>exn + 'a\<close>.
\<close>

unbundle bit_operations_syntax

named_theorems vec_simps \<open>reads and writes of vectors\<close>
named_theorems i64_simps \<open>signed 64-bit arithmetic\<close>

subsection \<open>Machine types\<close>

type_synonym u8 = "8 word"
type_synonym u16 = "16 word"
type_synonym u32 = "32 word"
type_synonym u64 = "64 word"
type_synonym i64 = "64 word"

datatype exn = InvalidArgument | LogicError | RuntimeError | Abnormal

abbreviation (input) size_max :: nat where
  "size_max \<equiv> 2 ^ 64 - 1"

abbreviation (input) u32_max :: nat where
  "u32_max \<equiv> 2 ^ 32 - 1"

subsection \<open>Vectors\<close>

definition vec_at :: "'a list \<Rightarrow> nat \<Rightarrow> 'a option" where
  "vec_at xs i = (if i < length xs then Some (xs ! i) else None)"

definition vec_set :: "'a list \<Rightarrow> nat \<Rightarrow> 'a \<Rightarrow> 'a list option" where
  "vec_set xs i x = (if i < length xs then Some (xs[i := x]) else None)"

definition vec_back :: "'a list \<Rightarrow> 'a option" where
  "vec_back xs = (if xs = [] then None else Some (last xs))"

lemma vec_at_Some [vec_simps]: "i < length xs \<Longrightarrow> vec_at xs i = Some (xs ! i)"
  by (simp add: vec_at_def)

lemma vec_set_Some [vec_simps]: "i < length xs \<Longrightarrow> vec_set xs i x = Some (xs[i := x])"
  by (simp add: vec_set_def)

lemma vec_back_Some [vec_simps]: "xs \<noteq> [] \<Longrightarrow> vec_back xs = Some (last xs)"
  by (simp add: vec_back_def)

lemma vec_at_eq_Some_iff: "vec_at xs i = Some x \<longleftrightarrow> i < length xs \<and> xs ! i = x"
  by (auto simp: vec_at_def)

lemma nth_upd: "xs[i := x] ! j = (if i = j \<and> i < length xs then x else xs ! j)"
  by (cases "i < length xs") (simp_all add: nth_list_update list_update_beyond)

lemma takeWhile_stops: "x \<in> set xs \<Longrightarrow> \<not> P x \<Longrightarrow> length (takeWhile P xs) < length xs"
  by (induction xs) auto

lemma option_eqI: "(\<And>v. a = Some v \<longleftrightarrow> b = Some v) \<Longrightarrow> a = b"
  by (metis option.exhaust)

subsection \<open>Counters of a fixed width\<close>

definition inc_u32 :: "nat \<Rightarrow> nat" where
  "inc_u32 n = (n + 1) mod 2 ^ 32"

definition dec_u32 :: "nat \<Rightarrow> nat" where
  "dec_u32 n = (n + (2 ^ 32 - 1)) mod 2 ^ 32"

definition inc_size :: "nat \<Rightarrow> nat" where
  "inc_size n = (n + 1) mod 2 ^ 64"

definition dec_size :: "nat \<Rightarrow> nat" where
  "dec_size n = (n + (2 ^ 64 - 1)) mod 2 ^ 64"

lemma inc_u32_exact [simp]: "n < 2 ^ 32 - 1 \<Longrightarrow> inc_u32 n = Suc n"
  by (simp add: inc_u32_def)

lemma dec_u32_exact [simp]: "n < 2 ^ 32 - 1 \<Longrightarrow> dec_u32 (Suc n) = n"
  by (simp add: dec_u32_def)

lemma inc_size_exact [simp]: "n < 2 ^ 64 - 1 \<Longrightarrow> inc_size n = Suc n"
  by (simp add: inc_size_def)

lemma dec_size_exact [simp]: "n < 2 ^ 64 - 1 \<Longrightarrow> dec_size (Suc n) = n"
  by (simp add: dec_size_def)

subsection \<open>Bit counting\<close>

fun bit_width :: "nat \<Rightarrow> nat" where
  "bit_width n = (if n = 0 then 0 else Suc (bit_width (n div 2)))"

declare bit_width.simps [simp del]

definition bit_ceil :: "nat \<Rightarrow> nat" where
  "bit_ceil n = (if n \<le> 1 then 1 else 2 ^ bit_width (n - 1))"

lemma less_two_power_bit_width: "n < 2 ^ bit_width n"
proof (induction n rule: bit_width.induct)
  case (1 n)
  show ?case
  proof (cases "n = 0")
    case True
    then show ?thesis by simp
  next
    case False
    with 1 have "n div 2 < 2 ^ bit_width (n div 2)" by simp
    with False show ?thesis by (subst bit_width.simps) simp
  qed
qed

lemma two_power_bit_width_le: "n \<noteq> 0 \<Longrightarrow> 2 ^ bit_width n \<le> 2 * n"
proof (induction n rule: bit_width.induct)
  case (1 n)
  show ?case
  proof (cases "n div 2 = 0")
    case True
    with 1 have "n = 1" by simp
    then show ?thesis by (simp add: bit_width.simps)
  next
    case False
    with 1 have "2 ^ bit_width (n div 2) \<le> 2 * (n div 2)" by simp
    with 1(2) show ?thesis by (subst bit_width.simps) simp
  qed
qed

lemma bit_ceil_ge: "n \<le> bit_ceil n"
  using less_two_power_bit_width [of "n - 1"] by (auto simp: bit_ceil_def)

lemma bit_ceil_less: "0 < n \<Longrightarrow> bit_ceil n < 2 * n"
  using two_power_bit_width_le [of "n - 1"] by (auto simp: bit_ceil_def)

definition pow2 :: "nat \<Rightarrow> bool" where
  "pow2 n \<longleftrightarrow> (\<exists>k. n = 2 ^ k)"

lemma pow2_pos: "pow2 n \<Longrightarrow> 0 < n"
  by (auto simp: pow2_def)

lemma pow2_bit_ceil: "pow2 (bit_ceil n)"
  by (metis bit_ceil_def pow2_def power_0)

text \<open>The number of low (high) zero bits of a 64-bit word; 64 for the word 0.\<close>

definition countr_zero :: "u64 \<Rightarrow> nat" where
  "countr_zero w = length (takeWhile (\<lambda>i. \<not> bit w i) [0..<64])"

definition countl_zero :: "u64 \<Rightarrow> nat" where
  "countl_zero w = length (takeWhile (\<lambda>i. \<not> bit w i) (rev [0..<64]))"

subsection \<open>Masking with a power of two minus one\<close>

lemma and_mask_mod: "(a::nat) AND (2 ^ k - 1) = a mod 2 ^ k"
  by (metis mask_eq_exp_minus_1 take_bit_eq_mask take_bit_eq_mod)

lemma pow2_and: "pow2 n \<Longrightarrow> a AND (n - Suc 0) = a mod n"
  using and_mask_mod by (auto simp: pow2_def)

end
