(* ===== verification/Dme_Types.thy ===== *)
theory Dme_Types
  imports Dme_Prelude
begin

text \<open>
  The vocabulary of \<^verbatim>\<open>include/dme/types.hpp\<close>: the enumerations with the source's
  constructors in the source's order, their \<^verbatim>\<open>std::uint8_t\<close> codes, and the two
  message structures.  \<^verbatim>\<open>RejectReason::None\<close> is written \<open>NoReason\<close>.
\<close>

type_synonym OrderId = u64
type_synonym Sequence = u64
type_synonym Price = i64
type_synonym Quantity = u64

datatype Side = Buy | Sell

datatype OrderType = Limit | Market | ImmediateOrCancel | FillOrKill

datatype CommandType = New | Cancel | Replace

datatype EventType = Accepted | Rejected | Trade | Cancelled | Replaced | Rested

datatype RejectReason =
    NoReason
  | InvalidQuantity
  | InvalidPrice
  | DuplicateOrderId
  | UnknownOrderId
  | BookCapacity
  | WouldNotFill
  | SequenceGap
  | InvalidSessionSequence
  | RiskLimit
  | GatewayBackpressure

record Command =
  c_sequence :: Sequence
  c_type :: CommandType
  c_side :: Side
  c_order_type :: OrderType
  c_reserved :: u8
  c_order_id :: OrderId
  c_price :: Price
  c_quantity :: Quantity

record Event =
  e_sequence :: Sequence
  e_type :: EventType
  e_aggressor_side :: Side
  e_reason :: RejectReason
  e_reserved :: u8
  e_order_id :: OrderId
  e_contra_order_id :: OrderId
  e_price :: Price
  e_quantity :: Quantity

text \<open>The value-initialised structures \<^verbatim>\<open>Command{}\<close> and \<^verbatim>\<open>Event{}\<close>.\<close>

definition default_command :: Command where
  "default_command = \<lparr>c_sequence = 0, c_type = New, c_side = Buy, c_order_type = Limit,
     c_reserved = 0, c_order_id = 0, c_price = 0, c_quantity = 0\<rparr>"

definition default_event :: Event where
  "default_event = \<lparr>e_sequence = 0, e_type = Accepted, e_aggressor_side = Buy,
     e_reason = NoReason, e_reserved = 0, e_order_id = 0, e_contra_order_id = 0,
     e_price = 0, e_quantity = 0\<rparr>"

text \<open>The \<^verbatim>\<open>std::uint8_t\<close> code of each enumerator: its position, from 0.\<close>

fun side_code :: "Side \<Rightarrow> u8" where
  "side_code Buy = 0"
| "side_code Sell = 1"

fun order_type_code :: "OrderType \<Rightarrow> u8" where
  "order_type_code Limit = 0"
| "order_type_code Market = 1"
| "order_type_code ImmediateOrCancel = 2"
| "order_type_code FillOrKill = 3"

fun command_type_code :: "CommandType \<Rightarrow> u8" where
  "command_type_code New = 0"
| "command_type_code Cancel = 1"
| "command_type_code Replace = 2"

fun event_type_code :: "EventType \<Rightarrow> u8" where
  "event_type_code Accepted = 0"
| "event_type_code Rejected = 1"
| "event_type_code Trade = 2"
| "event_type_code Cancelled = 3"
| "event_type_code Replaced = 4"
| "event_type_code Rested = 5"

fun reject_reason_code :: "RejectReason \<Rightarrow> u8" where
  "reject_reason_code NoReason = 0"
| "reject_reason_code InvalidQuantity = 1"
| "reject_reason_code InvalidPrice = 2"
| "reject_reason_code DuplicateOrderId = 3"
| "reject_reason_code UnknownOrderId = 4"
| "reject_reason_code BookCapacity = 5"
| "reject_reason_code WouldNotFill = 6"
| "reject_reason_code SequenceGap = 7"
| "reject_reason_code InvalidSessionSequence = 8"
| "reject_reason_code RiskLimit = 9"
| "reject_reason_code GatewayBackpressure = 10"

fun to_string :: "EventType \<Rightarrow> string" where
  "to_string Accepted = ''accepted''"
| "to_string Rejected = ''rejected''"
| "to_string Trade = ''trade''"
| "to_string Cancelled = ''cancelled''"
| "to_string Replaced = ''replaced''"
| "to_string Rested = ''rested''"

fun opposite :: "Side \<Rightarrow> Side" where
  "opposite Buy = Sell"
| "opposite Sell = Buy"

text \<open>Printed events can be told apart, and none prints as the fallback name.\<close>

lemma to_string_inject: "to_string x = to_string y \<longleftrightarrow> x = y"
  by (cases x; cases y) simp_all

lemma to_string_known: "to_string x \<noteq> ''unknown''"
  by (cases x) simp_all

lemma opposite_opposite [simp]: "opposite (opposite s) = s"
  by (cases s) simp_all

lemma opposite_neq [simp]: "opposite s \<noteq> s" "s \<noteq> opposite s"
  by (cases s; simp)+

lemma side_neq_iff: "s \<noteq> t \<longleftrightarrow> s = opposite t"
  by (cases s; cases t) simp_all

end
