(* ===== verification/Protocol.thy ===== *)
theory Protocol
  imports Dme_Types
begin

text \<open>
  The binary wire protocol (\<^verbatim>\<open>include/dme/protocol.hpp\<close>, \<^verbatim>\<open>src/protocol.cpp\<close>): little-endian
  fields written to and read from byte buffers at explicit offsets, the common header, and
  the encoders and decoders of requests and responses.  A buffer is a list of bytes and a
  pointer into it an offset; reading or writing outside the buffer yields \<open>None\<close>.

  The lemmas give the frame that an encoder writes as one list of bytes, the round trips,
  the behaviour of the decoders on every prefix of a frame, and that no input makes a
  decoder read outside its span.  The locale \<open>codec\<close> is the contract a stream receiver relies
  on; both message kinds interpret it.
\<close>

unbundle bit_operations_syntax

subsection \<open>Constants and structures\<close>

definition magic :: u32 where "magic = 0x31454d44"
definition version :: u8 where "version = 1"
definition header_size :: nat where "header_size = 24"
definition maximum_frame_size :: nat where "maximum_frame_size = 80"

datatype MessageType = NewOrder | CancelOrder | ReplaceOrder | ExecutionEvent

fun message_type_code :: "MessageType \<Rightarrow> u8" where
  "message_type_code NewOrder = 1"
| "message_type_code CancelOrder = 2"
| "message_type_code ReplaceOrder = 3"
| "message_type_code ExecutionEvent = 128"

datatype DecodeStatus =
    Ok
  | NeedMoreData
  | InvalidMagic
  | UnsupportedVersion
  | InvalidLength
  | UnknownMessageType
  | InvalidField

record Request =
  rq_session_id :: u32
  rq_client_sequence :: u64
  rq_command :: Command

record Response =
  rp_session_id :: u32
  rp_client_sequence :: u64
  rp_event :: Event

definition default_request :: Request where
  "default_request = \<lparr>rq_session_id = 0, rq_client_sequence = 0, rq_command = default_command\<rparr>"

definition default_response :: Response where
  "default_response = \<lparr>rp_session_id = 0, rp_client_sequence = 0, rp_event = default_event\<rparr>"

record RequestDecodeResult =
  rqd_status :: DecodeStatus
  rqd_bytes_consumed :: nat
  rqd_request :: Request

record ResponseDecodeResult =
  rpd_status :: DecodeStatus
  rpd_bytes_consumed :: nat
  rpd_response :: Response

definition response_frame_size :: nat where "response_frame_size = 68"

subsection \<open>Little-endian fields\<close>

text \<open>The loop bodies of \<^verbatim>\<open>put_u32\<close>, \<^verbatim>\<open>put_u64\<close>, \<^verbatim>\<open>get_u32\<close> and \<^verbatim>\<open>get_u64\<close>, over the indices still to do.\<close>

fun put_loop :: "nat list \<Rightarrow> u8 list \<Rightarrow> nat \<Rightarrow> 'a::len word \<Rightarrow> u8 list option" where
  "put_loop [] output at value = Some output"
| "put_loop (index # rest) output at value =
     do {
       output1 \<leftarrow> vec_set output (at + index) (ucast (drop_bit (index * 8) value AND 0xff));
       put_loop rest output1 at value
     }"

fun get_loop :: "nat list \<Rightarrow> u8 list \<Rightarrow> nat \<Rightarrow> 'a::len word \<Rightarrow> 'a word option" where
  "get_loop [] input at value = Some value"
| "get_loop (index # rest) input at value =
     do {
       byte \<leftarrow> vec_at input (at + index);
       get_loop rest input at (value OR push_bit (index * 8) (ucast byte))
     }"

definition put_u16 :: "u8 list \<Rightarrow> nat \<Rightarrow> u16 \<Rightarrow> u8 list option" where
  "put_u16 output at value =
     do {
       output1 \<leftarrow> vec_set output at (ucast (value AND 0xff));
       vec_set output1 (at + 1) (ucast (drop_bit 8 value AND 0xff))
     }"

definition put_u32 :: "u8 list \<Rightarrow> nat \<Rightarrow> u32 \<Rightarrow> u8 list option" where
  "put_u32 output at value = put_loop [0..<4] output at value"

definition put_u64 :: "u8 list \<Rightarrow> nat \<Rightarrow> u64 \<Rightarrow> u8 list option" where
  "put_u64 output at value = put_loop [0..<8] output at value"

definition get_u16 :: "u8 list \<Rightarrow> nat \<Rightarrow> u16 option" where
  "get_u16 input at =
     do {
       low \<leftarrow> vec_at input at;
       high \<leftarrow> vec_at input (at + 1);
       Some (ucast low OR push_bit 8 (ucast high))
     }"

definition get_u32 :: "u8 list \<Rightarrow> nat \<Rightarrow> u32 option" where
  "get_u32 input at = get_loop [0..<4] input at 0"

definition get_u64 :: "u8 list \<Rightarrow> nat \<Rightarrow> u64 option" where
  "get_u64 input at = get_loop [0..<8] input at 0"

subsection \<open>Field validation\<close>

definition valid_side :: "u8 \<Rightarrow> bool" where
  "valid_side value \<longleftrightarrow> value \<le> side_code Sell"

definition valid_order_type :: "u8 \<Rightarrow> bool" where
  "valid_order_type value \<longleftrightarrow> value \<le> order_type_code FillOrKill"

text \<open>The \<^verbatim>\<open>static_cast\<close> of a validated byte to its enumeration.\<close>

definition side_of :: "u8 \<Rightarrow> Side" where
  "side_of value = (if value = 0 then Buy else Sell)"

definition order_type_of :: "u8 \<Rightarrow> OrderType" where
  "order_type_of value =
     (if value = 0 then Limit else if value = 1 then Market
      else if value = 2 then ImmediateOrCancel else FillOrKill)"

definition event_type_of :: "u8 \<Rightarrow> EventType" where
  "event_type_of value =
     (if value = 0 then Accepted else if value = 1 then Rejected else if value = 2 then Trade
      else if value = 3 then Cancelled else if value = 4 then Replaced else Rested)"

definition reject_reason_of :: "u8 \<Rightarrow> RejectReason" where
  "reject_reason_of value =
     (if value = 0 then NoReason else if value = 1 then InvalidQuantity
      else if value = 2 then InvalidPrice else if value = 3 then DuplicateOrderId
      else if value = 4 then UnknownOrderId else if value = 5 then BookCapacity
      else if value = 6 then WouldNotFill else if value = 7 then SequenceGap
      else if value = 8 then InvalidSessionSequence else if value = 9 then RiskLimit
      else GatewayBackpressure)"

fun wire_type :: "CommandType \<Rightarrow> MessageType" where
  "wire_type New = NewOrder"
| "wire_type Cancel = CancelOrder"
| "wire_type Replace = ReplaceOrder"

subsection \<open>Header\<close>

definition encode_header :: "u8 list \<Rightarrow> MessageType \<Rightarrow> u16 \<Rightarrow> u32 \<Rightarrow> u64 \<Rightarrow> u8 list option" where
  "encode_header output type len session sequence =
     do {
       o1 \<leftarrow> put_u32 output 0 magic;
       o2 \<leftarrow> vec_set o1 4 version;
       o3 \<leftarrow> vec_set o2 5 (message_type_code type);
       o4 \<leftarrow> put_u16 o3 6 len;
       o5 \<leftarrow> put_u32 o4 8 session;
       o6 \<leftarrow> put_u32 o5 12 0;
       put_u64 o6 16 sequence
     }"

text \<open>
  The status with the out-parameters \<^verbatim>\<open>type\<close> (the raw byte), \<^verbatim>\<open>frame_length\<close>, \<^verbatim>\<open>session\<close> and
  \<^verbatim>\<open>sequence\<close>; they keep the zeros of the callers where the code returns before setting them.
\<close>

type_synonym header_result = "DecodeStatus \<times> u8 \<times> nat \<times> u32 \<times> u64"

definition validate_header :: "u8 list \<Rightarrow> header_result option" where
  "validate_header input =
     (if length input < header_size then Some (NeedMoreData, 0, 0, 0, 0)
      else do {
        m \<leftarrow> get_u32 input 0;
        if m \<noteq> magic then Some (InvalidMagic, 0, 0, 0, 0)
        else do {
          v \<leftarrow> vec_at input 4;
          if v \<noteq> version then Some (UnsupportedVersion, 0, 0, 0, 0)
          else do {
            l \<leftarrow> get_u16 input 6;
            let frame_length = unat l;
            if frame_length < header_size \<or> frame_length > maximum_frame_size
            then Some (InvalidLength, 0, frame_length, 0, 0)
            else if length input < frame_length then Some (NeedMoreData, 0, frame_length, 0, 0)
            else do {
              type \<leftarrow> vec_at input 5;
              session \<leftarrow> get_u32 input 8;
              sequence \<leftarrow> get_u64 input 16;
              Some (Ok, type, frame_length, session, sequence)
            }
          }
        }
      })"

subsection \<open>Requests\<close>

fun request_frame_size :: "CommandType \<Rightarrow> nat" where
  "request_frame_size New = 52"
| "request_frame_size Cancel = 32"
| "request_frame_size Replace = 48"

text \<open>The flag returned, \<^verbatim>\<open>bytes_written\<close>, and the destination afterwards.\<close>

definition encode_request :: "Request \<Rightarrow> u8 list \<Rightarrow> (bool \<times> nat \<times> u8 list) option" where
  "encode_request request destination =
     (let command = rq_command request; len = request_frame_size (c_type command) in
      if len = 0 \<or> length destination < len \<or> rq_session_id request = 0 \<or>
         rq_client_sequence request = 0 \<or> c_order_id command = 0
      then Some (False, 0, destination)
      else do {
        d \<leftarrow> encode_header destination (wire_type (c_type command)) (of_nat len)
               (rq_session_id request) (rq_client_sequence request);
        let payload = header_size;
        d1 \<leftarrow> (if c_type command = New then
                do {
                  p1 \<leftarrow> vec_set d payload (side_code (c_side command));
                  p2 \<leftarrow> vec_set p1 (payload + 1) (order_type_code (c_order_type command));
                  p3 \<leftarrow> put_u16 p2 (payload + 2) 0;
                  p4 \<leftarrow> put_u64 p3 (payload + 4) (c_order_id command);
                  p5 \<leftarrow> put_u64 p4 (payload + 12) (c_price command);
                  put_u64 p5 (payload + 20) (c_quantity command)
                }
              else if c_type command = Cancel then put_u64 d payload (c_order_id command)
              else
                do {
                  p1 \<leftarrow> put_u64 d payload (c_order_id command);
                  p2 \<leftarrow> put_u64 p1 (payload + 8) (c_price command);
                  put_u64 p2 (payload + 16) (c_quantity command)
                });
        Some (True, len, d1)
      })"

definition request_failed :: "DecodeStatus \<Rightarrow> RequestDecodeResult" where
  "request_failed status =
     \<lparr>rqd_status = status, rqd_bytes_consumed = 0, rqd_request = default_request\<rparr>"

text \<open>The payload of each kind of request; \<open>Inl\<close> is the early return with \<^verbatim>\<open>InvalidField\<close>.\<close>

definition decode_command :: "u8 list \<Rightarrow> nat \<Rightarrow> CommandType \<Rightarrow> (DecodeStatus + Command) option" where
  "decode_command input payload command_type =
     (let command = default_command\<lparr>c_type := command_type\<rparr> in
      case command_type of
        New \<Rightarrow>
          do {
            side \<leftarrow> vec_at input payload;
            order_type \<leftarrow> vec_at input (payload + 1);
            if \<not> valid_side side \<or> \<not> valid_order_type order_type then Some (Inl InvalidField)
            else do {
              order_id \<leftarrow> get_u64 input (payload + 4);
              price \<leftarrow> get_u64 input (payload + 12);
              quantity \<leftarrow> get_u64 input (payload + 20);
              Some (Inr (command\<lparr>c_side := side_of side, c_order_type := order_type_of order_type,
                c_order_id := order_id, c_price := price, c_quantity := quantity\<rparr>))
            }
          }
      | Cancel \<Rightarrow>
          do {
            order_id \<leftarrow> get_u64 input payload;
            Some (Inr (command\<lparr>c_order_id := order_id\<rparr>))
          }
      | Replace \<Rightarrow>
          do {
            order_id \<leftarrow> get_u64 input payload;
            price \<leftarrow> get_u64 input (payload + 8);
            quantity \<leftarrow> get_u64 input (payload + 16);
            Some (Inr (command\<lparr>c_order_type := Limit, c_order_id := order_id, c_price := price,
              c_quantity := quantity\<rparr>))
          })"

definition command_type_of :: "u8 \<Rightarrow> CommandType option" where
  "command_type_of type =
     (if type = message_type_code NewOrder then Some New
      else if type = message_type_code CancelOrder then Some Cancel
      else if type = message_type_code ReplaceOrder then Some Replace
      else None)"

definition decode_request :: "u8 list \<Rightarrow> RequestDecodeResult option" where
  "decode_request input =
     do {
       (status, type, len, session, sequence) \<leftarrow> validate_header input;
       if status \<noteq> Ok then Some (request_failed status)
       else case command_type_of type of
         None \<Rightarrow> Some (request_failed UnknownMessageType)
       | Some command_type \<Rightarrow>
           if len \<noteq> request_frame_size command_type \<or> session = 0 \<or> sequence = 0
           then Some (request_failed InvalidField)
           else do {
             decoded \<leftarrow> decode_command input header_size command_type;
             case decoded of
               Inl s \<Rightarrow> Some (request_failed s)
             | Inr command \<Rightarrow>
                 if c_order_id command = 0 then Some (request_failed InvalidField)
                 else Some \<lparr>rqd_status = Ok, rqd_bytes_consumed = len,
                   rqd_request = \<lparr>rq_session_id = session, rq_client_sequence = sequence,
                     rq_command = command\<rparr>\<rparr>
           }
     }"

subsection \<open>Responses\<close>

definition encode_response :: "Response \<Rightarrow> u8 list \<Rightarrow> (bool \<times> nat \<times> u8 list) option" where
  "encode_response response destination =
     (let event = rp_event response; len = response_frame_size in
      if length destination < len \<or> rp_session_id response = 0 \<or> rp_client_sequence response = 0
      then Some (False, 0, destination)
      else do {
        d \<leftarrow> encode_header destination ExecutionEvent (of_nat len)
               (rp_session_id response) (rp_client_sequence response);
        let payload = header_size;
        p0 \<leftarrow> vec_set d payload (event_type_code (e_type event));
        p1 \<leftarrow> vec_set p0 (payload + 1) (side_code (e_aggressor_side event));
        p2 \<leftarrow> vec_set p1 (payload + 2) (reject_reason_code (e_reason event));
        p3 \<leftarrow> vec_set p2 (payload + 3) 0;
        p4 \<leftarrow> put_u64 p3 (payload + 4) (e_order_id event);
        p5 \<leftarrow> put_u64 p4 (payload + 12) (e_contra_order_id event);
        p6 \<leftarrow> put_u64 p5 (payload + 20) (e_price event);
        p7 \<leftarrow> put_u64 p6 (payload + 28) (e_quantity event);
        p8 \<leftarrow> put_u64 p7 (payload + 36) (e_sequence event);
        Some (True, len, p8)
      })"

definition response_failed :: "DecodeStatus \<Rightarrow> ResponseDecodeResult" where
  "response_failed status =
     \<lparr>rpd_status = status, rpd_bytes_consumed = 0, rpd_response = default_response\<rparr>"

definition decode_response :: "u8 list \<Rightarrow> ResponseDecodeResult option" where
  "decode_response input =
     do {
       (status, type, len, session, sequence) \<leftarrow> validate_header input;
       if status \<noteq> Ok then Some (response_failed status)
       else if type \<noteq> message_type_code ExecutionEvent then Some (response_failed UnknownMessageType)
       else if len \<noteq> response_frame_size \<or> session = 0 \<or> sequence = 0
       then Some (response_failed InvalidField)
       else do {
         let payload = header_size;
         event_type \<leftarrow> vec_at input payload;
         side \<leftarrow> vec_at input (payload + 1);
         reason \<leftarrow> vec_at input (payload + 2);
         if event_type > event_type_code Rested \<or> \<not> valid_side side \<or>
            reason > reject_reason_code GatewayBackpressure
         then Some (response_failed InvalidField)
         else do {
           order_id \<leftarrow> get_u64 input (payload + 4);
           contra \<leftarrow> get_u64 input (payload + 12);
           price \<leftarrow> get_u64 input (payload + 20);
           quantity \<leftarrow> get_u64 input (payload + 28);
           engine_sequence \<leftarrow> get_u64 input (payload + 36);
           let event = default_event\<lparr>e_type := event_type_of event_type, e_aggressor_side := side_of side,
             e_reason := reject_reason_of reason, e_order_id := order_id, e_contra_order_id := contra,
             e_price := price, e_quantity := quantity, e_sequence := engine_sequence\<rparr>;
           Some \<lparr>rpd_status = Ok, rpd_bytes_consumed = len,
             rpd_response = \<lparr>rp_session_id = session, rp_client_sequence = sequence, rp_event = event\<rparr>\<rparr>
         }
       }
     }"


subsection \<open>Fields as slices of a buffer\<close>

definition le_bytes :: "nat \<Rightarrow> 'a::len word \<Rightarrow> u8 list" where
  "le_bytes n value = map (\<lambda>i. ucast (drop_bit (i * 8) value)) [0..<n]"

definition overwrite :: "'a list \<Rightarrow> nat \<Rightarrow> 'a list \<Rightarrow> 'a list" where
  "overwrite xs at ys = take at xs @ ys @ drop (at + length ys) xs"

lemma length_le_bytes [simp]: "length (le_bytes n v) = n"
  by (simp add: le_bytes_def)

lemma nth_le_bytes [simp]: "i < n \<Longrightarrow> le_bytes n v ! i = ucast (drop_bit (i * 8) v)"
  by (simp add: le_bytes_def)

lemma length_overwrite [simp]: "at + length ys \<le> length xs \<Longrightarrow> length (overwrite xs at ys) = length xs"
  by (simp add: overwrite_def)

lemma overwrite_overwrite:
  "at + length ys \<le> length xs \<Longrightarrow> at' = at + length ys \<Longrightarrow> overwrite (overwrite xs at ys) at' zs = overwrite xs at (ys @ zs)"
  by (simp add: overwrite_def ac_simps)

lemma overwrite_0: "overwrite xs 0 ys = ys @ drop (length ys) xs"
  by (simp add: overwrite_def)

lemma vec_set_overwrite: "at < length xs \<Longrightarrow> vec_set xs at y = Some (overwrite xs at [y])"
  by (simp add: vec_set_def overwrite_def upd_conv_take_nth_drop)

lemma ucast_and_ff: "ucast (w AND 0xff) = (ucast w :: u8)" for w :: "'a::len word"
proof -
  have "0xff = (mask 8 :: 'a word)" by (simp add: mask_eq_exp_minus_1)
  then have "w AND 0xff = take_bit 8 w" by (simp add: take_bit_eq_mask)
  then show ?thesis by (auto simp: bit_simps bit_imp_le_length intro!: bit_word_eqI)
qed

lemma put_loop_overwrite:
  assumes "at + n \<le> length xs" "k \<le> n"
  shows "put_loop [k..<n] xs at v = Some (overwrite xs (at + k) (map (\<lambda>i. ucast (drop_bit (i * 8) v)) [k..<n]))"
  using assms
proof (induction "n - k" arbitrary: k xs)
  case 0
  then show ?case by (simp add: overwrite_def)
next
  case (Suc d)
  then have k: "k < n" "d = n - Suc k" "Suc k \<le> n" by simp_all
  let ?x = "ucast (drop_bit (k * 8) v) :: u8"
  have "put_loop [k..<n] xs at v = put_loop [Suc k..<n] (overwrite xs (at + k) [?x]) at v"
    using k Suc.prems by (simp add: upt_rec vec_set_overwrite ucast_and_ff)
  also have "\<dots> = Some (overwrite (overwrite xs (at + k) [?x]) (at + Suc k) (map (\<lambda>i. ucast (drop_bit (i * 8) v)) [Suc k..<n]))"
    using Suc.prems k by (intro Suc.hyps(1)) simp_all
  also have "overwrite (overwrite xs (at + k) [?x]) (at + Suc k) (map (\<lambda>i. ucast (drop_bit (i * 8) v)) [Suc k..<n]) =
      overwrite xs (at + k) (map (\<lambda>i. ucast (drop_bit (i * 8) v)) [k..<n])"
    using Suc.prems k by (subst overwrite_overwrite) (simp_all add: upt_conv_Cons)
  finally show ?case .
qed

lemma put_overwrite:
  "at + 2 \<le> length xs \<Longrightarrow> put_u16 xs at v = Some (overwrite xs at (le_bytes 2 v))"
  "at + 4 \<le> length xs \<Longrightarrow> put_u32 xs at w = Some (overwrite xs at (le_bytes 4 w))"
  "at + 8 \<le> length xs \<Longrightarrow> put_u64 xs at u = Some (overwrite xs at (le_bytes 8 u))"
  using put_loop_overwrite [of at 4 xs 0 w] put_loop_overwrite [of at 8 xs 0 u]
  by (simp_all add: put_u16_def put_u32_def put_u64_def le_bytes_def vec_set_overwrite ucast_and_ff overwrite_overwrite upt_rec)

lemma get_loop_field:
  assumes "take n (drop at xs) = le_bytes n v" "k \<le> n"
  shows "get_loop [k..<n] xs at (take_bit (8 * k) v) = Some (take_bit (8 * n) v)"
  using assms(2)
proof (induction "n - k" arbitrary: k)
  case 0
  then show ?case by simp
next
  case (Suc d)
  then have k: "k < n" "d = n - Suc k" by simp_all
  have "length (take n (drop at xs)) = n" using assms(1) by simp
  then have len: "at + n \<le> length xs" using k by (simp split: if_splits)
  have "xs ! (at + k) = take n (drop at xs) ! k" using k len by simp
  also have "\<dots> = ucast (drop_bit (k * 8) v)" using k assms(1) by simp
  finally have b: "vec_at xs (at + k) = Some (ucast (drop_bit (k * 8) v))" using k len by (simp add: vec_simps)
  have "take_bit (8 * k) v OR push_bit (k * 8) (ucast (ucast (drop_bit (k * 8) v) :: u8)) = take_bit (8 * Suc k) v"
    by (rule bit_word_eqI) (auto simp: bit_simps)
  then have "get_loop [k..<n] xs at (take_bit (8 * k) v) = get_loop [Suc k..<n] xs at (take_bit (8 * Suc k) v)"
    using k b by (simp add: upt_conv_Cons)
  then show ?case using Suc.hyps(1) [of "Suc k"] k by simp
qed

lemma get_field:
  "take 2 (drop at xs) = le_bytes 2 v \<Longrightarrow> get_u16 xs at = Some v"
  "take 4 (drop at xs) = le_bytes 4 w \<Longrightarrow> get_u32 xs at = Some w"
  "take 8 (drop at xs) = le_bytes 8 u \<Longrightarrow> get_u64 xs at = Some u"
proof -
  show "get_u16 xs at = Some v" if a: "take 2 (drop at xs) = le_bytes 2 v"
  proof -
    have "get_loop [0..<2] xs at (take_bit (8 * 0) v) = Some v"
      using get_loop_field [OF a, of 0] by (simp add: take_bit_word_eq_self)
    then show ?thesis by (simp add: get_u16_def numeral_2_eq_2)
  qed
qed (use get_loop_field [of 4 at xs w 0] get_loop_field [of 8 at xs u 0] in
    \<open>simp_all add: get_u32_def get_u64_def take_bit_word_eq_self\<close>)

lemma get_total:
  "at + 2 \<le> length xs \<Longrightarrow> \<exists>v. get_u16 xs at = Some v"
  "at + 4 \<le> length xs \<Longrightarrow> \<exists>v. get_u32 xs at = Some v"
  "at + 8 \<le> length xs \<Longrightarrow> \<exists>v. get_u64 xs at = Some v"
proof -
  have loop: "\<exists>v. get_loop is xs at acc = Some v" if "\<forall>i \<in> set is. at + i < length xs" for "is" and acc :: "'a::len word"
    using that by (induction "is" arbitrary: acc) (simp_all add: vec_simps)
  show "at + 4 \<le> length xs \<Longrightarrow> \<exists>v. get_u32 xs at = Some v"
    and "at + 8 \<le> length xs \<Longrightarrow> \<exists>v. get_u64 xs at = Some v"
    by (simp_all add: get_u32_def get_u64_def loop)
qed (simp add: get_u16_def vec_simps)

lemma vec_at_prefix: "i < m \<Longrightarrow> m \<le> length xs \<Longrightarrow> vec_at (take m xs @ ys) i = vec_at xs i"
  by (simp add: vec_at_def nth_append)

lemma get_prefix:
  "at + 2 \<le> m \<Longrightarrow> m \<le> length xs \<Longrightarrow> get_u16 (take m xs @ ys) at = get_u16 xs at"
  "at + 4 \<le> m \<Longrightarrow> m \<le> length xs \<Longrightarrow> get_u32 (take m xs @ ys) at = get_u32 xs at"
  "at + 8 \<le> m \<Longrightarrow> m \<le> length xs \<Longrightarrow> get_u64 (take m xs @ ys) at = get_u64 xs at"
proof -
  have loop: "get_loop is (take m xs @ ys) at acc = get_loop is xs at acc"
    if "\<forall>i \<in> set is. at + i < m" "m \<le> length xs" for "is" and acc :: "'a::len word"
    using that by (induction "is" arbitrary: acc) (simp_all add: vec_at_prefix)
  show "at + 4 \<le> m \<Longrightarrow> m \<le> length xs \<Longrightarrow> get_u32 (take m xs @ ys) at = get_u32 xs at"
    and "at + 8 \<le> m \<Longrightarrow> m \<le> length xs \<Longrightarrow> get_u64 (take m xs @ ys) at = get_u64 xs at"
    by (simp_all add: get_u32_def get_u64_def loop)
qed (simp add: get_u16_def vec_at_prefix)

subsection \<open>Frames\<close>

text \<open>The bytes of a header and of complete frames, as \<^verbatim>\<open>docs/PROTOCOL.md\<close> tabulates them.\<close>

definition header_bytes :: "MessageType \<Rightarrow> u16 \<Rightarrow> u32 \<Rightarrow> u64 \<Rightarrow> u8 list" where
  "header_bytes type len session sequence =
     le_bytes 4 magic @ [version, message_type_code type] @ le_bytes 2 len @ le_bytes 4 session @
     le_bytes 4 (0 :: u32) @ le_bytes 8 sequence"

fun payload_bytes :: "CommandType \<Rightarrow> Command \<Rightarrow> u8 list" where
  "payload_bytes New command =
     [side_code (c_side command), order_type_code (c_order_type command)] @ le_bytes 2 (0 :: u16) @
     le_bytes 8 (c_order_id command) @ le_bytes 8 (c_price command) @ le_bytes 8 (c_quantity command)"
| "payload_bytes Cancel command = le_bytes 8 (c_order_id command)"
| "payload_bytes Replace command =
     le_bytes 8 (c_order_id command) @ le_bytes 8 (c_price command) @ le_bytes 8 (c_quantity command)"

definition request_bytes :: "Request \<Rightarrow> u8 list" where
  "request_bytes request =
     (let command = rq_command request in
      header_bytes (wire_type (c_type command)) (of_nat (request_frame_size (c_type command)))
        (rq_session_id request) (rq_client_sequence request) @ payload_bytes (c_type command) command)"

definition response_bytes :: "Response \<Rightarrow> u8 list" where
  "response_bytes response =
     (let event = rp_event response in
      header_bytes ExecutionEvent (of_nat response_frame_size) (rp_session_id response) (rp_client_sequence response) @
      [event_type_code (e_type event), side_code (e_aggressor_side event), reject_reason_code (e_reason event), 0] @
      le_bytes 8 (e_order_id event) @ le_bytes 8 (e_contra_order_id event) @ le_bytes 8 (e_price event) @
      le_bytes 8 (e_quantity event) @ le_bytes 8 (e_sequence event))"

lemma length_header_bytes [simp]: "length (header_bytes type len session sequence) = 24"
  by (simp add: header_bytes_def)

lemma length_payload_bytes [simp]: "24 + length (payload_bytes type command) = request_frame_size type"
  by (cases type) simp_all

lemma length_request_bytes [simp]: "length (request_bytes request) = request_frame_size (c_type (rq_command request))"
  by (simp add: request_bytes_def Let_def)

lemma length_response_bytes [simp]: "length (response_bytes response) = 68"
  by (simp add: response_bytes_def Let_def)

lemma encode_header_overwrite:
  "24 \<le> length xs \<Longrightarrow> encode_header xs type len session sequence = Some (overwrite xs 0 (header_bytes type len session sequence))"
  by (simp add: encode_header_def header_bytes_def put_overwrite vec_set_overwrite overwrite_overwrite)

lemma encode_request_bytes:
  "encode_request request destination =
    (if length destination < request_frame_size (c_type (rq_command request)) \<or> rq_session_id request = 0 \<or>
       rq_client_sequence request = 0 \<or> c_order_id (rq_command request) = 0
     then Some (False, 0, destination)
     else Some (True, request_frame_size (c_type (rq_command request)),
       request_bytes request @ drop (request_frame_size (c_type (rq_command request))) destination))"
  by (cases "c_type (rq_command request)")
    (simp_all add: encode_request_def request_bytes_def Let_def encode_header_overwrite put_overwrite vec_set_overwrite
      overwrite_overwrite header_size_def, simp_all add: overwrite_0)

lemma encode_response_bytes:
  "encode_response response destination =
    (if length destination < 68 \<or> rp_session_id response = 0 \<or> rp_client_sequence response = 0
     then Some (False, 0, destination)
     else Some (True, 68, response_bytes response @ drop 68 destination))"
  by (simp add: encode_response_def response_bytes_def Let_def encode_header_overwrite put_overwrite vec_set_overwrite
      overwrite_overwrite header_size_def response_frame_size_def) (simp add: overwrite_0)

lemma validate_header_bytes:
  "validate_header (header_bytes type len session sequence @ rest) =
    Some (if unat len < 24 \<or> 80 < unat len then (InvalidLength, 0, unat len, 0, 0)
      else if 24 + length rest < unat len then (NeedMoreData, 0, unat len, 0, 0)
      else (Ok, message_type_code type, unat len, session, sequence))"
proof -
  let ?xs = "header_bytes type len session sequence @ rest"
  have "get_u32 ?xs 0 = Some magic" "get_u16 ?xs 6 = Some len" "get_u32 ?xs 8 = Some session"
    "get_u64 ?xs 16 = Some sequence" "vec_at ?xs 4 = Some version" "vec_at ?xs 5 = Some (message_type_code type)"
    by (rule get_field; simp add: header_bytes_def)+ (simp_all add: header_bytes_def vec_at_def nth_append)
  then show ?thesis by (simp add: validate_header_def Let_def header_size_def maximum_frame_size_def)
qed

text \<open>What of a request and of a response travels on the wire.\<close>

definition wire_command :: "Command \<Rightarrow> Command" where
  "wire_command command =
     (case c_type command of
        New \<Rightarrow> command\<lparr>c_sequence := 0, c_reserved := 0\<rparr>
      | Cancel \<Rightarrow> default_command\<lparr>c_type := Cancel, c_order_id := c_order_id command\<rparr>
      | Replace \<Rightarrow> default_command\<lparr>c_type := Replace, c_order_id := c_order_id command,
          c_price := c_price command, c_quantity := c_quantity command\<rparr>)"

definition wire_request :: "Request \<Rightarrow> Request" where
  "wire_request request = request\<lparr>rq_command := wire_command (rq_command request)\<rparr>"

definition wire_response :: "Response \<Rightarrow> Response" where
  "wire_response response = response\<lparr>rp_event := (rp_event response)\<lparr>e_reserved := 0\<rparr>\<rparr>"

definition identified :: "Request \<Rightarrow> bool" where
  "identified request \<longleftrightarrow> rq_session_id request \<noteq> 0 \<and> rq_client_sequence request \<noteq> 0 \<and>
     c_order_id (rq_command request) \<noteq> 0"

definition addressed :: "Response \<Rightarrow> bool" where
  "addressed response \<longleftrightarrow> rp_session_id response \<noteq> 0 \<and> rp_client_sequence response \<noteq> 0"

lemma code_of [simp]:
  "side_of (side_code s) = s" "valid_side (side_code s)"
  "order_type_of (order_type_code t) = t" "valid_order_type (order_type_code t)"
  "event_type_of (event_type_code e) = e" "\<not> event_type_code e > 5"
  "reject_reason_of (reject_reason_code r) = r" "\<not> reject_reason_code r > 10"
  "command_type_of (message_type_code (wire_type c)) = Some c"
  by (cases s; simp add: side_of_def valid_side_def; fail | cases t; simp add: order_type_of_def valid_order_type_def; fail
    | cases e; simp add: event_type_of_def; fail | cases r; simp add: reject_reason_of_def; fail
    | cases c; simp add: command_type_of_def; fail)+

lemma decode_command_payload:
  assumes "length hdr = 24"
  shows "decode_command (hdr @ payload_bytes (c_type command) command @ rest) 24 (c_type command) =
    Some (Inr (wire_command command))"
proof -
  let ?xs = "hdr @ payload_bytes (c_type command) command @ rest"
  show ?thesis
  proof (cases "c_type command")
    case New
    have "get_u64 ?xs 28 = Some (c_order_id command)" "get_u64 ?xs 36 = Some (c_price command)"
      "get_u64 ?xs 44 = Some (c_quantity command)"
      by (rule get_field; simp add: New assms)+
    moreover have "vec_at ?xs 24 = Some (side_code (c_side command))"
      "vec_at ?xs 25 = Some (order_type_code (c_order_type command))"
      by (simp_all add: New assms vec_at_def nth_append)
    ultimately show ?thesis
      using New by (simp add: decode_command_def wire_command_def default_command_def)
  next
    case Cancel
    have "get_u64 ?xs 24 = Some (c_order_id command)" by (rule get_field) (simp add: Cancel assms)
    then show ?thesis using Cancel by (simp add: decode_command_def wire_command_def)
  next
    case Replace
    have "get_u64 ?xs 24 = Some (c_order_id command)" "get_u64 ?xs 32 = Some (c_price command)"
      "get_u64 ?xs 40 = Some (c_quantity command)"
      by (rule get_field; simp add: Replace assms)+
    then show ?thesis using Replace by (simp add: decode_command_def wire_command_def default_command_def)
  qed
qed

lemma request_frame_size_bounds: "24 < request_frame_size type" "request_frame_size type \<le> 80"
  by (cases type; simp)+

lemma unat_frame_size: "unat (of_nat (request_frame_size type) :: u16) = request_frame_size type"
  by (cases type) simp_all

lemma decode_request_bytes:
  assumes "identified request"
  shows "decode_request (request_bytes request @ rest) =
    Some \<lparr>rqd_status = Ok, rqd_bytes_consumed = request_frame_size (c_type (rq_command request)),
      rqd_request = wire_request request\<rparr>"
proof -
  let ?c = "rq_command request" and ?n = "request_frame_size (c_type (rq_command request))"
  let ?h = "header_bytes (wire_type (c_type ?c)) (of_nat ?n) (rq_session_id request) (rq_client_sequence request)"
  have xs: "request_bytes request @ rest = ?h @ payload_bytes (c_type ?c) ?c @ rest"
    by (simp add: request_bytes_def Let_def)
  have "length (payload_bytes (c_type ?c) ?c) = ?n - 24"
    using length_payload_bytes [of "c_type ?c" ?c] by linarith
  then have "validate_header (request_bytes request @ rest) =
      Some (Ok, message_type_code (wire_type (c_type ?c)), ?n, rq_session_id request, rq_client_sequence request)"
    unfolding xs validate_header_bytes using request_frame_size_bounds [of "c_type ?c"] by (simp add: unat_frame_size)
  moreover have "decode_command (request_bytes request @ rest) 24 (c_type ?c) = Some (Inr (wire_command ?c))"
    unfolding xs by (rule decode_command_payload) simp
  moreover have "c_order_id (wire_command ?c) = c_order_id ?c"
    by (simp add: wire_command_def split: CommandType.split)
  ultimately show ?thesis
    using assms by (simp add: decode_request_def identified_def header_size_def wire_request_def)
qed

lemma validate_header_prefix:
  assumes "n < unat len" "24 \<le> unat len" "unat len \<le> 80"
  shows "\<exists>l. validate_header (take n (header_bytes type len session sequence @ rest)) = Some (NeedMoreData, 0, l, 0, 0)"
proof (cases "n < 24")
  case True
  then show ?thesis by (simp add: validate_header_def header_size_def)
next
  case False
  then have "take n (header_bytes type len session sequence @ rest) =
      header_bytes type len session sequence @ take (n - 24) rest" by simp
  moreover have "24 + length (take (n - 24) rest) < unat len" using assms False by simp
  ultimately show ?thesis using assms by (simp add: validate_header_bytes)
qed

lemma decode_request_prefix:
  assumes "n < length (request_bytes request)"
  shows "decode_request (take n (request_bytes request)) = Some (request_failed NeedMoreData)"
proof -
  let ?c = "rq_command request"
  have "\<exists>l. validate_header (take n (request_bytes request)) = Some (NeedMoreData, 0, l, 0, 0)"
    unfolding request_bytes_def Let_def
    by (rule validate_header_prefix)
      (use assms request_frame_size_bounds [of "c_type ?c"] in \<open>simp_all add: unat_frame_size\<close>)
  then show ?thesis by (auto simp: decode_request_def)
qed

lemma decode_response_bytes:
  assumes "addressed response"
  shows "decode_response (response_bytes response @ rest) =
    Some \<lparr>rpd_status = Ok, rpd_bytes_consumed = 68, rpd_response = wire_response response\<rparr>"
proof -
  let ?e = "rp_event response" and ?xs = "response_bytes response @ rest"
  have "validate_header ?xs =
      Some (Ok, message_type_code ExecutionEvent, 68, rp_session_id response, rp_client_sequence response)"
    by (simp add: response_bytes_def Let_def validate_header_bytes response_frame_size_def)
  moreover have "get_u64 ?xs 28 = Some (e_order_id ?e)" "get_u64 ?xs 36 = Some (e_contra_order_id ?e)"
    "get_u64 ?xs 44 = Some (e_price ?e)" "get_u64 ?xs 52 = Some (e_quantity ?e)" "get_u64 ?xs 60 = Some (e_sequence ?e)"
    by (rule get_field; simp add: response_bytes_def Let_def)+
  moreover have "vec_at ?xs 24 = Some (event_type_code (e_type ?e))"
    "vec_at ?xs 25 = Some (side_code (e_aggressor_side ?e))" "vec_at ?xs 26 = Some (reject_reason_code (e_reason ?e))"
    by (simp_all add: response_bytes_def Let_def vec_at_def nth_append)
  ultimately show ?thesis
    using assms by (simp add: decode_response_def addressed_def header_size_def response_frame_size_def
      wire_response_def default_event_def)
qed

lemma decode_response_prefix:
  assumes "n < length (response_bytes response)"
  shows "decode_response (take n (response_bytes response)) = Some (response_failed NeedMoreData)"
proof -
  have "\<exists>l. validate_header (take n (response_bytes response)) = Some (NeedMoreData, 0, l, 0, 0)"
    unfolding response_bytes_def Let_def
    by (rule validate_header_prefix) (use assms in \<open>simp_all add: response_frame_size_def\<close>)
  then show ?thesis by (auto simp: decode_response_def)
qed

subsection \<open>Arbitrary input\<close>

lemma validate_header_total:
  obtains st type len session sequence where "validate_header xs = Some (st, type, len, session, sequence)"
    "st = Ok \<Longrightarrow> 24 \<le> len \<and> len \<le> 80 \<and> len \<le> length xs" "80 \<le> length xs \<Longrightarrow> st \<noteq> NeedMoreData"
proof (cases "length xs < 24")
  case True
  then show thesis using that [of NeedMoreData 0 0 0 0] by (simp add: validate_header_def header_size_def)
next
  case False
  then have n: "24 \<le> length xs" by simp
  obtain m l s q where r: "get_u32 xs 0 = Some m" "get_u16 xs 6 = Some l" "get_u32 xs 8 = Some s" "get_u64 xs 16 = Some q"
    using get_total(2) [of 0 xs] get_total(1) [of 6 xs] get_total(2) [of 8 xs] get_total(3) [of 16 xs] n by auto
  show thesis
    using that n by (cases "validate_header xs")
      (auto simp: validate_header_def r vec_simps Let_def header_size_def maximum_frame_size_def split: if_splits)
qed

lemma decode_command_total:
  assumes "request_frame_size type \<le> length xs"
  obtains s where "decode_command xs 24 type = Some (Inl s)" "s = InvalidField"
  | command where "decode_command xs 24 type = Some (Inr command)" "c_type command = type" "wire_command command = command"
proof (cases type)
  case New
  obtain i p q where r: "get_u64 xs 28 = Some i" "get_u64 xs 36 = Some p" "get_u64 xs 44 = Some q"
    using get_total(3) [of 28 xs] get_total(3) [of 36 xs] get_total(3) [of 44 xs] assms New by auto
  show thesis
    using that assms New
    by (cases "valid_side (xs ! 24) \<and> valid_order_type (xs ! 25)")
      (auto simp: decode_command_def r vec_simps wire_command_def default_command_def)
next
  case Cancel
  obtain i where "get_u64 xs 24 = Some i" using get_total(3) [of 24 xs] assms Cancel by auto
  then show thesis using that(2) Cancel by (simp add: decode_command_def wire_command_def)
next
  case Replace
  obtain i p q where r: "get_u64 xs 24 = Some i" "get_u64 xs 32 = Some p" "get_u64 xs 40 = Some q"
    using get_total(3) [of 24 xs] get_total(3) [of 32 xs] get_total(3) [of 40 xs] assms Replace by auto
  then show thesis using that(2) Replace by (simp add: decode_command_def wire_command_def default_command_def)
qed

lemma decode_request_total:
  obtains (failed) st where "decode_request xs = Some (request_failed st)" "st \<noteq> Ok" "80 \<le> length xs \<Longrightarrow> st \<noteq> NeedMoreData"
  | (decoded) request where "decode_request xs = Some \<lparr>rqd_status = Ok,
        rqd_bytes_consumed = request_frame_size (c_type (rq_command request)), rqd_request = request\<rparr>"
      "request_frame_size (c_type (rq_command request)) \<le> length xs" "identified request" "wire_request request = request"
proof (rule validate_header_total [of xs])
  fix st type len session sequence
  assume v: "validate_header xs = Some (st, type, len, session, sequence)"
    "st = Ok \<Longrightarrow> 24 \<le> len \<and> len \<le> 80 \<and> len \<le> length xs" "80 \<le> length xs \<Longrightarrow> st \<noteq> NeedMoreData"
  consider "st \<noteq> Ok" | "st = Ok" "command_type_of type = None"
    | ct where "st = Ok" "command_type_of type = Some ct" "len \<noteq> request_frame_size ct \<or> session = 0 \<or> sequence = 0"
    | ct where "st = Ok" "command_type_of type = Some ct" "len = request_frame_size ct" "session \<noteq> 0" "sequence \<noteq> 0"
    by blast
  then show thesis
  proof cases
    case 1
    then show ?thesis using v(1,3) failed [of st] by (simp add: decode_request_def)
  next
    case 2
    then show ?thesis using v(1) failed [of UnknownMessageType] by (simp add: decode_request_def)
  next
    case (3 ct)
    then show ?thesis using v(1) failed [of InvalidField] by (auto simp: decode_request_def)
  next
    case (4 ct)
    then have "request_frame_size ct \<le> length xs" using v(2) by simp
    then show ?thesis
    proof (rule decode_command_total [of ct xs])
      fix s assume "decode_command xs 24 ct = Some (Inl s)" "s = InvalidField"
      then show ?thesis using 4 v(1) failed [of InvalidField] by (simp add: decode_request_def header_size_def)
    next
      fix command assume c: "decode_command xs 24 ct = Some (Inr command)" "c_type command = ct" "wire_command command = command"
      let ?r = "\<lparr>rq_session_id = session, rq_client_sequence = sequence, rq_command = command\<rparr>"
      show ?thesis
      proof (cases "c_order_id command = 0")
        case True
        then show ?thesis using 4 v(1) c failed [of InvalidField] by (simp add: decode_request_def header_size_def)
      next
        case False
        then have "decode_request xs = Some \<lparr>rqd_status = Ok, rqd_bytes_consumed = len, rqd_request = ?r\<rparr>"
          using 4 v(1) c by (simp add: decode_request_def header_size_def)
        then show ?thesis
          using 4 v(2) c False decoded [of ?r] by (simp add: identified_def wire_request_def)
      qed
    qed
  qed
qed

lemma validate_header_extend:
  assumes "validate_header xs = Some (st, type, len, session, sequence)" "st \<noteq> NeedMoreData"
  shows "validate_header (xs @ ys) = Some (st, type, len, session, sequence)"
proof -
  have n: "24 \<le> length xs" using assms by (auto simp: validate_header_def header_size_def split: if_splits)
  have r: "get_u32 (xs @ ys) 0 = get_u32 xs 0" "get_u16 (xs @ ys) 6 = get_u16 xs 6" "get_u32 (xs @ ys) 8 = get_u32 xs 8"
    "get_u64 (xs @ ys) 16 = get_u64 xs 16" "vec_at (xs @ ys) 4 = vec_at xs 4" "vec_at (xs @ ys) 5 = vec_at xs 5"
    using get_prefix [of _ "length xs" xs ys] vec_at_prefix [of _ "length xs" xs ys] n by simp_all
  show ?thesis
    using assms n unfolding validate_header_def r
    by (auto simp: Let_def header_size_def split: if_splits option.splits bind_splits)
qed

lemma decode_command_extend:
  assumes "request_frame_size type \<le> length xs"
  shows "decode_command (xs @ ys) 24 type = decode_command xs 24 type"
  using get_prefix(3) [of _ "length xs" xs ys] vec_at_prefix [of _ "length xs" xs ys] assms
  by (cases type) (simp_all add: decode_command_def cong: if_cong)

lemma decode_request_extend:
  assumes "decode_request xs = Some r" "rqd_status r \<noteq> NeedMoreData"
  shows "decode_request (xs @ ys) = Some r"
proof (rule validate_header_total [of xs])
  fix st type len session sequence
  assume v: "validate_header xs = Some (st, type, len, session, sequence)"
    "st = Ok \<Longrightarrow> 24 \<le> len \<and> len \<le> 80 \<and> len \<le> length xs"
  have "st \<noteq> NeedMoreData" using assms v(1) by (auto simp: decode_request_def request_failed_def)
  note w = validate_header_extend [OF v(1) this, of ys]
  show ?thesis
  proof (cases "st = Ok \<and> (\<exists>ct. command_type_of type = Some ct \<and> len = request_frame_size ct)")
    case True
    then obtain ct where ct: "command_type_of type = Some ct" "len = request_frame_size ct" by blast
    then have "decode_command (xs @ ys) 24 ct = decode_command xs 24 ct"
      using v(2) True by (intro decode_command_extend) simp
    then have "decode_request (xs @ ys) = decode_request xs"
      using v(1) w ct by (simp add: decode_request_def header_size_def)
    then show ?thesis using assms(1) by simp
  next
    case False
    then show ?thesis using assms(1) v(1) w by (auto simp: decode_request_def split: if_splits option.splits)
  qed
qed

lemma decode_response_total:
  obtains (failed) st where "decode_response xs = Some (response_failed st)" "st \<noteq> Ok" "80 \<le> length xs \<Longrightarrow> st \<noteq> NeedMoreData"
  | (decoded) response where "decode_response xs = Some \<lparr>rpd_status = Ok, rpd_bytes_consumed = 68, rpd_response = response\<rparr>"
      "68 \<le> length xs" "addressed response" "wire_response response = response"
proof (rule validate_header_total [of xs])
  fix st type len session sequence
  assume v: "validate_header xs = Some (st, type, len, session, sequence)"
    "st = Ok \<Longrightarrow> 24 \<le> len \<and> len \<le> 80 \<and> len \<le> length xs" "80 \<le> length xs \<Longrightarrow> st \<noteq> NeedMoreData"
  consider "st \<noteq> Ok" | "st = Ok" "type \<noteq> 128" | "st = Ok" "type = 128" "len \<noteq> 68 \<or> session = 0 \<or> sequence = 0"
    | "st = Ok" "type = 128" "len = 68" "session \<noteq> 0" "sequence \<noteq> 0" by blast
  then show thesis
  proof cases
    case 1
    then show ?thesis using v(1,3) failed [of st] by (simp add: decode_response_def)
  next
    case 2
    then show ?thesis using v(1) failed [of UnknownMessageType] by (simp add: decode_response_def)
  next
    case 3
    then show ?thesis using v(1) failed [of InvalidField] by (auto simp: decode_response_def response_frame_size_def)
  next
    case 4
    then have n: "68 \<le> length xs" using v(2) by simp
    obtain a b c d e where r: "get_u64 xs 28 = Some a" "get_u64 xs 36 = Some b" "get_u64 xs 44 = Some c"
      "get_u64 xs 52 = Some d" "get_u64 xs 60 = Some e"
      using get_total(3) [of 28 xs] get_total(3) [of 36 xs] get_total(3) [of 44 xs] get_total(3) [of 52 xs]
        get_total(3) [of 60 xs] n by auto
    show ?thesis
    proof (cases "xs ! 24 > 5 \<or> \<not> valid_side (xs ! 25) \<or> xs ! 26 > 10")
      case True
      then show ?thesis using 4 v(1) n failed [of InvalidField]
        by (auto simp: decode_response_def response_frame_size_def header_size_def vec_simps)
    next
      case False
      let ?r = "\<lparr>rp_session_id = session, rp_client_sequence = sequence,
        rp_event = default_event\<lparr>e_type := event_type_of (xs ! 24), e_aggressor_side := side_of (xs ! 25),
          e_reason := reject_reason_of (xs ! 26), e_order_id := a, e_contra_order_id := b, e_price := c,
          e_quantity := d, e_sequence := e\<rparr>\<rparr>"
      have "decode_response xs = Some \<lparr>rpd_status = Ok, rpd_bytes_consumed = 68, rpd_response = ?r\<rparr>"
        using 4 v(1) n False by (simp add: decode_response_def response_frame_size_def header_size_def vec_simps r)
      then show ?thesis using decoded [of ?r] 4 n by (simp add: addressed_def wire_response_def default_event_def)
    qed
  qed
qed

lemma decode_response_extend:
  assumes "decode_response xs = Some r" "rpd_status r \<noteq> NeedMoreData"
  shows "decode_response (xs @ ys) = Some r"
proof (rule validate_header_total [of xs])
  fix st type len session sequence
  assume v: "validate_header xs = Some (st, type, len, session, sequence)"
    "st = Ok \<Longrightarrow> 24 \<le> len \<and> len \<le> 80 \<and> len \<le> length xs"
  have "st \<noteq> NeedMoreData" using assms v(1) by (auto simp: decode_response_def response_failed_def)
  note w = validate_header_extend [OF v(1) this, of ys]
  show ?thesis
  proof (cases "st = Ok \<and> len = 68")
    case True
    then have n: "68 \<le> length xs" using v(2) by simp
    have "get_u64 (xs @ ys) at = get_u64 xs at" if "at + 8 \<le> 68" for at
      using get_prefix(3) [of at "length xs" xs ys] that n by simp
    moreover have "vec_at (xs @ ys) i = vec_at xs i" if "i < 68" for i
      using vec_at_prefix [of i "length xs" xs ys] that n by simp
    ultimately have "decode_response (xs @ ys) = decode_response xs"
      using v(1) w by (simp add: decode_response_def header_size_def cong: if_cong)
    then show ?thesis using assms(1) by simp
  next
    case False
    then show ?thesis using assms(1) v(1) w by (auto simp: decode_response_def response_frame_size_def split: if_splits)
  qed
qed

subsection \<open>The contract of a stream codec\<close>

text \<open>
  What a receiver of a byte stream relies on: the decoder answers on any input, a complete
  frame is decoded whatever follows it, a proper prefix of a frame is never misread, bytes
  that arrive later never change a verdict, and 80 bytes are always enough for one.
\<close>

locale codec =
  fixes decode :: "u8 list \<Rightarrow> (DecodeStatus \<times> nat \<times> 'm) option"
    and frame :: "'m \<Rightarrow> u8 list"
    and wf :: "'m \<Rightarrow> bool"
  assumes decode_total: "\<exists>st n m. decode xs = Some (st, n, m) \<and> (st = Ok \<longrightarrow> 0 < n \<and> n \<le> length xs \<and> n = length (frame m) \<and> wf m)"
    and decode_frame: "wf m \<Longrightarrow> decode (frame m @ rest) = Some (Ok, length (frame m), m)"
    and decode_partial: "wf m \<Longrightarrow> n < length (frame m) \<Longrightarrow> \<exists>d. decode (take n (frame m)) = Some (NeedMoreData, 0, d)"
    and decode_extend: "decode xs = Some (st, n, m) \<Longrightarrow> st \<noteq> NeedMoreData \<Longrightarrow> decode (xs @ ys) = Some (st, n, m)"
    and decode_bounded: "80 \<le> length xs \<Longrightarrow> decode xs \<noteq> Some (NeedMoreData, n, m)"
begin

lemma frame_nonempty: "wf m \<Longrightarrow> frame m \<noteq> []"
proof
  assume m: "wf m" "frame m = []"
  then have "decode [] = Some (Ok, 0, m)" using decode_frame [of m "[]"] by simp
  then show False using decode_total [of "[]"] by auto
qed

lemma prefix_free: "wf m \<Longrightarrow> wf m' \<Longrightarrow> frame m @ xs = frame m' @ ys \<Longrightarrow> m = m' \<and> xs = ys"
  using decode_frame [of m xs] decode_frame [of m' ys] by simp

lemma stream_unambiguous:
  "\<forall>m \<in> set ms. wf m \<Longrightarrow> \<forall>m \<in> set ms'. wf m \<Longrightarrow> concat (map frame ms) = concat (map frame ms') \<Longrightarrow> ms = ms'"
proof (induction ms arbitrary: ms')
  case Nil
  show ?case
  proof (cases ms')
    case (Cons m ns)
    then show ?thesis using Nil.prems(2,3) frame_nonempty [of m] by simp
  qed simp
next
  case (Cons m ms)
  then obtain m' ns where ns: "ms' = m' # ns" using frame_nonempty [of m] by (cases ms') simp_all
  then have "m = m' \<and> concat (map frame ms) = concat (map frame ns)"
    using Cons.prems prefix_free [of m m' "concat (map frame ms)" "concat (map frame ns)"] by simp
  then show ?case using Cons.IH [of ns] Cons.prems ns by simp
qed

lemma decode_fragment:
  assumes "\<forall>m \<in> set ms. wf m" "buf = take k (concat (map frame ms))" "buf \<noteq> []"
  obtains (partial) d where "decode buf = Some (NeedMoreData, 0, d)"
  | (complete) m rest where "ms = m # rest" "decode buf = Some (Ok, length (frame m), m)"
      "drop (length (frame m)) buf = take (k - length (frame m)) (concat (map frame rest))"
proof -
  obtain m rest where ms: "ms = m # rest" using assms(2,3) by (cases ms) auto
  have m: "wf m" using assms(1) ms by simp
  show thesis
  proof (cases "k < length (frame m)")
    case True
    then have "buf = take k (frame m)" using assms(2) ms by simp
    then show ?thesis using decode_partial [OF m True] partial by auto
  next
    case False
    then have "buf = frame m @ take (k - length (frame m)) (concat (map frame rest))" using assms(2) ms by simp
    then show ?thesis using complete [OF ms] decode_frame [OF m] by simp
  qed
qed

end

text \<open>Both message kinds satisfy the contract.\<close>

definition request_result :: "RequestDecodeResult \<Rightarrow> DecodeStatus \<times> nat \<times> Request" where
  "request_result r = (rqd_status r, rqd_bytes_consumed r, rqd_request r)"

definition response_result :: "ResponseDecodeResult \<Rightarrow> DecodeStatus \<times> nat \<times> Response" where
  "response_result r = (rpd_status r, rpd_bytes_consumed r, rpd_response r)"

interpretation requests: codec "\<lambda>xs. map_option request_result (decode_request xs)" request_bytes
  "\<lambda>m. identified m \<and> wire_request m = m"
proof
  fix xs
  show "\<exists>st n m. map_option request_result (decode_request xs) = Some (st, n, m) \<and>
      (st = Ok \<longrightarrow> 0 < n \<and> n \<le> length xs \<and> n = length (request_bytes m) \<and> identified m \<and> wire_request m = m)"
  proof (rule decode_request_total [of xs])
    fix r assume "decode_request xs = Some \<lparr>rqd_status = Ok,
        rqd_bytes_consumed = request_frame_size (c_type (rq_command r)), rqd_request = r\<rparr>"
      "request_frame_size (c_type (rq_command r)) \<le> length xs" "identified r" "wire_request r = r"
    then show ?thesis using request_frame_size_bounds(1) [of "c_type (rq_command r)"] by (simp add: request_result_def)
  qed (simp add: request_result_def request_failed_def)
next
  fix m :: Request and rest
  assume "identified m \<and> wire_request m = m"
  then show "map_option request_result (decode_request (request_bytes m @ rest)) = Some (Ok, length (request_bytes m), m)"
    by (simp add: decode_request_bytes request_result_def)
next
  fix m :: Request and n
  assume "n < length (request_bytes m)"
  then show "\<exists>d. map_option request_result (decode_request (take n (request_bytes m))) = Some (NeedMoreData, 0, d)"
    by (simp add: decode_request_prefix request_result_def request_failed_def)
next
  fix xs st n m ys
  assume "map_option request_result (decode_request xs) = Some (st, n, m)" "st \<noteq> NeedMoreData"
  then show "map_option request_result (decode_request (xs @ ys)) = Some (st, n, m)"
    using decode_request_extend [of xs _ ys] by (auto simp: request_result_def)
next
  fix xs :: "u8 list" and n m
  assume n: "80 \<le> length xs"
  show "map_option request_result (decode_request xs) \<noteq> Some (NeedMoreData, n, m)"
    by (rule decode_request_total [of xs]; use n in \<open>simp add: request_result_def request_failed_def\<close>)
qed

interpretation responses: codec "\<lambda>xs. map_option response_result (decode_response xs)" response_bytes
  "\<lambda>m. addressed m \<and> wire_response m = m"
proof
  fix xs
  show "\<exists>st n m. map_option response_result (decode_response xs) = Some (st, n, m) \<and>
      (st = Ok \<longrightarrow> 0 < n \<and> n \<le> length xs \<and> n = length (response_bytes m) \<and> addressed m \<and> wire_response m = m)"
    by (rule decode_response_total [of xs]; simp add: response_result_def response_failed_def)
next
  fix m :: Response and rest
  assume "addressed m \<and> wire_response m = m"
  then show "map_option response_result (decode_response (response_bytes m @ rest)) = Some (Ok, length (response_bytes m), m)"
    by (simp add: decode_response_bytes response_result_def)
next
  fix m :: Response and n
  assume "n < length (response_bytes m)"
  then show "\<exists>d. map_option response_result (decode_response (take n (response_bytes m))) = Some (NeedMoreData, 0, d)"
    by (simp only: decode_response_prefix) (simp add: response_result_def response_failed_def)
next
  fix xs st n m ys
  assume "map_option response_result (decode_response xs) = Some (st, n, m)" "st \<noteq> NeedMoreData"
  then show "map_option response_result (decode_response (xs @ ys)) = Some (st, n, m)"
    using decode_response_extend [of xs _ ys] by (auto simp: response_result_def)
next
  fix xs :: "u8 list" and n m
  assume n: "80 \<le> length xs"
  show "map_option response_result (decode_response xs) \<noteq> Some (NeedMoreData, n, m)"
    by (rule decode_response_total [of xs]; use n in \<open>simp add: response_result_def response_failed_def\<close>)
qed

subsection \<open>Properties\<close>

text \<open>
  C28.  Requests survive the wire.  When \<^verbatim>\<open>encode_request\<close> succeeds it reports the frame size of
  the command, writes exactly that many bytes and leaves the rest of the destination alone;
  decoding those bytes, whatever follows them, consumes the frame and returns the request
  with exactly the fields the message kind carries.
\<close>

theorem request_roundtrip:
  assumes "encode_request request destination = Some (True, n, out)"
  shows "n = request_frame_size (c_type (rq_command request)) \<and> length out = length destination \<and>
    drop n out = drop n destination \<and>
    decode_request (take n out @ rest) =
      Some \<lparr>rqd_status = Ok, rqd_bytes_consumed = n, rqd_request = wire_request request\<rparr>"
proof -
  have id: "identified request" and n: "n = request_frame_size (c_type (rq_command request))"
    and out: "out = request_bytes request @ drop n destination" "n \<le> length destination"
    using assms by (auto simp: encode_request_bytes identified_def split: if_splits)
  have "take n out = request_bytes request" using out n by simp
  then show ?thesis using decode_request_bytes [OF id, of rest] n out by simp
qed

definition sample_request :: Request where
  "sample_request = \<lparr>rq_session_id = 7, rq_client_sequence = 1,
     rq_command = default_command\<lparr>c_type := Replace, c_order_id := 42, c_price := - 5, c_quantity := 300\<rparr>\<rparr>"

theorem request_roundtrip_witness:
  "\<exists>out. encode_request sample_request (replicate 64 0) = Some (True, 48, out) \<and> length out = 64 \<and>
    decode_request (take 48 out @ [1, 2, 3]) =
      Some \<lparr>rqd_status = Ok, rqd_bytes_consumed = 48, rqd_request = sample_request\<rparr>"
proof -
  obtain out where out: "encode_request sample_request (replicate 64 0) = Some (True, 48, out)"
    by (simp add: encode_request_bytes sample_request_def)
  have "wire_request sample_request = sample_request"
    by (simp add: wire_request_def wire_command_def sample_request_def default_command_def)
  then show ?thesis using request_roundtrip [OF out, of "[1, 2, 3]"] out by simp
qed

text \<open>
  C29.  Responses survive the wire: every event, with its correlation fields, is decoded as it
  was encoded (the reserved byte reads as zero).
\<close>

theorem response_roundtrip:
  assumes "encode_response response destination = Some (True, n, out)"
  shows "n = 68 \<and> length out = length destination \<and> drop n out = drop n destination \<and>
    decode_response (take n out @ rest) =
      Some \<lparr>rpd_status = Ok, rpd_bytes_consumed = n, rpd_response = wire_response response\<rparr>"
proof -
  have id: "addressed response" and n: "n = 68"
    and out: "out = response_bytes response @ drop 68 destination" "68 \<le> length destination"
    using assms by (auto simp: encode_response_bytes addressed_def split: if_splits)
  have "take n out = response_bytes response" using out n by simp
  then show ?thesis using decode_response_bytes [OF id, of rest] n out by simp
qed

definition sample_response :: Response where
  "sample_response = \<lparr>rp_session_id = 7, rp_client_sequence = 1,
     rp_event = default_event\<lparr>e_type := Trade, e_aggressor_side := Sell, e_order_id := 42, e_contra_order_id := 43,
       e_price := 10, e_quantity := 300, e_sequence := 9\<rparr>\<rparr>"

theorem response_roundtrip_witness:
  "\<exists>out. encode_response sample_response (replicate 70 0) = Some (True, 68, out) \<and>
    decode_response (take 68 out @ []) =
      Some \<lparr>rpd_status = Ok, rpd_bytes_consumed = 68, rpd_response = sample_response\<rparr>"
proof -
  obtain out where out: "encode_response sample_response (replicate 70 0) = Some (True, 68, out)"
    by (simp add: encode_response_bytes sample_response_def)
  have "wire_response sample_response = sample_response"
    by (simp add: wire_response_def sample_response_def default_event_def)
  then show ?thesis using response_roundtrip [OF out, of "[]"] out by simp
qed

text \<open>
  C30.  Decoding untrusted bytes is safe.  On every input both decoders return a verdict and read
  only inside their span.  A verdict other than \<^verbatim>\<open>Ok\<close> consumes nothing; \<^verbatim>\<open>Ok\<close> consumes one whole
  frame that lies inside the input, and the message has nonzero identity fields and is one
  the encoder accepts and reproduces.
\<close>

theorem decoders_safe:
  "\<exists>r q. decode_request xs = Some r \<and> decode_response xs = Some q \<and>
    (if rqd_status r = Ok
     then rqd_bytes_consumed r = request_frame_size (c_type (rq_command (rqd_request r))) \<and>
       rqd_bytes_consumed r \<le> length xs \<and> identified (rqd_request r) \<and> wire_request (rqd_request r) = rqd_request r
     else rqd_bytes_consumed r = 0 \<and> rqd_request r = default_request) \<and>
    (if rpd_status q = Ok
     then rpd_bytes_consumed q = response_frame_size \<and> rpd_bytes_consumed q \<le> length xs \<and>
       addressed (rpd_response q) \<and> wire_response (rpd_response q) = rpd_response q
     else rpd_bytes_consumed q = 0 \<and> rpd_response q = default_response)"
proof -
  have "\<exists>r. decode_request xs = Some r \<and>
    (if rqd_status r = Ok
     then rqd_bytes_consumed r = request_frame_size (c_type (rq_command (rqd_request r))) \<and>
       rqd_bytes_consumed r \<le> length xs \<and> identified (rqd_request r) \<and> wire_request (rqd_request r) = rqd_request r
     else rqd_bytes_consumed r = 0 \<and> rqd_request r = default_request)"
    by (rule decode_request_total [of xs]; simp add: request_failed_def)
  moreover have "\<exists>q. decode_response xs = Some q \<and>
    (if rpd_status q = Ok
     then rpd_bytes_consumed q = response_frame_size \<and> rpd_bytes_consumed q \<le> length xs \<and>
       addressed (rpd_response q) \<and> wire_response (rpd_response q) = rpd_response q
     else rpd_bytes_consumed q = 0 \<and> rpd_response q = default_response)"
    by (rule decode_response_total [of xs]; simp add: response_failed_def response_frame_size_def)
  ultimately show ?thesis by blast
qed

text \<open>
  The encoder refuses exactly the requests without identity (a zero session, client
  sequence or order identifier) and destinations that are too short, and then writes
  nothing.
\<close>

theorem encode_request_refuses:
  "\<exists>ok n out. encode_request request destination = Some (ok, n, out) \<and>
    (ok \<longleftrightarrow> identified request \<and> request_frame_size (c_type (rq_command request)) \<le> length destination) \<and>
    (ok \<or> n = 0 \<and> out = destination)"
  by (auto simp: encode_request_bytes identified_def)

text \<open>
  C31.  Framing is independent of how TCP cuts the stream.  A proper prefix of a request frame
  asks for more data and consumes nothing; once a verdict is reached no later byte changes
  it; and 80 buffered bytes always suffice for a verdict.
\<close>

theorem request_framing:
  "(n < length (request_bytes request) \<longrightarrow>
      decode_request (take n (request_bytes request)) = Some (request_failed NeedMoreData)) \<and>
   (decode_request xs = Some r \<and> rqd_status r \<noteq> NeedMoreData \<longrightarrow> decode_request (xs @ ys) = Some r) \<and>
   (maximum_frame_size \<le> length xs \<and> decode_request xs = Some r \<longrightarrow> rqd_status r \<noteq> NeedMoreData)"
  using decode_request_prefix [of n request] decode_request_extend [of xs r ys] requests.decode_bounded [of xs]
  by (auto simp: maximum_frame_size_def request_result_def)

lemma sample_decoded:
  "decode_request (request_bytes sample_request) =
    Some \<lparr>rqd_status = Ok, rqd_bytes_consumed = 48, rqd_request = sample_request\<rparr>"
  using decode_request_bytes [of sample_request "[]"]
  by (simp add: identified_def wire_request_def wire_command_def sample_request_def default_command_def)

theorem request_framing_witness:
  "decode_request (take 30 (request_bytes sample_request)) = Some (request_failed NeedMoreData) \<and>
   decode_request (request_bytes sample_request @ replicate 40 0) =
     Some \<lparr>rqd_status = Ok, rqd_bytes_consumed = 48, rqd_request = sample_request\<rparr>"
  using request_framing [of 30 sample_request "request_bytes sample_request"
      "\<lparr>rqd_status = Ok, rqd_bytes_consumed = 48, rqd_request = sample_request\<rparr>" "replicate 40 0"] sample_decoded
  by (simp add: sample_request_def)

end
