(* ===== verification/Fixed_Hash.thy ===== *)
theory Fixed_Hash
  imports Dme_Types
begin

text \<open>
  The order-identifier index of \<^verbatim>\<open>include/dme/fixed_hash.hpp\<close>: a power-of-two table
  with linear probing whose deletion closes the probe chain by reinserting the
  cluster that follows the hole.  The first part translates the class; the second
  part shows that under its invariant the table is a finite map, that deletion
  terminates, and that no operation leaves the table's bounds.
\<close>

subsection \<open>The table and its operations\<close>

datatype State = Empty | Occupied

record Entry =
  en_id :: OrderId
  en_node :: nat
  en_state :: State

record FixedOrderIndex =
  fi_entries :: "Entry list"
  fi_mask :: nat

definition default_entry :: Entry where
  "default_entry = \<lparr>en_id = 0, en_node = 0, en_state = Empty\<rparr>"

definition hash :: "OrderId \<Rightarrow> u64" where
  "hash v0 =
     (let v1 = v0 XOR drop_bit 30 v0;
          v2 = v1 * 0xbf58476d1ce4e5b9;
          v3 = v2 XOR drop_bit 27 v2;
          v4 = v3 * 0x94d049bb133111eb
      in v4 XOR drop_bit 31 v4)"

definition table_capacity :: "nat \<Rightarrow> exn + nat" where
  "table_capacity requested =
     (if requested = 0 \<or> requested > 2 ^ 62 then Inl InvalidArgument
      else Inr (bit_ceil (requested * 2)))"

definition fixed_order_index :: "nat \<Rightarrow> exn + FixedOrderIndex" where
  "fixed_order_index requested =
     (case table_capacity requested of
        Inl e \<Rightarrow> Inl e
      | Inr c \<Rightarrow> Inr \<lparr>fi_entries = replicate c default_entry, fi_mask = c - 1\<rparr>)"

text \<open>
  The probe loops run at most \<^verbatim>\<open>entries_.size()\<close> times; the first argument is the
  number of probes left.
\<close>

fun insert_loop :: "nat \<Rightarrow> Entry list \<Rightarrow> nat \<Rightarrow> OrderId \<Rightarrow> nat \<Rightarrow> nat \<Rightarrow> (bool \<times> Entry list) option"
where
  "insert_loop 0 es m oid node slot = Some (False, es)"
| "insert_loop (Suc probes) es m oid node slot =
     do {
       entry \<leftarrow> vec_at es slot;
       if en_state entry = Occupied \<and> en_id entry = oid then Some (False, es)
       else if en_state entry = Empty then
         do {
           es' \<leftarrow> vec_set es slot \<lparr>en_id = oid, en_node = node, en_state = Occupied\<rparr>;
           Some (True, es')
         }
       else insert_loop probes es m oid node ((slot + 1) AND m)
     }"

definition insert_entries :: "Entry list \<Rightarrow> nat \<Rightarrow> OrderId \<Rightarrow> nat \<Rightarrow> (bool \<times> Entry list) option" where
  "insert_entries es m oid node = insert_loop (length es) es m oid node (unat (hash oid) AND m)"

definition fi_insert :: "FixedOrderIndex \<Rightarrow> OrderId \<Rightarrow> nat \<Rightarrow> (bool \<times> FixedOrderIndex) option" where
  "fi_insert t oid node =
     do {
       (ok, es) \<leftarrow> insert_entries (fi_entries t) (fi_mask t) oid node;
       Some (ok, t\<lparr>fi_entries := es\<rparr>)
     }"

fun find_loop :: "nat \<Rightarrow> Entry list \<Rightarrow> nat \<Rightarrow> OrderId \<Rightarrow> nat \<Rightarrow> nat option option" where
  "find_loop 0 es m oid slot = Some None"
| "find_loop (Suc probes) es m oid slot =
     do {
       entry \<leftarrow> vec_at es slot;
       if en_state entry = Empty then Some None
       else if en_state entry = Occupied \<and> en_id entry = oid then Some (Some (en_node entry))
       else find_loop probes es m oid ((slot + 1) AND m)
     }"

text \<open>
  \<^verbatim>\<open>find\<close> returns a pointer to the stored node index, or \<^verbatim>\<open>nullptr\<close>; every caller
  reads the pointer at once, so the model returns the node index itself.
\<close>

definition fi_find :: "FixedOrderIndex \<Rightarrow> OrderId \<Rightarrow> nat option option" where
  "fi_find t oid =
     find_loop (length (fi_entries t)) (fi_entries t) (fi_mask t) oid (unat (hash oid) AND fi_mask t)"

partial_function (option) close_chain :: "Entry list \<Rightarrow> nat \<Rightarrow> nat \<Rightarrow> Entry list option" where
  [code]: "close_chain es m next =
     do {
       displaced \<leftarrow> vec_at es next;
       if en_state displaced = Occupied then
         do {
           es1 \<leftarrow> vec_set es next default_entry;
           (ok, es2) \<leftarrow> insert_entries es1 m (en_id displaced) (en_node displaced);
           close_chain es2 m ((next + 1) AND m)
         }
       else Some es
     }"

fun erase_loop :: "nat \<Rightarrow> Entry list \<Rightarrow> nat \<Rightarrow> OrderId \<Rightarrow> nat \<Rightarrow> (bool \<times> Entry list) option" where
  "erase_loop 0 es m oid slot = Some (False, es)"
| "erase_loop (Suc probes) es m oid slot =
     do {
       entry \<leftarrow> vec_at es slot;
       if en_state entry = Empty then Some (False, es)
       else if en_state entry = Occupied \<and> en_id entry = oid then
         do {
           es1 \<leftarrow> vec_set es slot default_entry;
           es2 \<leftarrow> close_chain es1 m ((slot + 1) AND m);
           Some (True, es2)
         }
       else erase_loop probes es m oid ((slot + 1) AND m)
     }"

definition fi_erase :: "FixedOrderIndex \<Rightarrow> OrderId \<Rightarrow> (bool \<times> FixedOrderIndex) option" where
  "fi_erase t oid =
     do {
       (ok, es) \<leftarrow> erase_loop (length (fi_entries t)) (fi_entries t) (fi_mask t) oid
                     (unat (hash oid) AND fi_mask t);
       Some (ok, t\<lparr>fi_entries := es\<rparr>)
     }"

subsection \<open>Slots, distances and the invariant\<close>

abbreviation occ :: "Entry list \<Rightarrow> nat \<Rightarrow> bool" where
  "occ es i \<equiv> en_state (es ! i) = Occupied"

lemma State_neq [simp]:
  "s \<noteq> Occupied \<longleftrightarrow> s = Empty"
  "s \<noteq> Empty \<longleftrightarrow> s = Occupied"
  by (cases s; simp)+

definition home :: "nat \<Rightarrow> OrderId \<Rightarrow> nat" where
  "home n oid = unat (hash oid) mod n"

definition dist :: "nat \<Rightarrow> nat \<Rightarrow> nat \<Rightarrow> nat" where
  "dist n a i = (i + n - a) mod n"

text \<open>
  The chain property: between the home slot of a stored identifier and the slot
  that stores it there is no empty slot.
\<close>

definition chained :: "Entry list \<Rightarrow> bool" where
  "chained es \<longleftrightarrow>
     (\<forall>i < length es. occ es i \<longrightarrow>
        (\<forall>d < dist (length es) (home (length es) (en_id (es ! i))) i.
           occ es ((home (length es) (en_id (es ! i)) + d) mod length es)))"

definition ids_distinct :: "Entry list \<Rightarrow> bool" where
  "ids_distinct es \<longleftrightarrow>
     (\<forall>i < length es. \<forall>j < length es.
        occ es i \<longrightarrow> occ es j \<longrightarrow> en_id (es ! i) = en_id (es ! j) \<longrightarrow> i = j)"

definition load :: "Entry list \<Rightarrow> nat" where
  "load es = card {i. i < length es \<and> occ es i}"

definition contents :: "Entry list \<Rightarrow> OrderId \<rightharpoonup> nat" where
  "contents es = map_of (map (\<lambda>e. (en_id e, en_node e)) (filter (\<lambda>e. en_state e = Occupied) es))"

definition fi_invar :: "FixedOrderIndex \<Rightarrow> bool" where
  "fi_invar t \<longleftrightarrow>
     pow2 (length (fi_entries t)) \<and> fi_mask t = length (fi_entries t) - 1 \<and>
     ids_distinct (fi_entries t) \<and> chained (fi_entries t) \<and>
     load (fi_entries t) < length (fi_entries t)"

definition fi_map :: "FixedOrderIndex \<Rightarrow> OrderId \<rightharpoonup> nat" where
  "fi_map t = contents (fi_entries t)"

definition fi_room :: "FixedOrderIndex \<Rightarrow> nat" where
  "fi_room t = length (fi_entries t) - 1"

lemma home_less: "0 < n \<Longrightarrow> home n x < n"
  by (simp add: home_def)

lemma dist_less: "0 < n \<Longrightarrow> dist n a i < n"
  by (simp add: dist_def)

lemma add_dist: "a < n \<Longrightarrow> i < n \<Longrightarrow> (a + dist n a i) mod n = i"
  by (simp add: dist_def mod_add_right_eq)

lemma dist_add: "a < n \<Longrightarrow> d < n \<Longrightarrow> dist n a ((a + d) mod n) = d"
  by (cases "a + d < n") (simp_all add: dist_def mod_if)

lemma slot_less: "pow2 n \<Longrightarrow> a mod n < n"
  by (simp add: pow2_pos)

lemma next_slot: "pow2 n \<Longrightarrow> Suc (a mod n) AND (n - Suc 0) = Suc a mod n"
  by (simp add: pow2_and mod_Suc_eq)

lemma first_slot: "pow2 n \<Longrightarrow> unat (hash x) AND (n - Suc 0) = home n x"
  by (simp add: pow2_and home_def)

lemma contents_Some_iff:
  assumes "ids_distinct es"
  shows "contents es x = Some v \<longleftrightarrow>
    (\<exists>i < length es. occ es i \<and> en_id (es ! i) = x \<and> en_node (es ! i) = v)"
proof -
  have "distinct (map fst (map (\<lambda>e. (en_id e, en_node e)) (filter (\<lambda>e. en_state e = Occupied) es)))"
    using assms
  proof (induction es)
    case Nil
    then show ?case by simp
  next
    case (Cons e es)
    have "ids_distinct es"
      unfolding ids_distinct_def
    proof (intro allI impI)
      fix i j
      assume "i < length es" "j < length es" "occ es i" "occ es j" "en_id (es ! i) = en_id (es ! j)"
      then show "i = j"
        using Cons.prems [unfolded ids_distinct_def, rule_format, of "Suc i" "Suc j"] by simp
    qed
    moreover have "en_state e = Occupied \<Longrightarrow> f \<in> set es \<Longrightarrow> en_state f = Occupied \<Longrightarrow> en_id e \<noteq> en_id f" for f
      using Cons.prems [unfolded ids_distinct_def, rule_format, of 0 "Suc i" for i]
      by (fastforce simp: in_set_conv_nth)
    ultimately show ?case using Cons.IH by auto
  qed
  then show ?thesis
    by (auto simp: contents_def map_of_eq_Some_iff in_set_conv_nth)
qed

lemma contents_None_iff:
  "contents es x = None \<longleftrightarrow> (\<forall>i < length es. occ es i \<longrightarrow> en_id (es ! i) \<noteq> x)"
  by (auto simp: contents_def map_of_eq_None_iff in_set_conv_nth image_iff)

lemma ex_empty_slot:
  assumes "load es < length es"
  obtains E where "E < length es" "\<not> occ es E"
proof -
  have "\<exists>E < length es. \<not> occ es E"
  proof (rule ccontr)
    assume "\<not> (\<exists>E < length es. \<not> occ es E)"
    then have "{i. i < length es \<and> occ es i} = {..<length es}" by blast
    with assms show False by (simp add: load_def)
  qed
  then show thesis using that by blast
qed

subsection \<open>Probing\<close>

text \<open>
  All three loops skip the occupied slots that hold other identifiers.
\<close>

definition skips :: "Entry list \<Rightarrow> OrderId \<Rightarrow> nat \<Rightarrow> nat \<Rightarrow> bool" where
  "skips es x a m \<longleftrightarrow>
     (\<forall>d < m. occ es ((a + d) mod length es) \<and> en_id (es ! ((a + d) mod length es)) \<noteq> x)"

lemma skips_Suc:
  "skips es x a (Suc m) \<longleftrightarrow>
     occ es (a mod length es) \<and> en_id (es ! (a mod length es)) \<noteq> x \<and> skips es x (Suc a) m"
  by (simp add: skips_def All_less_Suc2)

lemma find_loop_skips:
  assumes n: "pow2 (length es)"
  shows "skips es x a m \<Longrightarrow> m \<le> p \<Longrightarrow>
    find_loop p es (length es - 1) x (a mod length es) =
    find_loop (p - m) es (length es - 1) x ((a + m) mod length es)"
proof (induction m arbitrary: a p)
  case (Suc m)
  then obtain q where "p = Suc q" by (cases p) auto
  with Suc.prems Suc.IH [of "Suc a" q] show ?case
    by (simp add: skips_Suc vec_at_Some next_slot [OF n] slot_less [OF n])
qed simp

lemma insert_loop_skips:
  assumes n: "pow2 (length es)"
  shows "skips es x a m \<Longrightarrow> m \<le> p \<Longrightarrow>
    insert_loop p es (length es - 1) x v (a mod length es) =
    insert_loop (p - m) es (length es - 1) x v ((a + m) mod length es)"
proof (induction m arbitrary: a p)
  case (Suc m)
  then obtain q where "p = Suc q" by (cases p) auto
  with Suc.prems Suc.IH [of "Suc a" q] show ?case
    by (simp add: skips_Suc vec_at_Some next_slot [OF n] slot_less [OF n])
qed simp

lemma erase_loop_skips:
  assumes n: "pow2 (length es)"
  shows "skips es x a m \<Longrightarrow> m \<le> p \<Longrightarrow>
    erase_loop p es (length es - 1) x (a mod length es) =
    erase_loop (p - m) es (length es - 1) x ((a + m) mod length es)"
proof (induction m arbitrary: a p)
  case (Suc m)
  then obtain q where "p = Suc q" by (cases p) auto
  with Suc.prems Suc.IH [of "Suc a" q] show ?case
    by (simp add: skips_Suc vec_at_Some next_slot [OF n] slot_less [OF n])
qed simp

lemma find_loop_absent:
  assumes n: "pow2 (length es)"
    and absent: "contents es x = None"
  shows "find_loop p es (length es - 1) x (a mod length es) = Some None"
proof (induction p arbitrary: a)
  case (Suc p)
  from Suc absent show ?case
    by (auto simp: vec_at_Some next_slot [OF n] slot_less [OF n] contents_None_iff)
qed simp

text \<open>A stored identifier is reached from its home slot.\<close>

lemma skips_stored:
  assumes "ids_distinct es" "chained es" "i < length es" "occ es i" "en_id (es ! i) = x"
  shows "skips es x (home (length es) x) (dist (length es) (home (length es) x) i)"
  unfolding skips_def
proof (intro allI impI)
  let ?n = "length es" and ?a = "home (length es) x"
  fix d
  assume d: "d < dist ?n ?a i"
  have n: "0 < ?n" using assms(3) by auto
  have occ: "occ es ((?a + d) mod ?n)"
    using assms d by (auto simp: chained_def)
  have "d < ?n" using d dist_less [OF n, of ?a i] by simp
  then have "(?a + d) mod ?n \<noteq> i"
    using d dist_add [of ?a ?n d] home_less [OF n] by auto
  with occ assms(1,3-5) n have "en_id (es ! ((?a + d) mod ?n)) \<noteq> x"
    by (auto simp: ids_distinct_def)
  with occ show "occ es ((?a + d) mod ?n) \<and> en_id (es ! ((?a + d) mod ?n)) \<noteq> x" ..
qed

text \<open>An absent identifier is inserted at the first empty slot of its probe sequence.\<close>

lemma ex_first_hole:
  assumes "E < length es" "\<not> occ es E" "contents es x = None"
  obtains m where "m < length es" "skips es x (home (length es) x) m"
    "\<not> occ es ((home (length es) x + m) mod length es)"
proof -
  let ?n = "length es" and ?a = "home (length es) x"
  have n: "0 < ?n" using assms(1) by auto
  let ?P = "\<lambda>d. \<not> occ es ((?a + d) mod ?n)"
  have P: "?P (dist ?n ?a E)"
    using add_dist [of ?a ?n E] assms home_less [OF n] by simp
  define m where "m = (LEAST d. ?P d)"
  have "?P m" unfolding m_def using P by (rule LeastI)
  moreover have "m \<le> dist ?n ?a E" unfolding m_def using P by (rule Least_le)
  moreover have "occ es ((?a + d) mod ?n)" if "d < m" for d
    using not_less_Least [of d ?P] that unfolding m_def by auto
  then have "skips es x ?a m"
    using assms(3) n by (auto simp: skips_def contents_None_iff)
  ultimately show thesis using that dist_less [OF n, of ?a E] by (meson le_less_trans)
qed

lemma find_loop_correct:
  assumes n: "pow2 (length es)" and "ids_distinct es" "chained es"
  shows "find_loop (length es) es (length es - 1) x (home (length es) x) = Some (contents es x)"
proof (cases "contents es x")
  case None
  then show ?thesis
    using find_loop_absent [OF n None, of "length es" "home (length es) x"] home_less [OF pow2_pos [OF n]]
    by simp
next
  case (Some v)
  let ?n = "length es" and ?a = "home (length es) x"
  obtain i where i: "i < ?n" "occ es i" "en_id (es ! i) = x" "en_node (es ! i) = v"
    using Some contents_Some_iff [OF assms(2)] by blast
  define m where "m = dist ?n ?a i"
  have a: "?a < ?n" by (rule home_less [OF pow2_pos [OF n]])
  have "m < ?n" unfolding m_def by (rule dist_less [OF pow2_pos [OF n]])
  then obtain q where q: "?n - m = Suc q" by (metis Suc_diff_Suc)
  have "find_loop ?n es (?n - 1) x (?a mod ?n) = find_loop (?n - m) es (?n - 1) x ((?a + m) mod ?n)"
    using skips_stored [OF assms(2,3) i(1-3)] \<open>m < ?n\<close>
    by (intro find_loop_skips [OF n]) (simp_all add: m_def)
  also have "(?a + m) mod ?n = i"
    unfolding m_def using a i(1) by (rule add_dist)
  finally show ?thesis
    using i a Some by (simp add: q vec_at_Some)
qed

subsection \<open>Insertion\<close>

lemma load_update:
  assumes "i < length es" "\<not> occ es i" "en_state e = Occupied"
  shows "load (es[i := e]) = Suc (load es)"
proof -
  have "{j. j < length (es[i := e]) \<and> occ (es[i := e]) j} = insert i {j. j < length es \<and> occ es j}"
    using assms by (auto simp: nth_upd)
  moreover have "i \<notin> {j. j < length es \<and> occ es j}" using assms by simp
  ultimately show ?thesis by (simp add: load_def)
qed

lemma ids_distinct_update:
  assumes "ids_distinct es" "contents es (en_id e) = None"
  shows "ids_distinct (es[i := e])"
  using assms by (auto simp: ids_distinct_def contents_None_iff nth_upd)

lemma contents_update:
  assumes "ids_distinct es" "i < length es" "\<not> occ es i" "contents es (en_id e) = None"
    and "en_state e = Occupied"
  shows "contents (es[i := e]) = (contents es)(en_id e \<mapsto> en_node e)"
proof
  fix y
  have d: "ids_distinct (es[i := e])" using assms(1,4) by (rule ids_distinct_update)
  show "contents (es[i := e]) y = ((contents es)(en_id e \<mapsto> en_node e)) y"
  proof (cases "y = en_id e")
    case True
    have "contents (es[i := e]) (en_id e) = Some (en_node e)"
      unfolding contents_Some_iff [OF d] using assms by (intro exI [of _ i]) simp
    with True show ?thesis by simp
  next
    case False
    then have same: "occ (es[i := e]) j \<and> en_id (es[i := e] ! j) = y \<longleftrightarrow> occ es j \<and> en_id (es ! j) = y" for j
      using assms by (cases "j = i") (simp_all add: nth_upd)
    have "occ (es[i := e]) j \<Longrightarrow> en_id (es[i := e] ! j) = y \<Longrightarrow> es[i := e] ! j = es ! j" for j
      using False by (cases "j = i") (simp_all add: nth_upd split: if_splits)
    with same have "contents (es[i := e]) y = Some v \<longleftrightarrow> contents es y = Some v" for v
      unfolding contents_Some_iff [OF d] contents_Some_iff [OF assms(1)] by (metis length_list_update)
    then have "contents (es[i := e]) y = contents es y" by (rule option_eqI)
    with False show ?thesis by simp
  qed
qed

lemma chained_update:
  assumes "chained es" "m < length es" "en_state e = Occupied"
    and "skips es (en_id e) (home (length es) (en_id e)) m"
  shows "chained (es[(home (length es) (en_id e) + m) mod length es := e])"
  unfolding chained_def
proof (intro allI impI)
  let ?n = "length es" and ?h = "home (length es) (en_id e)"
  let ?i = "(?h + m) mod ?n"
  let ?es = "es[?i := e]"
  fix j d
  assume j: "j < length ?es" "occ ?es j"
    and d: "d < dist (length ?es) (home (length ?es) (en_id (?es ! j))) j"
  have n: "0 < ?n" using assms(2) by auto
  have mono: "occ es l \<Longrightarrow> occ ?es l" for l
    using assms(3) by (simp add: nth_upd)
  show "occ ?es ((home (length ?es) (en_id (?es ! j)) + d) mod length ?es)"
  proof (cases "j = ?i")
    case True
    then have "d < m"
      using d j assms(2) dist_add [OF home_less [OF n] assms(2)] by simp
    then have "occ es ((?h + d) mod ?n)" using assms(4) by (simp add: skips_def)
    with True j show ?thesis by (simp add: mono)
  next
    case False
    with j d assms(1) have "occ es ((home ?n (en_id (es ! j)) + d) mod ?n)"
      by (simp add: chained_def)
    with False show ?thesis by (simp add: mono)
  qed
qed

lemma insert_entries_at:
  assumes n: "pow2 (length es)"
    and "E < length es" "\<not> occ es E" "contents es x = None"
  obtains m where "m < length es" "skips es x (home (length es) x) m"
    "\<not> occ es ((home (length es) x + m) mod length es)"
    "insert_entries es (length es - 1) x v =
       Some (True, es[(home (length es) x + m) mod length es := \<lparr>en_id = x, en_node = v, en_state = Occupied\<rparr>])"
proof -
  let ?n = "length es" and ?a = "home (length es) x"
  obtain m where m: "m < ?n" "skips es x ?a m" "\<not> occ es ((?a + m) mod ?n)"
    using ex_first_hole [OF assms(2-4)] .
  have a: "?a < ?n" by (rule home_less [OF pow2_pos [OF n]])
  obtain q where q: "?n - m = Suc q" using m(1) by (metis Suc_diff_Suc)
  have "insert_loop ?n es (?n - 1) x v (?a mod ?n) =
        insert_loop (?n - m) es (?n - 1) x v ((?a + m) mod ?n)"
    using m by (intro insert_loop_skips [OF n]) simp_all
  then have "insert_entries es (?n - 1) x v = insert_loop (Suc q) es (?n - 1) x v ((?a + m) mod ?n)"
    using a by (simp add: insert_entries_def first_slot [OF n] q)
  then show thesis
    using that [OF m] m(3) slot_less [OF n] by (simp add: vec_at_Some vec_set_Some)
qed

subsection \<open>Deletion\<close>

lemma load_remove:
  assumes "i < length es" "occ es i"
  shows "Suc (load (es[i := default_entry])) = load es"
proof -
  have "{j. j < length es \<and> occ es j} =
        insert i {j. j < length (es[i := default_entry]) \<and> occ (es[i := default_entry]) j}"
    using assms by (auto simp: nth_upd default_entry_def)
  moreover have "i \<notin> {j. j < length (es[i := default_entry]) \<and> occ (es[i := default_entry]) j}"
    using assms by (simp add: default_entry_def)
  ultimately show ?thesis by (simp add: load_def)
qed

lemma ids_distinct_remove: "ids_distinct es \<Longrightarrow> ids_distinct (es[i := default_entry])"
  by (auto simp: ids_distinct_def nth_upd default_entry_def)

lemma contents_remove:
  assumes "ids_distinct es" "i < length es" "occ es i"
  shows "contents (es[i := default_entry]) = (contents es)(en_id (es ! i) := None)"
proof
  fix y
  have d: "ids_distinct (es[i := default_entry])" using assms(1) by (rule ids_distinct_remove)
  show "contents (es[i := default_entry]) y = ((contents es)(en_id (es ! i) := None)) y"
  proof (cases "y = en_id (es ! i)")
    case True
    have "en_id (es[i := default_entry] ! j) \<noteq> y"
      if "j < length (es[i := default_entry])" "occ (es[i := default_entry]) j" for j
    proof -
      have "j \<noteq> i" using that assms(2) by (auto simp: default_entry_def)
      with that have "j < length es" "occ es j" "es[i := default_entry] ! j = es ! j"
        by (simp_all add: nth_upd)
      with assms True \<open>j \<noteq> i\<close> show ?thesis unfolding ids_distinct_def by metis
    qed
    then have "contents (es[i := default_entry]) y = None"
      by (simp add: contents_None_iff)
    with True show ?thesis by simp
  next
    case False
    have same: "occ (es[i := default_entry]) j \<and> en_id (es[i := default_entry] ! j) = y \<longleftrightarrow>
          occ es j \<and> en_id (es ! j) = y" for j
      using assms False by (cases "j = i") (auto simp: nth_upd default_entry_def)
    have "occ (es[i := default_entry]) j \<Longrightarrow> es[i := default_entry] ! j = es ! j" for j
      by (cases "j = i") (simp_all add: nth_upd default_entry_def split: if_splits)
    with same have "contents (es[i := default_entry]) y = Some v \<longleftrightarrow> contents es y = Some v" for v
      unfolding contents_Some_iff [OF d] contents_Some_iff [OF assms(1)] by (metis length_list_update)
    then have "contents (es[i := default_entry]) y = contents es y" by (rule option_eqI)
    with False show ?thesis by simp
  qed
qed

text \<open>
  Deletion is analysed in coordinates whose origin is an empty slot \<open>E\<close>.  No chain
  crosses \<open>E\<close>, so the table is a linear array there: the slot at position \<open>j\<close> is
  \<open>(E + j) mod n\<close>, and an identifier never sits before its home position.
\<close>

abbreviation at_pos :: "Entry list \<Rightarrow> nat \<Rightarrow> nat \<Rightarrow> nat" where
  "at_pos es E j \<equiv> (E + j) mod length es"

definition home_pos :: "Entry list \<Rightarrow> nat \<Rightarrow> OrderId \<Rightarrow> nat" where
  "home_pos es E x = dist (length es) E (home (length es) x)"

text \<open>
  The loop invariant of \<^const>\<open>close_chain\<close> at position \<open>k\<close>: the entries before
  \<open>k\<close> have their chains closed, the ones from \<open>k\<close> on form the rest of the cluster.
\<close>

definition lin_inv :: "Entry list \<Rightarrow> nat \<Rightarrow> nat \<Rightarrow> bool" where
  "lin_inv es E k \<longleftrightarrow>
     \<not> occ es E \<and>
     (\<forall>j. k \<le> j \<longrightarrow> j < length es \<longrightarrow> occ es (at_pos es E j)) \<and>
     (\<forall>j < length es. occ es (at_pos es E j) \<longrightarrow>
        0 < home_pos es E (en_id (es ! at_pos es E j)) \<and>
        home_pos es E (en_id (es ! at_pos es E j)) \<le> j \<and>
        (j < k \<longrightarrow> (\<forall>l. home_pos es E (en_id (es ! at_pos es E j)) \<le> l \<longrightarrow> l < j \<longrightarrow> occ es (at_pos es E l))))"

lemma at_pos_inj:
  "E < length es \<Longrightarrow> j < length es \<Longrightarrow> l < length es \<Longrightarrow> at_pos es E j = at_pos es E l \<longleftrightarrow> j = l"
  by (metis dist_add)

lemma at_pos_home:
  assumes "E < length es"
  shows "at_pos es E (home_pos es E x + d) = (home (length es) x + d) mod length es"
proof -
  have "at_pos es E (home_pos es E x) = home (length es) x"
    unfolding home_pos_def using assms by (intro add_dist) (auto intro: home_less)
  then show ?thesis by (metis add.assoc mod_add_left_eq)
qed

lemma home_pos_less: "E < length es \<Longrightarrow> home_pos es E x < length es"
  unfolding home_pos_def by (intro dist_less) auto

lemma home_pos_cong: "length es = length es' \<Longrightarrow> home_pos es E x = home_pos es' E x"
  by (simp add: home_pos_def)

lemma dist_home:
  assumes "E < length es" "j < length es"
  shows "dist (length es) (home (length es) x) (at_pos es E j) =
    (if home_pos es E x \<le> j then j - home_pos es E x else j + length es - home_pos es E x)"
    (is "_ = ?d")
proof -
  let ?n = "length es" and ?h = "home_pos es E x"
  have h: "?h < ?n" using assms(1) by (rule home_pos_less)
  then have d: "?d < ?n" using assms(2) by auto
  have "at_pos es E (?h + ?d) = at_pos es E j"
    using h by (auto simp: add.assoc [symmetric])
  then have "(home ?n x + ?d) mod ?n = at_pos es E j"
    using at_pos_home [OF assms(1), of x ?d] by simp
  moreover have "home ?n x < ?n" using assms by (auto intro: home_less)
  ultimately show ?thesis using d dist_add [of "home ?n x" ?n ?d] by metis
qed

lemma chained_lin:
  assumes "chained es" "E < length es" "\<not> occ es E" "j < length es" "occ es (at_pos es E j)"
  defines "h \<equiv> home_pos es E (en_id (es ! at_pos es E j))"
  shows "0 < h" "h \<le> j" "h \<le> l \<Longrightarrow> l < j \<Longrightarrow> occ es (at_pos es E l)"
proof -
  let ?n = "length es" and ?x = "en_id (es ! at_pos es E j)"
  have n: "0 < ?n" using assms(2) by auto
  have chain: "occ es (at_pos es E (h + d))" if "d < dist ?n (home ?n ?x) (at_pos es E j)" for d
    using assms(1,5) that n at_pos_home [OF assms(2), of ?x d]
    by (simp add: chained_def h_def)
  note dist = dist_home [OF assms(2,4), of ?x, folded h_def]
  have j: "0 < j" using assms(2,3,5) by (cases j) auto
  have h: "h < ?n" unfolding h_def using assms(2) by (rule home_pos_less)
  show hj: "h \<le> j"
  proof (rule ccontr)
    assume c: "\<not> h \<le> j"
    then have "occ es (at_pos es E (h + (?n - h)))"
      using h j by (intro chain) (simp add: dist)
    with h assms(2,3) show False by simp
  qed
  show "0 < h"
  proof (rule ccontr)
    assume "\<not> 0 < h"
    with chain [of 0] j dist assms(2,3) show False by simp
  qed
  show "occ es (at_pos es E l)" if "h \<le> l" "l < j"
    using chain [of "l - h"] that hj by (simp add: dist)
qed

lemma lin_chained:
  assumes "lin_inv es E (length es)" "E < length es"
  shows "chained es"
  unfolding chained_def
proof (intro allI impI)
  let ?n = "length es"
  fix i d
  assume i: "i < ?n" "occ es i" and d: "d < dist ?n (home ?n (en_id (es ! i))) i"
  let ?x = "en_id (es ! i)"
  define j where "j = dist ?n E i"
  have j: "j < ?n" "at_pos es E j = i"
    unfolding j_def using i(1) assms(2) by (auto intro: dist_less add_dist)
  let ?h = "home_pos es E ?x"
  have h: "?h \<le> j" "\<And>l. ?h \<le> l \<Longrightarrow> l < j \<Longrightarrow> occ es (at_pos es E l)"
    using assms(1) j i(2) by (auto simp: lin_inv_def)
  have "d < j - ?h" using d h(1) dist_home [OF assms(2) j(1), of ?x] j(2) by simp
  then have "occ es (at_pos es E (?h + d))" by (intro h(2)) auto
  then show "occ es ((home ?n ?x + d) mod ?n)" using at_pos_home [OF assms(2)] by simp
qed

lemma at_pos_less: "E < length es \<Longrightarrow> at_pos es E j < length es"
  by (intro mod_less_divisor) auto

lemma lin_inv_hole: "lin_inv es E k \<Longrightarrow> \<not> occ es E"
  unfolding lin_inv_def by blast

lemma lin_inv_cluster:
  "lin_inv es E k \<Longrightarrow> k \<le> j \<Longrightarrow> j < length es \<Longrightarrow> occ es (at_pos es E j)"
  unfolding lin_inv_def by blast

lemma lin_inv_home:
  assumes "lin_inv es E k" "j < length es" "occ es (at_pos es E j)"
  shows "0 < home_pos es E (en_id (es ! at_pos es E j))"
    "home_pos es E (en_id (es ! at_pos es E j)) \<le> j"
  using assms unfolding lin_inv_def by blast+

lemma lin_inv_chain:
  "lin_inv es E k \<Longrightarrow> j < length es \<Longrightarrow> occ es (at_pos es E j) \<Longrightarrow> j < k \<Longrightarrow>
    home_pos es E (en_id (es ! at_pos es E j)) \<le> l \<Longrightarrow> l < j \<Longrightarrow> occ es (at_pos es E l)"
  unfolding lin_inv_def by blast

text \<open>One round of the loop: take the entry at \<open>k\<close> out and put it back.\<close>

lemma reinsert_hole:
  assumes n: "pow2 (length es)" and E: "E < length es" and inv: "lin_inv es E k"
    and ids: "ids_distinct es" and k: "0 < k" "k < length es"
  defines "x \<equiv> en_id (es ! at_pos es E k)" and "v \<equiv> en_node (es ! at_pos es E k)"
  defines "es1 \<equiv> es[at_pos es E k := default_entry]"
  obtains p where "home_pos es E x \<le> p" "p \<le> k" "\<not> occ es1 (at_pos es E p)"
    "\<And>l. home_pos es E x \<le> l \<Longrightarrow> l < p \<Longrightarrow> occ es1 (at_pos es E l)"
    "insert_entries es1 (length es - 1) x v =
       Some (True, es1[at_pos es E p := \<lparr>en_id = x, en_node = v, en_state = Occupied\<rparr>])"
proof -
  let ?c = "at_pos es E k" and ?h = "home_pos es E x"
  have c: "?c < length es" "occ es ?c"
    using lin_inv_cluster [OF inv order_refl k(2)] slot_less [OF n] by auto
  have h: "0 < ?h" "?h \<le> k" unfolding x_def using lin_inv_home [OF inv k(2) c(2)] by simp_all
  have len: "length es1 = length es" by (simp add: es1_def)
  have "E \<noteq> ?c" using at_pos_inj [OF E _ k(2), of 0] k E by fastforce
  then have E1: "\<not> occ es1 E" using lin_inv_hole [OF inv] by (simp add: es1_def nth_upd)
  have none: "contents es1 x = None"
    unfolding es1_def x_def using contents_remove [OF ids c] by simp
  obtain m where m: "m < length es1" "skips es1 x (home (length es1) x) m"
    "\<not> occ es1 ((home (length es1) x + m) mod length es1)"
    "insert_entries es1 (length es1 - 1) x v =
       Some (True, es1[(home (length es1) x + m) mod length es1 := \<lparr>en_id = x, en_node = v, en_state = Occupied\<rparr>])"
    using insert_entries_at [of es1 E x v] n E E1 none len by metis
  have pos: "(home (length es1) x + d) mod length es1 = at_pos es E (?h + d)" for d
    using at_pos_home [OF E, of x d] len by simp
  have "\<not> k - ?h < m"
  proof
    assume "k - ?h < m"
    then have "occ es1 (at_pos es E (?h + (k - ?h)))" using m(2) pos by (simp add: skips_def)
    with h c show False by (simp add: es1_def default_entry_def)
  qed
  moreover have "occ es1 (at_pos es E l)" if "?h \<le> l" "l < ?h + m" for l
  proof -
    have "l - ?h < m" using that by simp
    then have "occ es1 ((home (length es1) x + (l - ?h)) mod length es1)"
      using m(2) unfolding skips_def by blast
    with that show ?thesis unfolding pos by simp
  qed
  ultimately show thesis
    using that [of "?h + m"] m(3,4) pos [of m] h len by simp
qed

lemma lin_inv_step:
  assumes E: "E < length es" and inv: "lin_inv es E k" and k: "0 < k" "k < length es"
    and p: "home_pos es E (en_id e) \<le> p" "p \<le> k" "en_state e = Occupied"
    and id: "en_id e = en_id (es ! at_pos es E k)"
    and between: "\<And>l. home_pos es E (en_id e) \<le> l \<Longrightarrow> l < p \<Longrightarrow>
      occ (es[at_pos es E k := default_entry]) (at_pos es E l)"
  shows "lin_inv (es[at_pos es E k := default_entry, at_pos es E p := e]) E (Suc k)"
proof -
  let ?n = "length es" and ?es2 = "es[at_pos es E k := default_entry, at_pos es E p := e]"
  have n: "0 < ?n" using E by auto
  have len: "length ?es2 = ?n" by simp
  have hp: "0 < home_pos es E (en_id e)" unfolding id using lin_inv_cluster [OF inv order_refl k(2)] by (rule lin_inv_home [OF inv k(2)])
  have at: "?es2 ! at_pos es E j =
      (if j = p then e else if j = k then default_entry else es ! at_pos es E j)" if "j < ?n" for j
    using that k p n E by (auto simp: nth_upd at_pos_inj)
  have occ2: "occ ?es2 (at_pos es E j)" if "j < ?n" "j \<noteq> k" "occ es (at_pos es E j)" for j
    using at [OF that(1)] that p(3) by auto
  have zero: "at_pos es E 0 = E" using E by simp
  have "\<not> occ ?es2 E"
    using at [of 0] zero n hp p(1) k lin_inv_hole [OF inv] by simp
  moreover have "occ ?es2 (at_pos es E j)" if "Suc k \<le> j" "j < ?n" for j
    using that by (intro occ2 lin_inv_cluster [OF inv]) auto
  moreover have "0 < home_pos es E (en_id (?es2 ! at_pos es E j)) \<and>
      home_pos es E (en_id (?es2 ! at_pos es E j)) \<le> j \<and>
      (j < Suc k \<longrightarrow> (\<forall>l. home_pos es E (en_id (?es2 ! at_pos es E j)) \<le> l \<longrightarrow> l < j \<longrightarrow>
         occ ?es2 (at_pos es E l)))"
    if j: "j < ?n" "occ ?es2 (at_pos es E j)" for j
  proof (cases "j = p")
    case True
    have "occ ?es2 (at_pos es E l)" if "home_pos es E (en_id e) \<le> l" "l < p" for l
      using between [OF that] that p(2) k E n at [of l] by (auto simp: nth_upd at_pos_inj)
    with True hp p(1) at [OF j(1)] show ?thesis by auto
  next
    case False
    with j at [OF j(1)] have jk: "j \<noteq> k" and same: "?es2 ! at_pos es E j = es ! at_pos es E j"
      by (auto simp: default_entry_def split: if_splits)
    with j(2) have "occ es (at_pos es E j)" by simp
    note j_home = lin_inv_home [OF inv j(1) this] and j_chain = lin_inv_chain [OF inv j(1) this]
    then have h: "0 < home_pos es E (en_id (es ! at_pos es E j))"
      "home_pos es E (en_id (es ! at_pos es E j)) \<le> j"
      "\<And>l. j < k \<Longrightarrow> home_pos es E (en_id (es ! at_pos es E j)) \<le> l \<Longrightarrow> l < j \<Longrightarrow> occ es (at_pos es E l)"
      by blast+
    have "occ ?es2 (at_pos es E l)"
      if "j < Suc k" "home_pos es E (en_id (es ! at_pos es E j)) \<le> l" "l < j" for l
      using that jk j(1) h(3) by (intro occ2) auto
    with h(1,2) same show ?thesis by auto
  qed
  ultimately show ?thesis
    by (simp add: lin_inv_def home_pos_cong [OF len])
qed

lemma close_chain_correct:
  assumes "pow2 (length es)" "E < length es" "lin_inv es E k" "ids_distinct es"
    and "0 < k" "k \<le> length es"
  shows "\<exists>es'. close_chain es (length es - 1) (at_pos es E k) = Some es' \<and>
    length es' = length es \<and> ids_distinct es' \<and> chained es' \<and>
    contents es' = contents es \<and> load es' = load es"
  using assms
proof (induction "length es - k" arbitrary: es k)
  case 0
  then have k: "k = length es" by simp
  with 0 have "\<not> occ es (at_pos es E k)" "at_pos es E k < length es" "chained es"
    using lin_inv_hole [OF 0(4)] lin_chained [of es E] by auto
  with 0 show ?case
    by (subst close_chain.simps) (simp add: vec_at_Some)
next
  case (Suc r)
  let ?n = "length es" and ?c = "at_pos es E k"
  define x v where "x = en_id (es ! ?c)" and "v = en_node (es ! ?c)"
  define e where "e = \<lparr>en_id = x, en_node = v, en_state = Occupied\<rparr>"
  define es1 where "es1 = es[?c := default_entry]"
  have k: "k < ?n" using Suc.hyps(2) by simp
  have c: "?c < ?n" "occ es ?c"
    using lin_inv_cluster [OF Suc.prems(3) order_refl k] slot_less [OF Suc.prems(1)] by auto
  obtain p where p: "home_pos es E x \<le> p" "p \<le> k" "\<not> occ es1 (at_pos es E p)"
    "\<And>l. home_pos es E x \<le> l \<Longrightarrow> l < p \<Longrightarrow> occ es1 (at_pos es E l)"
    "insert_entries es1 (?n - 1) x v = Some (True, es1[at_pos es E p := e])"
    using reinsert_hole [OF Suc.prems(1-4) Suc.prems(5) k]
    unfolding x_def v_def es1_def e_def by metis
  let ?es2 = "es1[at_pos es E p := e]"
  have len: "length ?es2 = ?n" by (simp add: es1_def)
  have ids1: "ids_distinct es1" and cont1: "contents es1 = (contents es)(x := None)"
    and load1: "Suc (load es1) = load es"
    unfolding es1_def x_def
    using Suc.prems(4) c by (auto intro: ids_distinct_remove contents_remove load_remove)
  have p_less: "at_pos es E p < length es1" using at_pos_less [OF Suc.prems(2)] by (simp add: es1_def)
  have "contents es x = Some v"
    using c by (auto simp: contents_Some_iff [OF Suc.prems(4)] x_def v_def)
  then have cont2: "contents ?es2 = contents es"
    using contents_update [OF ids1 p_less p(3), of e] cont1 by (auto simp: e_def)
  have load2: "load ?es2 = load es"
    using load_update [OF p_less p(3), of e] load1 by (simp add: e_def)
  have ids2: "ids_distinct ?es2"
    using ids1 cont1 by (intro ids_distinct_update) (simp_all add: e_def)
  have inv2: "lin_inv ?es2 E (Suc k)"
    using lin_inv_step [OF Suc.prems(2,3,5) k, of e p] p c
    by (simp add: e_def x_def es1_def)
  have "\<exists>es'. close_chain ?es2 (length ?es2 - 1) (at_pos ?es2 E (Suc k)) = Some es' \<and>
    length es' = length ?es2 \<and> ids_distinct es' \<and> chained es' \<and>
    contents es' = contents ?es2 \<and> load es' = load ?es2"
    using Suc.hyps Suc.prems k len ids2 inv2 by (intro Suc.hyps(1)) auto
  moreover have "(?c + 1) AND (?n - 1) = at_pos es E (Suc k)"
    using next_slot [OF Suc.prems(1), of "E + k"] by simp
  then have "close_chain es (?n - 1) ?c = close_chain ?es2 (?n - 1) (at_pos es E (Suc k))"
    using c p(5) by (subst close_chain.simps) (simp add: vec_at_Some vec_set_Some x_def v_def es1_def)
  ultimately show ?case using len cont2 load2 by simp
qed

text \<open>The first empty slot after \<open>s\<close>, seen from which \<open>s\<close> is at position \<open>n - L\<close>.\<close>

lemma ex_cluster_end:
  assumes "load es < length es" "s < length es" "occ es s"
  obtains L where "0 < L" "L < length es" "\<not> occ es ((s + L) mod length es)"
    "\<And>d. d < L \<Longrightarrow> occ es ((s + d) mod length es)"
proof -
  let ?n = "length es" and ?P = "\<lambda>d. \<not> occ es ((s + d) mod length es)"
  obtain E where E: "E < ?n" "\<not> occ es E" using ex_empty_slot [OF assms(1)] .
  have P: "?P (dist ?n s E)" using add_dist [OF assms(2) E(1)] E(2) by simp
  define L where "L = (LEAST d. ?P d)"
  have L: "?P L" unfolding L_def using P by (rule LeastI)
  have below: "occ es ((s + d) mod ?n)" if "d < L" for d
    using not_less_Least [of d ?P] that unfolding L_def by blast
  have "L \<le> dist ?n s E" unfolding L_def using P by (rule Least_le)
  moreover have "dist ?n s E < ?n" using assms(2) by (intro dist_less) auto
  ultimately have "L < ?n" by simp
  moreover have "0 < L" using L assms(2,3) by (cases L) auto
  ultimately show thesis using that L below by blast
qed

lemma lin_inv_start:
  assumes ch: "chained es" and s: "s < length es" "occ es s" and L: "0 < L" "L < length es"
    and hole: "\<not> occ es ((s + L) mod length es)"
    and cluster: "\<And>d. d < L \<Longrightarrow> occ es ((s + d) mod length es)"
  defines "E \<equiv> (s + L) mod length es" and "es1 \<equiv> es[s := default_entry]"
  shows "lin_inv es1 E (Suc (length es - L))" and "E < length es1"
    and "at_pos es1 E (Suc (length es - L)) = Suc s mod length es"
proof -
  let ?n = "length es"
  have E: "E < ?n" "\<not> occ es E" using at_pos_less [OF s(1)] hole by (auto simp: E_def)
  have len: "length es1 = ?n" by (simp add: es1_def)
  have pos: "at_pos es E (?n - L + d) = (s + d) mod ?n" for d
  proof -
    have "at_pos es E (?n - L + d) = (s + L + (?n - L + d)) mod ?n"
      by (simp add: E_def mod_add_left_eq)
    also have "s + L + (?n - L + d) = s + d + ?n" using L by simp
    finally show ?thesis by simp
  qed
  have s_pos: "at_pos es E (?n - L) = s" using pos [of 0] s(1) by simp
  have at: "es1 ! at_pos es E j = (if j = ?n - L then default_entry else es ! at_pos es E j)"
    if "j < ?n" for j
  proof -
    have "?n - L < ?n" using L by simp
    then have "at_pos es E j = s \<longleftrightarrow> j = ?n - L" using at_pos_inj [OF E(1) that] s_pos by metis
    then show ?thesis using s(1) by (auto simp: es1_def nth_upd)
  qed
  have occ1: "occ es1 (at_pos es E j) \<longleftrightarrow> j \<noteq> ?n - L \<and> occ es (at_pos es E j)" if "j < ?n" for j
    using at [OF that] by (auto simp: default_entry_def)
  have n: "0 < ?n" using E(1) by auto
  have "\<not> occ es1 E" using occ1 [OF n] E by simp
  moreover have "occ es1 (at_pos es E j)" if "Suc (?n - L) \<le> j" "j < ?n" for j
    using occ1 [OF that(2)] that cluster [of "j - (?n - L)"] pos [of "j - (?n - L)"] L by auto
  moreover have "0 < home_pos es E (en_id (es1 ! at_pos es E j)) \<and>
      home_pos es E (en_id (es1 ! at_pos es E j)) \<le> j \<and>
      (j < Suc (?n - L) \<longrightarrow> (\<forall>l. home_pos es E (en_id (es1 ! at_pos es E j)) \<le> l \<longrightarrow> l < j \<longrightarrow>
         occ es1 (at_pos es E l)))" if "j < ?n" "occ es1 (at_pos es E j)" for j
  proof -
    have j: "j \<noteq> ?n - L" "occ es (at_pos es E j)" using occ1 that by auto
    note lin = chained_lin [OF ch E that(1) j(2)]
    have "occ es1 (at_pos es E l)"
      if "j < Suc (?n - L)" "home_pos es E (en_id (es ! at_pos es E j)) \<le> l" "l < j" for l
      using that j(1) \<open>j < ?n\<close> lin(3) occ1 [of l] by simp
    with lin(1,2) at [OF \<open>j < ?n\<close>] j(1) show ?thesis by auto
  qed
  ultimately show "lin_inv es1 E (Suc (?n - L))"
    by (simp add: lin_inv_def home_pos_cong [OF len] len)
  show "E < length es1" using E len by simp
  show "at_pos es1 E (Suc (?n - L)) = Suc s mod ?n" using pos [of 1] by (simp add: len)
qed

lemma erase_loop_correct:
  assumes n: "pow2 (length es)" and ids: "ids_distinct es" and ch: "chained es"
    and load: "load es < length es" and x: "contents es x = Some v"
  shows "\<exists>es'. erase_loop (length es) es (length es - 1) x (home (length es) x) = Some (True, es') \<and>
    length es' = length es \<and> ids_distinct es' \<and> chained es' \<and>
    contents es' = (contents es)(x := None) \<and> Suc (load es') = load es"
proof -
  let ?n = "length es" and ?a = "home (length es) x"
  obtain s where s: "s < ?n" "occ es s" "en_id (es ! s) = x"
    using x contents_Some_iff [OF ids] by blast
  let ?es1 = "es[s := default_entry]"
  obtain L where L: "0 < L" "L < ?n" "\<not> occ es ((s + L) mod ?n)"
    "\<And>d. d < L \<Longrightarrow> occ es ((s + d) mod ?n)"
    using ex_cluster_end [OF load s(1,2)] by blast
  let ?E = "(s + L) mod ?n"
  have start: "lin_inv ?es1 ?E (Suc (?n - L))" "?E < length ?es1"
    "at_pos ?es1 ?E (Suc (?n - L)) = Suc s mod ?n"
    using lin_inv_start [OF ch s(1,2) L(1-3)] L(4) by blast+
  have "Suc (?n - L) \<le> length ?es1" using L(1,2) by simp
  moreover have "pow2 (length ?es1)" using n by simp
  ultimately have "\<exists>es'. close_chain ?es1 (?n - 1) (Suc s mod ?n) = Some es' \<and> length es' = ?n \<and>
    ids_distinct es' \<and> chained es' \<and> contents es' = contents ?es1 \<and> load es' = load ?es1"
    using close_chain_correct [OF _ start(2,1) ids_distinct_remove [OF ids] zero_less_Suc, unfolded start(3)]
    by simp
  then obtain es' where es': "close_chain ?es1 (?n - 1) (Suc s mod ?n) = Some es'" "length es' = ?n"
    "ids_distinct es'" "chained es'" "contents es' = contents ?es1" "load es' = load ?es1"
    by blast
  define m where "m = dist ?n ?a s"
  have a: "?a < ?n" by (rule home_less [OF pow2_pos [OF n]])
  have m: "m < ?n" unfolding m_def by (rule dist_less [OF pow2_pos [OF n]])
  then obtain q where q: "?n - m = Suc q" by (metis Suc_diff_Suc)
  have "erase_loop ?n es (?n - 1) x (?a mod ?n) = erase_loop (?n - m) es (?n - 1) x ((?a + m) mod ?n)"
    using skips_stored [OF ids ch s] m by (intro erase_loop_skips [OF n]) (simp_all add: m_def)
  moreover have "(?a + m) mod ?n = s" unfolding m_def using a s(1) by (rule add_dist)
  moreover have "(s + 1) AND (?n - 1) = Suc s mod ?n" using next_slot [OF n, of s] s(1) by simp
  ultimately have "erase_loop ?n es (?n - 1) x ?a = Some (True, es')"
    using s a es'(1) by (simp add: q vec_at_Some vec_set_Some)
  then show ?thesis
    using es' contents_remove [OF ids s(1,2)] load_remove [OF s(1,2)] s(3) by simp
qed

lemma erase_loop_absent:
  assumes n: "pow2 (length es)" and absent: "contents es x = None"
  shows "erase_loop p es (length es - 1) x (a mod length es) = Some (False, es)"
proof (induction p arbitrary: a)
  case (Suc p)
  from Suc absent show ?case
    by (auto simp: vec_at_Some next_slot [OF n] slot_less [OF n] contents_None_iff)
qed simp

lemma insert_loop_present:
  assumes n: "pow2 (length es)" and ids: "ids_distinct es" and ch: "chained es"
    and x: "contents es x = Some w"
  shows "insert_entries es (length es - 1) x v = Some (False, es)"
proof -
  let ?n = "length es" and ?a = "home (length es) x"
  obtain s where s: "s < ?n" "occ es s" "en_id (es ! s) = x"
    using x contents_Some_iff [OF ids] by blast
  define m where "m = dist ?n ?a s"
  have a: "?a < ?n" by (rule home_less [OF pow2_pos [OF n]])
  have m: "m < ?n" unfolding m_def by (rule dist_less [OF pow2_pos [OF n]])
  then obtain q where q: "?n - m = Suc q" by (metis Suc_diff_Suc)
  have "insert_loop ?n es (?n - 1) x v (?a mod ?n) = insert_loop (?n - m) es (?n - 1) x v ((?a + m) mod ?n)"
    using skips_stored [OF ids ch s] m by (intro insert_loop_skips [OF n]) (simp_all add: m_def)
  moreover have "(?a + m) mod ?n = s" unfolding m_def using a s(1) by (rule add_dist)
  ultimately show ?thesis
    using s a by (simp add: insert_entries_def first_slot [OF n] q vec_at_Some)
qed

lemma card_dom_contents: "ids_distinct es \<Longrightarrow> card (dom (contents es)) = load es"
proof -
  assume ids: "ids_distinct es"
  have "dom (contents es) = (\<lambda>i. en_id (es ! i)) ` {i. i < length es \<and> occ es i}"
    using contents_Some_iff [OF ids] by (auto simp: dom_def image_iff)
  moreover have "inj_on (\<lambda>i. en_id (es ! i)) {i. i < length es \<and> occ es i}"
    using ids by (auto simp: inj_on_def ids_distinct_def)
  ultimately show ?thesis by (simp add: card_image load_def)
qed

subsection \<open>The index as a finite map\<close>

text \<open>
  The contract the order book relies on: a partial map with a bounded number of
  keys, whose operations always return.
\<close>

locale id_index =
  fixes invar :: "'t \<Rightarrow> bool"
    and dict :: "'t \<Rightarrow> 'k \<rightharpoonup> 'v"
    and room :: "'t \<Rightarrow> nat"
    and find_op :: "'t \<Rightarrow> 'k \<Rightarrow> 'v option option"
    and insert_op :: "'t \<Rightarrow> 'k \<Rightarrow> 'v \<Rightarrow> (bool \<times> 't) option"
    and erase_op :: "'t \<Rightarrow> 'k \<Rightarrow> (bool \<times> 't) option"
  assumes find_dict: "invar t \<Longrightarrow> find_op t k = Some (dict t k)"
    and insert_new: "invar t \<Longrightarrow> dict t k = None \<Longrightarrow> card (dom (dict t)) < room t \<Longrightarrow>
      \<exists>t'. insert_op t k v = Some (True, t') \<and> invar t' \<and> dict t' = (dict t)(k \<mapsto> v) \<and> room t' = room t"
    and insert_dup: "invar t \<Longrightarrow> dict t k = Some w \<Longrightarrow> insert_op t k v = Some (False, t)"
    and erase_present: "invar t \<Longrightarrow> dict t k = Some w \<Longrightarrow>
      \<exists>t'. erase_op t k = Some (True, t') \<and> invar t' \<and> dict t' = (dict t)(k := None) \<and> room t' = room t"
    and erase_absent: "invar t \<Longrightarrow> dict t k = None \<Longrightarrow> erase_op t k = Some (False, t)"
    and finite_dict: "invar t \<Longrightarrow> finite (dom (dict t))"
begin

lemma find_insert:
  assumes "invar t" "dict t k = None" "card (dom (dict t)) < room t"
  shows "\<exists>t'. insert_op t k v = Some (True, t') \<and> invar t' \<and>
    find_op t' j = (if j = k then Some (Some v) else find_op t j)"
  using insert_new [OF assms, of v] find_dict assms(1) by auto

lemma find_erase:
  assumes "invar t" "dict t k = Some w"
  shows "\<exists>t'. erase_op t k = Some (True, t') \<and> invar t' \<and>
    find_op t' j = (if j = k then Some None else find_op t j)"
  using erase_present [OF assms] find_dict assms(1) by auto

text \<open>Insert/erase churn leaves no trace: the map is the one before.\<close>

lemma churn:
  assumes "invar t" "dict t k = None" "card (dom (dict t)) < room t"
  shows "\<exists>t' t''. insert_op t k v = Some (True, t') \<and> erase_op t' k = Some (True, t'') \<and>
    invar t'' \<and> dict t'' = dict t \<and> room t'' = room t"
proof -
  obtain t' where t': "insert_op t k v = Some (True, t')" "invar t'" "dict t' = (dict t)(k \<mapsto> v)"
    "room t' = room t"
    using insert_new [OF assms, of v] by blast
  then obtain t'' where t'': "erase_op t' k = Some (True, t'')" "invar t''"
    "dict t'' = (dict t')(k := None)" "room t'' = room t'"
    using erase_present [of t' k v] by auto
  have "dict t'' = dict t" using t'(3) t''(3) assms(2) by (auto simp: fun_upd_idem)
  with t' t'' show ?thesis by auto
qed

end

lemma fi_find_dict: "fi_invar t \<Longrightarrow> fi_find t x = Some (fi_map t x)"
  using find_loop_correct [of "fi_entries t" x]
  by (simp add: fi_invar_def fi_find_def fi_map_def first_slot)

lemma fi_insert_new:
  assumes "fi_invar t" "fi_map t x = None" "card (dom (fi_map t)) < fi_room t"
  shows "\<exists>t'. fi_insert t x v = Some (True, t') \<and> fi_invar t' \<and> fi_map t' = (fi_map t)(x \<mapsto> v) \<and>
    fi_room t' = fi_room t"
proof -
  let ?es = "fi_entries t" and ?n = "length (fi_entries t)"
  have inv: "pow2 ?n" "fi_mask t = ?n - 1" "ids_distinct ?es" "chained ?es" "load ?es < ?n"
    using assms(1) by (simp_all add: fi_invar_def)
  have none: "contents ?es x = None" using assms(2) by (simp add: fi_map_def)
  have room: "Suc (load ?es) < ?n"
    using assms(3) card_dom_contents [OF inv(3)] by (simp add: fi_map_def fi_room_def)
  obtain E where "E < ?n" "\<not> occ ?es E" using ex_empty_slot [OF inv(5)] .
  then obtain m where m: "m < ?n" "skips ?es x (home ?n x) m" "\<not> occ ?es ((home ?n x + m) mod ?n)"
    "insert_entries ?es (?n - 1) x v =
       Some (True, ?es[(home ?n x + m) mod ?n := \<lparr>en_id = x, en_node = v, en_state = Occupied\<rparr>])"
    using insert_entries_at [OF inv(1) _ _ none, of _ v] by blast
  let ?e = "\<lparr>en_id = x, en_node = v, en_state = Occupied\<rparr>"
  let ?t = "t\<lparr>fi_entries := ?es[(home ?n x + m) mod ?n := ?e]\<rparr>"
  have slot: "(home ?n x + m) mod ?n < ?n" using slot_less [OF inv(1)] .
  have "fi_invar ?t"
    using inv room m(3) slot none chained_update [OF inv(4) m(1), of ?e] m(2)
    by (simp add: fi_invar_def load_update ids_distinct_update)
  moreover have "fi_map ?t = (fi_map t)(x \<mapsto> v)"
    using contents_update [OF inv(3) slot m(3), of ?e] none by (simp add: fi_map_def)
  ultimately show ?thesis
    using m(4) by (simp add: fi_insert_def inv(2) fi_room_def)
qed

lemma fi_insert_dup: "fi_invar t \<Longrightarrow> fi_map t x = Some w \<Longrightarrow> fi_insert t x v = Some (False, t)"
  using insert_loop_present [of "fi_entries t" x w v]
  by (simp add: fi_insert_def fi_invar_def fi_map_def)

lemma fi_erase_present:
  assumes "fi_invar t" "fi_map t x = Some w"
  shows "\<exists>t'. fi_erase t x = Some (True, t') \<and> fi_invar t' \<and> fi_map t' = (fi_map t)(x := None) \<and>
    fi_room t' = fi_room t"
proof -
  let ?es = "fi_entries t" and ?n = "length (fi_entries t)"
  have inv: "pow2 ?n" "fi_mask t = ?n - 1" "ids_distinct ?es" "chained ?es" "load ?es < ?n"
    using assms(1) by (simp_all add: fi_invar_def)
  obtain es' where es': "erase_loop ?n ?es (?n - 1) x (home ?n x) = Some (True, es')" "length es' = ?n"
    "ids_distinct es'" "chained es'" "contents es' = (contents ?es)(x := None)" "Suc (load es') = load ?es"
    using erase_loop_correct [OF inv(1,3-5)] assms(2) by (auto simp: fi_map_def)
  let ?t = "t\<lparr>fi_entries := es'\<rparr>"
  have "fi_erase t x = Some (True, ?t)"
    using es'(1) inv(1,2) by (simp add: fi_erase_def first_slot)
  moreover have "fi_invar ?t" "fi_map ?t = (fi_map t)(x := None)" "fi_room ?t = fi_room t"
    using es' inv by (simp_all add: fi_invar_def fi_map_def fi_room_def)
  ultimately show ?thesis by blast
qed

lemma fi_erase_absent: "fi_invar t \<Longrightarrow> fi_map t x = None \<Longrightarrow> fi_erase t x = Some (False, t)"
  using erase_loop_absent [of "fi_entries t" x "length (fi_entries t)" "unat (hash x)"]
  by (simp add: fi_erase_def fi_invar_def fi_map_def first_slot home_def)

lemma fi_finite_dict: "finite (dom (fi_map t))"
  by (simp add: fi_map_def contents_def finite_dom_map_of)

interpretation fi: id_index fi_invar fi_map fi_room fi_find fi_insert fi_erase
  by unfold_locales
    (simp_all add: fi_find_dict fi_insert_new fi_insert_dup fi_erase_present fi_erase_absent fi_finite_dict)

lemma fixed_order_index_ok:
  assumes "0 < c" "c \<le> 2 ^ 62"
  shows "\<exists>t. fixed_order_index c = Inr t \<and> fi_invar t \<and> fi_map t = Map.empty \<and> c \<le> fi_room t"
proof -
  let ?n = "bit_ceil (c * 2)"
  let ?es = "replicate ?n default_entry"
  have n: "pow2 ?n" "0 < ?n" "c * 2 \<le> ?n" using pow2_bit_ceil pow2_pos bit_ceil_ge by auto
  have empty: "{i. i < ?n \<and> occ ?es i} = {}" by (auto simp: default_entry_def)
  have "ids_distinct ?es" "chained ?es" "load ?es = 0" "contents ?es = Map.empty"
    using empty by (auto simp: ids_distinct_def chained_def load_def contents_def default_entry_def)
  with n assms show ?thesis
    by (auto simp: fixed_order_index_def table_capacity_def fi_invar_def fi_map_def fi_room_def)
qed

subsection \<open>Sequences of operations\<close>

text \<open>
  A client's history of insertions and erasures, run on the table and on a finite map.
  \<open>fits\<close> says that the history never holds more than \<open>c\<close> identifiers at once, which is
  what the order book guarantees with its free list.
\<close>

datatype index_op = Ins OrderId nat | Del OrderId

fun run_index :: "FixedOrderIndex \<Rightarrow> index_op list \<Rightarrow> (bool list \<times> FixedOrderIndex) option" where
  "run_index t [] = Some ([], t)"
| "run_index t (op # ops) =
     do {
       (ok, t1) \<leftarrow> (case op of Ins k v \<Rightarrow> fi_insert t k v | Del k \<Rightarrow> fi_erase t k);
       (oks, t2) \<leftarrow> run_index t1 ops;
       Some (ok # oks, t2)
     }"

fun run_map :: "(OrderId \<rightharpoonup> nat) \<Rightarrow> index_op list \<Rightarrow> bool list \<times> (OrderId \<rightharpoonup> nat)" where
  "run_map m [] = ([], m)"
| "run_map m (Ins k v # ops) =
     (let (oks, m') = run_map (if m k = None then m(k \<mapsto> v) else m) ops in ((m k = None) # oks, m'))"
| "run_map m (Del k # ops) =
     (let (oks, m') = run_map (m(k := None)) ops in ((m k \<noteq> None) # oks, m'))"

fun fits :: "nat \<Rightarrow> OrderId set \<Rightarrow> index_op list \<Rightarrow> bool" where
  "fits c ks [] \<longleftrightarrow> card ks \<le> c"
| "fits c ks (Ins k v # ops) \<longleftrightarrow> card ks \<le> c \<and> fits c (insert k ks) ops"
| "fits c ks (Del k # ops) \<longleftrightarrow> card ks \<le> c \<and> fits c (ks - {k}) ops"

lemma fits_card: "fits c ks ops \<Longrightarrow> card ks \<le> c"
  by (cases "(c, ks, ops)" rule: fits.cases) auto

lemma run_index_map:
  assumes "fi_invar t" "c \<le> fi_room t" "fits c (dom (fi_map t)) ops"
  shows "\<exists>t'. run_index t ops = Some (fst (run_map (fi_map t) ops), t') \<and> fi_invar t' \<and>
    fi_map t' = snd (run_map (fi_map t) ops) \<and> fi_room t' = fi_room t"
  using assms
proof (induction ops arbitrary: t)
  case (Cons op ops)
  show ?case
  proof (cases op)
    case (Ins k v)
    show ?thesis
    proof (cases "fi_map t k")
      case None
      have "card (insert k (dom (fi_map t))) \<le> c" using Cons.prems(3) Ins by (auto intro: fits_card)
      then have "card (dom (fi_map t)) < fi_room t"
        using None Cons.prems(2) fi_finite_dict [of t] by (simp add: card_insert_if domIff)
      then obtain t' where t': "fi_insert t k v = Some (True, t')" "fi_invar t'"
        "fi_map t' = (fi_map t)(k \<mapsto> v)" "fi_room t' = fi_room t"
        using fi_insert_new [OF Cons.prems(1) None] by blast
      moreover have "dom (fi_map t') = insert k (dom (fi_map t))" by (simp add: t'(3))
      ultimately show ?thesis
        using Cons.IH [of t'] Cons.prems Ins None by (auto simp: split_beta simp del: fun_upd_apply)
    next
      case (Some w)
      then show ?thesis
        using Cons.IH [of t] Cons.prems Ins fi_insert_dup [OF Cons.prems(1) Some]
        by (auto simp: split_beta insert_absorb domI)
    qed
  next
    case (Del k)
    show ?thesis
    proof (cases "fi_map t k")
      case None
      then have "(fi_map t)(k := None) = fi_map t" "dom (fi_map t) - {k} = dom (fi_map t)" by auto
      then show ?thesis
        using Cons.IH [of t] Cons.prems Del None fi_erase_absent [OF Cons.prems(1) None]
        by (auto simp: split_beta)
    next
      case (Some w)
      then obtain t' where t': "fi_erase t k = Some (True, t')" "fi_invar t'"
        "fi_map t' = (fi_map t)(k := None)" "fi_room t' = fi_room t"
        using fi_erase_present [OF Cons.prems(1)] by blast
      moreover have "dom (fi_map t') = dom (fi_map t) - {k}" by (simp add: t'(3))
      ultimately show ?thesis
        using Cons.IH [of t'] Cons.prems Del Some by (auto simp: split_beta simp del: fun_upd_apply)
    qed
  qed
qed simp

subsection \<open>Properties\<close>

text \<open>
  C37.  The order index implements a finite map.  A table built for \<open>c\<close> orders runs every
  history of insertions and erasures that never holds more than \<open>c\<close> identifiers at once:
  no operation fails or loops, every result flag is the map's, and afterwards every
  lookup returns what the map holds.  Backward-shift deletion therefore never loses or
  resurrects an entry, however long the churn.
\<close>

theorem index_refines_map:
  assumes "0 < c" "c \<le> 2 ^ 62" "fits c {} ops"
  shows "\<exists>t t'. fixed_order_index c = Inr t \<and>
    run_index t ops = Some (fst (run_map Map.empty ops), t') \<and>
    (\<forall>k. fi_find t' k = Some (snd (run_map Map.empty ops) k))"
proof -
  obtain t where t: "fixed_order_index c = Inr t" "fi_invar t" "fi_map t = Map.empty" "c \<le> fi_room t"
    using fixed_order_index_ok [OF assms(1,2)] by blast
  moreover have "fits c (dom (fi_map t)) ops" using t(3) assms(3) by simp
  ultimately show ?thesis using run_index_map [of t c ops] fi_find_dict by auto
qed

theorem index_refines_map_witness:
  "\<exists>t t'. fixed_order_index 2 = Inr t \<and>
    run_index t [Ins 5 0, Ins 9 1, Ins 5 2, Del 5, Ins 7 0] = Some ([True, True, False, True, True], t') \<and>
    fi_find t' 7 = Some (Some 0) \<and> fi_find t' 5 = Some None \<and> fi_find t' 9 = Some (Some 1)"
proof -
  let ?ops = "[Ins 5 0, Ins 9 1, Ins 5 2, Del 5, Ins 7 0]"
  have "fits 2 {} ?ops" by (simp add: card_insert_if insert_Diff_if)
  moreover have "run_map Map.empty ?ops = ([True, True, False, True, True], [9 \<mapsto> 1, 7 \<mapsto> 0])"
    by (auto simp: fun_eq_iff)
  ultimately show ?thesis using index_refines_map [of 2 ?ops] by (simp del: run_index.simps) auto
qed

text \<open>
  Insertion into a table with room succeeds, and afterwards the identifier is found
  with its node while every other lookup is what it was.
\<close>

theorem index_find_after_insert:
  assumes "fi_invar t" "fi_find t k = Some None" "card (dom (fi_map t)) < fi_room t"
  shows "\<exists>t'. fi_insert t k v = Some (True, t') \<and> fi_invar t' \<and>
    fi_find t' j = (if j = k then Some (Some v) else fi_find t j)"
  using fi.find_insert [OF assms(1) _ assms(3)] assms(2) fi_find_dict [OF assms(1)] by simp

theorem index_find_after_insert_witness:
  "\<exists>t t'. fixed_order_index 3 = Inr t \<and> fi_insert t 42 1 = Some (True, t') \<and>
    fi_find t' 42 = Some (Some 1)"
proof -
  obtain t where t: "fixed_order_index 3 = Inr t" "fi_invar t" "fi_map t = Map.empty" "3 \<le> fi_room t"
    using fixed_order_index_ok [of 3] by auto
  then show ?thesis using index_find_after_insert [of t 42 1 42] fi_find_dict [of t 42] by auto
qed

text \<open>
  Erasure of a stored identifier succeeds and its backward shift moves the rest of the
  probe chain without losing any of it: the identifier is gone, every other lookup is
  unchanged, and the table has the room it had before.
\<close>

theorem index_find_after_erase:
  assumes "fi_invar t" "fi_find t k = Some (Some v)"
  shows "\<exists>t'. fi_erase t k = Some (True, t') \<and> fi_invar t' \<and> fi_room t' = fi_room t \<and>
    (\<forall>j. fi_find t' j = (if j = k then Some None else fi_find t j))"
  using fi_erase_present [OF assms(1), of k v] assms fi_find_dict by fastforce

theorem index_find_after_erase_witness:
  "\<exists>t t' t''. fixed_order_index 3 = Inr t \<and> fi_insert t 42 1 = Some (True, t') \<and>
    fi_erase t' 42 = Some (True, t'') \<and> fi_find t'' 42 = Some None \<and> fi_find t'' 7 = Some None"
proof -
  obtain t where t: "fixed_order_index 3 = Inr t" "fi_invar t" "fi_map t = Map.empty" "3 \<le> fi_room t"
    using fixed_order_index_ok [of 3] by auto
  obtain t' where t': "fi_insert t 42 1 = Some (True, t')" "fi_invar t'" "fi_map t' = [42 \<mapsto> 1]"
    using fi_insert_new [of t 42 1] t by auto
  have f: "fi_find t' 42 = Some (Some 1)" "fi_find t' 7 = Some None"
    using fi_find_dict [OF t'(2)] t'(3) by simp_all
  show ?thesis using index_find_after_erase [OF t'(2) f(1)] t(1) t'(1) f(2) by auto
qed

end
