(* ===== verification/Price_Ladder.thy ===== *)
theory Price_Ladder
  imports Dme_Types
begin

text \<open>
  The geometry of the price ladder of \<^verbatim>\<open>src/order_book.cpp\<close>: the configuration
  check, the mapping between prices and ladder indices, and the activity bitmaps
  with the search for the best set bit.  Signed 64-bit arithmetic is word arithmetic
  read through \<^const>\<open>sint\<close>; the lemmas show that under a checked configuration no
  operation overflows, so that the ladder is an order isomorphism between valid
  prices and the indices below the price count.
\<close>

subsection \<open>Configuration and price arithmetic\<close>

record BookConfig =
  minimum_price :: Price
  maximum_price :: Price
  tick_size :: Price
  maximum_orders :: nat

text \<open>Signed division and remainder of C++ truncate towards zero.\<close>

definition i64_div :: "i64 \<Rightarrow> i64 \<Rightarrow> i64" where
  "i64_div a b = word_of_int (sint a sdiv sint b)"

definition i64_mod :: "i64 \<Rightarrow> i64 \<Rightarrow> i64" where
  "i64_mod a b = word_of_int (sint a smod sint b)"

definition i64_max :: i64 where
  "i64_max = 0x7fffffffffffffff"

definition no_price :: nat where
  "no_price = size_max"

definition checked_price_count :: "BookConfig \<Rightarrow> exn + nat" where
  "checked_price_count config =
     (if sint (tick_size config) \<le> 0 \<or>
         sint (maximum_price config) < sint (minimum_price config) \<or>
         maximum_orders config = 0 \<or> maximum_orders config > u32_max
      then Inl InvalidArgument
      else if sint (minimum_price config) < 0 \<and>
         sint (maximum_price config) > sint (i64_max + minimum_price config)
      then Inl InvalidArgument
      else
        let span = maximum_price config - minimum_price config in
        if i64_mod span (tick_size config) \<noteq> 0 then Inl InvalidArgument
        else
          let count = i64_div span (tick_size config) + 1 in
          if unat count > size_max then Inl InvalidArgument else Inr (unat count))"

definition valid_price :: "BookConfig \<Rightarrow> Price \<Rightarrow> bool" where
  "valid_price config price \<longleftrightarrow>
     sint price \<ge> sint (minimum_price config) \<and> sint price \<le> sint (maximum_price config) \<and>
     i64_mod (price - minimum_price config) (tick_size config) = 0"

definition price_index :: "BookConfig \<Rightarrow> Price \<Rightarrow> nat" where
  "price_index config price = unat (i64_div (price - minimum_price config) (tick_size config))"

definition index_price :: "BookConfig \<Rightarrow> nat \<Rightarrow> Price" where
  "index_price config index = minimum_price config + of_nat index * tick_size config"

subsection \<open>Activity bitmaps\<close>

definition bits_set :: "u64 list \<Rightarrow> nat \<Rightarrow> u64 list option" where
  "bits_set bits index =
     do {
       w \<leftarrow> vec_at bits (index div 64);
       vec_set bits (index div 64) (w OR push_bit (index mod 64) 1)
     }"

definition bits_clear :: "u64 list \<Rightarrow> nat \<Rightarrow> u64 list option" where
  "bits_clear bits index =
     do {
       w \<leftarrow> vec_at bits (index div 64);
       vec_set bits (index div 64) (w AND NOT (push_bit (index mod 64) 1))
     }"

text \<open>
  The two scans of \<^verbatim>\<open>best_index\<close>: upwards from word 0 for asks, downwards from the
  last word for bids.
\<close>

fun scan_up :: "nat \<Rightarrow> u64 list \<Rightarrow> nat" where
  "scan_up word [] = no_price"
| "scan_up word (w # ws) = (if w \<noteq> 0 then word * 64 + countr_zero w else scan_up (word + 1) ws)"

fun scan_down :: "u64 list \<Rightarrow> nat \<Rightarrow> nat" where
  "scan_down bits 0 = no_price"
| "scan_down bits (Suc word) =
     (if bits ! word \<noteq> 0 then word * 64 + (63 - countl_zero (bits ! word)) else scan_down bits word)"

definition best_bit :: "Side \<Rightarrow> u64 list \<Rightarrow> nat" where
  "best_bit side bits = (if side = Sell then scan_up 0 bits else scan_down bits (length bits))"

definition active :: "u64 list \<Rightarrow> nat \<Rightarrow> bool" where
  "active bits index \<longleftrightarrow> index div 64 < length bits \<and> bit (bits ! (index div 64)) (index mod 64)"

lemma active_bits_set:
  assumes "index div 64 < length bits"
  shows "\<exists>bits'. bits_set bits index = Some bits' \<and> length bits' = length bits \<and>
    (\<forall>j. active bits' j \<longleftrightarrow> j = index \<or> active bits j)"
proof -
  let ?b = "bits[index div 64 := (bits ! (index div 64)) OR push_bit (index mod 64) 1]"
  have "active ?b j \<longleftrightarrow> j = index \<or> active bits j" for j
  proof (cases "j div 64 = index div 64")
    case True
    then have "j mod 64 = index mod 64 \<longleftrightarrow> j = index" by (metis div_mult_mod_eq)
    then show ?thesis
      using True assms by (auto simp: active_def bit_or_iff bit_exp_iff possible_bit_word)
  next
    case False
    then show ?thesis by (auto simp: active_def)
  qed
  then show ?thesis using assms by (simp add: bits_set_def vec_simps)
qed

lemma active_bits_clear:
  assumes "index div 64 < length bits"
  shows "\<exists>bits'. bits_clear bits index = Some bits' \<and> length bits' = length bits \<and>
    (\<forall>j. active bits' j \<longleftrightarrow> j \<noteq> index \<and> active bits j)"
proof -
  let ?b = "bits[index div 64 := (bits ! (index div 64)) AND NOT (push_bit (index mod 64) 1)]"
  have "active ?b j \<longleftrightarrow> j \<noteq> index \<and> active bits j" for j
  proof (cases "j div 64 = index div 64")
    case True
    then have "j mod 64 = index mod 64 \<longleftrightarrow> j = index" by (metis div_mult_mod_eq)
    then show ?thesis
      using True assms by (auto simp: active_def bit_and_iff bit_not_iff bit_exp_iff possible_bit_word)
  next
    case False
    then show ?thesis by (auto simp: active_def)
  qed
  then show ?thesis using assms by (simp add: bits_clear_def vec_simps)
qed

lemma ex_bit_u64:
  assumes "w \<noteq> (0::u64)"
  shows "\<exists>i < 64. bit w i"
proof (rule ccontr)
  assume "\<not> ?thesis"
  then have "w = 0" by (intro bit_word_eqI) auto
  with assms show False ..
qed

lemma countr_zero_bit:
  assumes "w \<noteq> 0"
  shows "countr_zero w < 64" "bit w (countr_zero w)" "j < countr_zero w \<Longrightarrow> \<not> bit w j"
proof -
  let ?P = "\<lambda>i. \<not> bit w i"
  obtain i where i: "i < 64" "bit w i" using ex_bit_u64 [OF assms] by blast
  then have len: "length (takeWhile ?P [0..<64]) < length [0..<64::nat]"
    by (intro takeWhile_stops [of i]) auto
  then show "countr_zero w < 64" by (simp add: countr_zero_def)
  have "\<not> ?P ([0..<64] ! length (takeWhile ?P [0..<64]))" using len by (rule nth_length_takeWhile)
  with len show "bit w (countr_zero w)" by (simp add: countr_zero_def)
  show "\<not> bit w j" if "j < countr_zero w"
  proof -
    have "takeWhile ?P [0..<64] ! j = j"
      using that len by (simp add: countr_zero_def takeWhile_nth)
    then show ?thesis using that set_takeWhileD nth_mem unfolding countr_zero_def by metis
  qed
qed

lemma countl_zero_bit:
  assumes "w \<noteq> 0"
  shows "countl_zero w < 64" "bit w (63 - countl_zero w)"
    "63 - countl_zero w < j \<Longrightarrow> \<not> bit w j"
proof -
  let ?P = "\<lambda>i. \<not> bit w i" and ?xs = "rev [0..<64::nat]"
  obtain i where i: "i < 64" "bit w i" using ex_bit_u64 [OF assms] by blast
  then have len: "length (takeWhile ?P ?xs) < length ?xs"
    by (intro takeWhile_stops [of i]) auto
  then show c: "countl_zero w < 64" by (simp add: countl_zero_def)
  have nth: "?xs ! k = 63 - k" if "k < 64" for k using that by (simp add: rev_nth)
  have "\<not> ?P (?xs ! length (takeWhile ?P ?xs))" using len by (rule nth_length_takeWhile)
  with nth [OF c] show "bit w (63 - countl_zero w)" by (simp add: countl_zero_def)
  show "\<not> bit w j" if j: "63 - countl_zero w < j"
  proof (cases "j < 64")
    case True
    have k: "63 - j < countl_zero w" using j c True by arith
    then have "takeWhile ?P ?xs ! (63 - j) = j"
      using c True nth [of "63 - j"] by (simp add: countl_zero_def takeWhile_nth)
    then show ?thesis using k set_takeWhileD nth_mem unfolding countl_zero_def by metis
  next
    case False
    then show ?thesis using bit_imp_le_length [of w j] by auto
  qed
qed

lemma active_Cons: "active (w # ws) j \<longleftrightarrow> (if j < 64 then bit w j else active ws (j - 64))"
proof (cases "j < 64")
  case False
  then obtain k where "j = k + 64" by (metis add.commute le_Suc_ex not_less)
  moreover have "(k + 64) div 64 = Suc (k div 64)" by simp
  ultimately show ?thesis by (simp add: active_def)
qed (simp add: active_def)

lemma active_less: "active bits j \<Longrightarrow> j < length bits * 64"
  by (auto simp: active_def less_mult_imp_div_less dest: div_less_iff_less_mult [THEN iffD1, rotated])

lemma active_nonzero: "active bits j \<Longrightarrow> bits ! (j div 64) \<noteq> 0"
  by (auto simp: active_def)

lemma scan_up_none: "(\<And>j. \<not> active ws j) \<Longrightarrow> scan_up k ws = no_price"
proof (induction ws arbitrary: k)
  case (Cons w ws)
  have "w = 0"
    using Cons.prems ex_bit_u64 [of w] by (metis active_Cons)
  moreover have "\<not> active ws j" for j
    using Cons.prems [of "j + 64"] by (simp add: active_Cons)
  ultimately show ?case using Cons.IH by simp
qed simp

lemma scan_up_least:
  assumes "active ws j"
  shows "\<exists>i. scan_up k ws = k * 64 + i \<and> active ws i \<and> i \<le> j"
  using assms
proof (induction ws arbitrary: k j)
  case Nil
  then show ?case by (simp add: active_def)
next
  case (Cons w ws)
  show ?case
  proof (cases "w = 0")
    case False
    note c = countr_zero_bit [OF False]
    have "countr_zero w \<le> j"
      using Cons.prems c by (auto simp: active_Cons not_less [symmetric] split: if_splits)
    with c False show ?thesis by (auto simp: active_Cons)
  next
    case True
    with Cons.prems have "64 \<le> j" "active ws (j - 64)" by (auto simp: active_Cons split: if_splits)
    then obtain i where "scan_up (k + 1) ws = (k + 1) * 64 + i" "active ws i" "i \<le> j - 64"
      using Cons.IH by blast
    with True \<open>64 \<le> j\<close> show ?thesis
      by (intro exI [of _ "i + 64"]) (simp add: active_Cons)
  qed
qed

lemma scan_down_none: "n \<le> length ws \<Longrightarrow> (\<And>j. \<not> active ws j) \<Longrightarrow> scan_down ws n = no_price"
proof (induction n)
  case (Suc n)
  have "ws ! n = 0"
  proof (rule ccontr)
    assume "ws ! n \<noteq> 0"
    then obtain i where "i < 64" "bit (ws ! n) i" using ex_bit_u64 by blast
    then have "active ws (n * 64 + i)" using Suc.prems(1) by (simp add: active_def)
    with Suc.prems(2) show False by blast
  qed
  with Suc show ?case by simp
qed simp

lemma scan_down_greatest:
  assumes "active ws j" "j < n * 64" "n \<le> length ws"
  shows "active ws (scan_down ws n) \<and> j \<le> scan_down ws n"
  using assms
proof (induction n)
  case (Suc n)
  show ?case
  proof (cases "ws ! n = 0")
    case False
    note c = countl_zero_bit [OF False]
    let ?b = "63 - countl_zero (ws ! n)"
    have "j \<le> n * 64 + ?b"
    proof (cases "n * 64 \<le> j")
      case True
      then obtain i where i: "j = n * 64 + i" by (metis le_Suc_ex)
      with Suc.prems have "i < 64" "bit (ws ! n) i" by (auto simp: active_def)
      with c(3) i show ?thesis by (metis add_le_cancel_left not_less)
    qed auto
    moreover have "?b < 64" by simp
    then have "active ws (n * 64 + ?b)" using c(2) Suc.prems(3) by (simp add: active_def)
    ultimately show ?thesis using False by simp
  next
    case True
    have "j < n * 64"
    proof (rule ccontr)
      assume "\<not> j < n * 64"
      then have "j div 64 = n" using Suc.prems(2) by simp
      with True Suc.prems(1) show False using active_nonzero by blast
    qed
    with Suc True show ?thesis by simp
  qed
qed simp

lemma best_bit_none: "(\<And>j. \<not> active bits j) \<Longrightarrow> best_bit side bits = no_price"
  by (simp add: best_bit_def scan_up_none scan_down_none)

lemma best_bit_active: "active bits j \<Longrightarrow> active bits (best_bit side bits)"
  using scan_up_least [of bits j 0] scan_down_greatest [OF _ active_less order_refl, of bits j]
  by (auto simp: best_bit_def)

lemma best_bit_Sell: "active bits j \<Longrightarrow> best_bit Sell bits \<le> j"
  using scan_up_least [of bits j 0] by (auto simp: best_bit_def)

lemma best_bit_Buy: "active bits j \<Longrightarrow> j \<le> best_bit Buy bits"
  using scan_down_greatest [OF _ active_less order_refl, of bits j] by (simp add: best_bit_def)

subsection \<open>Signed arithmetic without overflow\<close>

lemma int_div_le: "0 \<le> a \<Longrightarrow> 0 < b \<Longrightarrow> a div b \<le> (a::int)"
  using zdiv_mono2 [of a 1 b] by simp

definition i64_range :: "int \<Rightarrow> bool" where
  "i64_range k \<longleftrightarrow> - (2 ^ 63) \<le> k \<and> k < 2 ^ 63"

lemma sint_i64_range [simp]: "i64_range (sint (a :: i64))"
  using sint_ge [of a] sint_lt [of a] by (simp add: i64_range_def)

lemma sint_of_int_i64: "i64_range k \<Longrightarrow> sint (word_of_int k :: i64) = k"
  by (simp add: i64_range_def signed_of_int signed_take_bit_int_eq_self)

lemma sint_add_i64 [i64_simps]: "i64_range (sint a + sint b) \<Longrightarrow> sint (a + b :: i64) = sint a + sint b"
  using sint_of_int_i64 [of "sint a + sint b"] by simp

lemma sint_diff_i64 [i64_simps]: "i64_range (sint a - sint b) \<Longrightarrow> sint (a - b :: i64) = sint a - sint b"
  using sint_of_int_i64 [of "sint a - sint b"] by simp

lemma sint_eq_0_iff: "sint (a :: i64) = 0 \<longleftrightarrow> a = 0"
proof
  assume z: "sint a = 0"
  have "a = word_of_int (sint a)" by simp
  also have "\<dots> = 0" unfolding z by simp
  finally show "a = 0" .
qed simp

lemma unat_nonneg: "0 \<le> sint a \<Longrightarrow> unat (a :: i64) = nat (sint a)"
proof -
  assume "0 \<le> sint a"
  then have "take_bit 64 (sint a) = sint a"
    using sint_lt [of a] by (intro take_bit_int_eq_self) simp_all
  then have "uint a = sint a" using uint_sint [of a] by simp
  then show ?thesis by (simp only: unat_eq_nat_uint)
qed

lemma sint_i64_div [i64_simps]: "0 \<le> sint a \<Longrightarrow> 0 < sint b \<Longrightarrow> sint (i64_div a b) = sint a div sint b"
proof -
  assume ab: "0 \<le> sint a" "0 < sint b"
  have "sint a sdiv sint b = sint a div sint b"
    using ab by (auto simp: signed_divide_int_def sgn_if)
  moreover have "0 \<le> sint a div sint b" "sint a div sint b \<le> sint a"
    using ab by (auto simp: pos_imp_zdiv_nonneg_iff int_div_le)
  then have "i64_range (sint a div sint b)"
    using sint_i64_range [of a] unfolding i64_range_def by linarith
  ultimately show ?thesis by (simp add: i64_div_def sint_of_int_i64)
qed

lemma i64_mod_eq_0 [i64_simps]: "0 \<le> sint a \<Longrightarrow> 0 < sint b \<Longrightarrow> i64_mod a b = 0 \<longleftrightarrow> sint b dvd sint a"
proof -
  assume ab: "0 \<le> sint a" "0 < sint b"
  have "sint a smod sint b = sint a mod sint b"
    using ab by (auto simp: signed_modulo_int_def sgn_if)
  moreover have "0 \<le> sint a mod sint b" "sint a mod sint b < sint b"
    using ab by auto
  then have "i64_range (sint a mod sint b)"
    using sint_i64_range [of b] unfolding i64_range_def by linarith
  ultimately have "sint (i64_mod a b) = sint a mod sint b"
    by (simp add: i64_mod_def sint_of_int_i64)
  then show ?thesis by (metis sint_eq_0_iff dvd_eq_mod_eq_0)
qed

subsection \<open>The ladder is an order isomorphism\<close>

lemma checked_price_countD:
  assumes "checked_price_count cfg = Inr n"
  shows "0 < sint (tick_size cfg)" "sint (minimum_price cfg) \<le> sint (maximum_price cfg)"
    "sint (maximum_price cfg) - sint (minimum_price cfg) < 2 ^ 63"
    "sint (tick_size cfg) dvd sint (maximum_price cfg) - sint (minimum_price cfg)"
    "int n = (sint (maximum_price cfg) - sint (minimum_price cfg)) div sint (tick_size cfg) + 1"
    "0 < maximum_orders cfg" "maximum_orders cfg < 2 ^ 32"
proof -
  let ?lo = "sint (minimum_price cfg)" and ?hi = "sint (maximum_price cfg)" and ?T = "sint (tick_size cfg)"
  let ?span = "maximum_price cfg - minimum_price cfg"
  have checks: "0 < ?T" "?lo \<le> ?hi" "0 < maximum_orders cfg" "maximum_orders cfg < 2 ^ 32"
    "\<not> (?lo < 0 \<and> ?hi > sint (i64_max + minimum_price cfg))"
    "i64_mod ?span (tick_size cfg) = 0" "n = unat (i64_div ?span (tick_size cfg) + 1)"
    using assms by (auto simp: checked_price_count_def Let_def split: if_splits)
  have bounds: "- (2 ^ 63) \<le> ?lo" "?hi < 2 ^ 63"
    using sint_i64_range [of "minimum_price cfg"] sint_i64_range [of "maximum_price cfg"]
    by (simp_all add: i64_range_def)
  show span: "?hi - ?lo < 2 ^ 63"
  proof (cases "?lo < 0")
    case True
    have max: "sint i64_max = 2 ^ 63 - 1" by (simp add: i64_max_def)
    then have "sint (i64_max + minimum_price cfg) = 2 ^ 63 - 1 + ?lo"
      using True bounds sint_add_i64 [of i64_max "minimum_price cfg"] by (simp add: i64_range_def)
    with True checks(5) show ?thesis by linarith
  qed (use bounds in linarith)
  then have sp: "sint ?span = ?hi - ?lo"
    using checks(2) by (intro sint_diff_i64) (simp add: i64_range_def)
  with checks show "?T dvd ?hi - ?lo" by (simp add: i64_mod_eq_0)
  have q: "sint (i64_div ?span (tick_size cfg)) = (?hi - ?lo) div ?T"
    using sp checks by (simp add: sint_i64_div)
  moreover have "0 \<le> (?hi - ?lo) div ?T" "(?hi - ?lo) div ?T \<le> ?hi - ?lo"
    using checks by (auto simp: pos_imp_zdiv_nonneg_iff int_div_le)
  ultimately have u: "unat (i64_div ?span (tick_size cfg)) = nat ((?hi - ?lo) div ?T)"
    "nat ((?hi - ?lo) div ?T) < 2 ^ 63"
    using span by (auto simp: unat_nonneg)
  then have "n = nat ((?hi - ?lo) div ?T) + 1"
    using checks(7) by (simp add: unat_word_ariths)
  with \<open>0 \<le> (?hi - ?lo) div ?T\<close> show "int n = (?hi - ?lo) div ?T + 1" by simp
  show "0 < ?T" "?lo \<le> ?hi" "0 < maximum_orders cfg" "maximum_orders cfg < 2 ^ 32"
    by fact+
qed

lemma price_count_bounds:
  assumes "checked_price_count cfg = Inr n"
  shows "0 < n" "n \<le> 2 ^ 63"
proof -
  note c = checked_price_countD [OF assms]
  let ?s = "sint (maximum_price cfg) - sint (minimum_price cfg)"
  have "0 \<le> ?s div sint (tick_size cfg)" "?s div sint (tick_size cfg) \<le> ?s"
    using c(1,2) by (auto simp: pos_imp_zdiv_nonneg_iff int_div_le)
  then have "0 < int n" "int n \<le> int (2 ^ 63)" using c(3,5) by simp_all
  then show "0 < n" "n \<le> 2 ^ 63" by (simp_all only: of_nat_le_iff of_nat_0_less_iff)
qed

lemma sint_price_diff:
  assumes "checked_price_count cfg = Inr n"
    and "sint (minimum_price cfg) \<le> sint p" "sint p \<le> sint (maximum_price cfg)"
  shows "sint (p - minimum_price cfg) = sint p - sint (minimum_price cfg)"
  using checked_price_countD(3) [OF assms(1)] assms(2,3)
  by (intro sint_diff_i64) (simp add: i64_range_def)

lemma valid_price_iff:
  assumes "checked_price_count cfg = Inr n"
  shows "valid_price cfg p \<longleftrightarrow>
    sint (minimum_price cfg) \<le> sint p \<and> sint p \<le> sint (maximum_price cfg) \<and>
    sint (tick_size cfg) dvd sint p - sint (minimum_price cfg)"
  using checked_price_countD(1) [OF assms] sint_price_diff [OF assms]
  by (auto simp: valid_price_def i64_mod_eq_0)

lemma int_price_index:
  assumes "checked_price_count cfg = Inr n" "valid_price cfg p"
  shows "int (price_index cfg p) = (sint p - sint (minimum_price cfg)) div sint (tick_size cfg)"
proof -
  note c = checked_price_countD [OF assms(1)]
  have p: "sint (minimum_price cfg) \<le> sint p" "sint p \<le> sint (maximum_price cfg)"
    using assms by (auto simp: valid_price_def)
  then show ?thesis
    using c(1) sint_price_diff [OF assms(1) p]
    by (simp add: price_index_def unat_nonneg sint_i64_div pos_imp_zdiv_nonneg_iff)
qed

lemma price_index_less:
  assumes "checked_price_count cfg = Inr n" "valid_price cfg p"
  shows "price_index cfg p < n"
proof -
  note c = checked_price_countD [OF assms(1)]
  have "sint p \<le> sint (maximum_price cfg)" using assms by (auto simp: valid_price_def)
  then have "int (price_index cfg p) \<le> int n - 1"
    unfolding int_price_index [OF assms] c(5) using c(1) by (simp add: zdiv_mono1)
  then show ?thesis by simp
qed

lemma sint_index_price:
  assumes "checked_price_count cfg = Inr n" "i < n"
  shows "sint (index_price cfg i) = sint (minimum_price cfg) + int i * sint (tick_size cfg)"
proof -
  note c = checked_price_countD [OF assms(1)]
  let ?k = "sint (minimum_price cfg) + int i * sint (tick_size cfg)"
  have "int i \<le> int n - 1" using assms(2) by simp
  then have "int i * sint (tick_size cfg) \<le> (int n - 1) * sint (tick_size cfg)"
    using c(1) by (intro mult_right_mono) auto
  also have "\<dots> = sint (maximum_price cfg) - sint (minimum_price cfg)"
    using c(4,5) by simp
  finally have "?k \<le> sint (maximum_price cfg)" by simp
  moreover have "0 \<le> int i * sint (tick_size cfg)" using c(1) by simp
  ultimately have "i64_range ?k"
    using sint_i64_range [of "minimum_price cfg"] sint_i64_range [of "maximum_price cfg"]
    unfolding i64_range_def by linarith
  moreover have "index_price cfg i = word_of_int ?k" by (simp add: index_price_def)
  ultimately show ?thesis by (simp only: sint_of_int_i64)
qed

lemma valid_index_price:
  assumes "checked_price_count cfg = Inr n" "i < n"
  shows "valid_price cfg (index_price cfg i)"
proof -
  note c = checked_price_countD [OF assms(1)]
  have "int i \<le> int n - 1" using assms(2) by simp
  then have "int i * sint (tick_size cfg) \<le> (int n - 1) * sint (tick_size cfg)"
    using c(1) by (intro mult_right_mono) auto
  also have "\<dots> = sint (maximum_price cfg) - sint (minimum_price cfg)"
    using c(4,5) by simp
  finally show ?thesis
    using c(1) by (simp add: valid_price_iff [OF assms(1)] sint_index_price [OF assms])
qed

lemma price_index_index_price:
  assumes "checked_price_count cfg = Inr n" "i < n"
  shows "price_index cfg (index_price cfg i) = i"
  using int_price_index [OF assms(1) valid_index_price [OF assms]] checked_price_countD(1) [OF assms(1)]
  by (simp add: sint_index_price [OF assms])

lemma index_price_price_index:
  assumes "checked_price_count cfg = Inr n" "valid_price cfg p"
  shows "index_price cfg (price_index cfg p) = p"
proof -
  have "sint (tick_size cfg) dvd sint p - sint (minimum_price cfg)"
    using assms valid_price_iff by blast
  then have "sint (index_price cfg (price_index cfg p)) = sint p"
    by (simp add: sint_index_price [OF assms(1) price_index_less [OF assms]] int_price_index [OF assms])
  then have "word_of_int (sint (index_price cfg (price_index cfg p))) = (word_of_int (sint p) :: i64)"
    by (rule arg_cong)
  then show ?thesis by simp
qed

lemma index_price_le_iff:
  assumes "checked_price_count cfg = Inr n" "i < n" "j < n"
  shows "sint (index_price cfg i) \<le> sint (index_price cfg j) \<longleftrightarrow> i \<le> j"
  using checked_price_countD(1) [OF assms(1)]
  by (simp add: sint_index_price [OF assms(1,2)] sint_index_price [OF assms(1,3)])

subsection \<open>Properties\<close>

text \<open>
  C38.  The price ladder is an order isomorphism.  For every configuration the constructor
  accepts, the admissible prices and the indices below the price count correspond one to
  one, in the same order, and none of the signed 64-bit operations involved overflows:
  the price of an index is the mathematical value \<open>minimum + index * tick\<close>.
\<close>

theorem price_ladder_isomorphism:
  assumes "checked_price_count cfg = Inr n"
  shows "(\<forall>p. valid_price cfg p \<longrightarrow> price_index cfg p < n \<and> index_price cfg (price_index cfg p) = p) \<and>
    (\<forall>i<n. valid_price cfg (index_price cfg i) \<and> price_index cfg (index_price cfg i) = i \<and>
      sint (index_price cfg i) = sint (minimum_price cfg) + int i * sint (tick_size cfg)) \<and>
    (\<forall>i<n. \<forall>j<n. sint (index_price cfg i) < sint (index_price cfg j) \<longleftrightarrow> i < j)"
  using price_index_less [OF assms] index_price_price_index [OF assms] valid_index_price [OF assms]
    price_index_index_price [OF assms] sint_index_price [OF assms] index_price_le_iff [OF assms]
  by (meson not_less)

theorem price_ladder_isomorphism_witness:
  "let cfg = \<lparr>minimum_price = - 50, maximum_price = 50, tick_size = 5, maximum_orders = 10\<rparr> in
   checked_price_count cfg = Inr 21 \<and> valid_price cfg 45 \<and> index_price cfg (price_index cfg 45) = 45 \<and>
   price_index cfg (index_price cfg 3) = 3"
proof -
  let ?cfg = "\<lparr>minimum_price = - 50, maximum_price = 50, tick_size = 5, maximum_orders = 10\<rparr> :: BookConfig"
  have c: "checked_price_count ?cfg = Inr 21" by code_simp
  have v: "valid_price ?cfg 45" by code_simp
  show ?thesis using price_ladder_isomorphism [OF c] c v by (simp add: Let_def)
qed

text \<open>
  C39.  The bitmap scan finds the best price level: the lowest active bit on the ask side, the
  highest on the bid side, and \<open>no_price\<close> exactly when no bit is set, for bitmaps of any
  length.
\<close>

theorem best_bit_extremal:
  assumes "64 * length ws < no_price"
  shows "(best_bit side ws = no_price \<longleftrightarrow> (\<forall>j. \<not> active ws j)) \<and>
    (\<forall>j. active ws j \<longrightarrow> active ws (best_bit side ws) \<and>
       (if side = Sell then best_bit side ws \<le> j else j \<le> best_bit side ws))"
proof -
  have "best_bit side ws \<noteq> no_price" if "active ws j" for j
    using active_less [OF best_bit_active [OF that, of side]] assms by auto
  then show ?thesis
    using best_bit_none [of ws side] best_bit_active [of ws] best_bit_Sell [of ws] best_bit_Buy [of ws]
    by (cases side) auto
qed

theorem best_bit_extremal_witness:
  "active [1, 1] 64 \<and> best_bit Sell [1, 1] = 0 \<and> best_bit Buy [1, 1] = 64"
proof -
  have a: "active [1, 1] j \<longleftrightarrow> j = 0 \<or> j = 64" for j
  proof -
    have "j div 64 < 2 \<Longrightarrow> [1, 1] ! (j div 64) = (1 :: 64 word)"
      by (cases "j div 64"; cases "j div 64 - 1") auto
    then have "active [1, 1] j \<longleftrightarrow> j div 64 < 2 \<and> j mod 64 = 0"
      by (auto simp: active_def bit_1_iff)
    also have "\<dots> \<longleftrightarrow> j = 0 \<or> j = 64"
      using div_mult_mod_eq [of j 64] by (auto simp: numeral_2_eq_2 less_Suc_eq)
    finally show ?thesis .
  qed
  have len: "64 * length [1 :: 64 word, 1] < no_price" by (simp add: no_price_def)
  note best = best_bit_extremal [OF len, THEN conjunct2, rule_format]
  have "best_bit Sell [1, 1] \<le> 0" using best [of 0 Sell] a [of 0] by simp
  moreover have "64 \<le> best_bit Buy [1, 1]" "active [1, 1] (best_bit Buy [1, 1])"
    using best [of 64 Buy] a [of 64] by simp_all
  ultimately show ?thesis using a [of "best_bit Buy [1, 1]"] a [of 64] by auto
qed

end
