(* ===== verification/Level_Fifo.thy ===== *)
theory Level_Fifo
  imports Dme_Types
begin

text \<open>
  The intrusive FIFO of a price level in \<^verbatim>\<open>src/order_book.cpp\<close>: order nodes live in
  an arena (a vector) and are linked by arena indices; a level keeps the head, the
  tail, the aggregate quantity and the number of its nodes.  The theory translates
  the node and level structures, the tail insertion of \<^verbatim>\<open>add_resting\<close> and the
  unlinking of \<^verbatim>\<open>remove_node\<close>, and shows that they append to and delete from the
  list of indices a level represents, without touching any other node's links.
\<close>

subsection \<open>Nodes and levels\<close>

record RestingOrder =
  ro_order_id :: OrderId
  ro_side :: Side
  ro_price :: Price
  ro_quantity :: Quantity
  ro_priority :: Sequence

record OrderNode =
  on_id :: OrderId
  on_price :: Price
  on_remaining :: Quantity
  on_priority :: Sequence
  on_previous :: nat
  on_next :: nat
  on_side :: Side

record PriceLevel =
  pl_total_quantity :: Quantity
  pl_head :: nat
  pl_tail :: nat
  pl_count :: nat

definition invalid_node :: nat where
  "invalid_node = u32_max"

definition default_node :: OrderNode where
  "default_node = \<lparr>on_id = 0, on_price = 0, on_remaining = 0, on_priority = 0,
     on_previous = invalid_node, on_next = invalid_node, on_side = Buy\<rparr>"

definition default_level :: PriceLevel where
  "default_level = \<lparr>pl_total_quantity = 0, pl_head = invalid_node, pl_tail = invalid_node, pl_count = 0\<rparr>"

text \<open>The part of a node that \<^verbatim>\<open>resting_orders\<close> reports: everything but its links.\<close>

definition resting_of :: "OrderNode \<Rightarrow> RestingOrder" where
  "resting_of order = \<lparr>ro_order_id = on_id order, ro_side = on_side order, ro_price = on_price order,
     ro_quantity = on_remaining order, ro_priority = on_priority order\<rparr>"

definition link_tail :: "OrderNode list \<Rightarrow> PriceLevel \<Rightarrow> nat \<Rightarrow> (OrderNode list \<times> PriceLevel) option" where
  "link_tail nodes level node_index =
     do {
       node \<leftarrow> vec_at nodes node_index;
       nodes1 \<leftarrow> vec_set nodes node_index (node\<lparr>on_previous := pl_tail level\<rparr>);
       (if pl_tail level \<noteq> invalid_node then
          do {
            last_node \<leftarrow> vec_at nodes1 (pl_tail level);
            nodes2 \<leftarrow> vec_set nodes1 (pl_tail level) (last_node\<lparr>on_next := node_index\<rparr>);
            Some (nodes2, level\<lparr>pl_tail := node_index\<rparr>)
          }
        else Some (nodes1, level\<lparr>pl_head := node_index, pl_tail := node_index\<rparr>))
     }"

definition unlink :: "OrderNode list \<Rightarrow> PriceLevel \<Rightarrow> nat \<Rightarrow> (OrderNode list \<times> PriceLevel) option" where
  "unlink nodes level node_index =
     do {
       node \<leftarrow> vec_at nodes node_index;
       (nodes1, level1) \<leftarrow>
         (if on_previous node \<noteq> invalid_node then
            do {
              p \<leftarrow> vec_at nodes (on_previous node);
              ns \<leftarrow> vec_set nodes (on_previous node) (p\<lparr>on_next := on_next node\<rparr>);
              Some (ns, level)
            }
          else Some (nodes, level\<lparr>pl_head := on_next node\<rparr>));
       node1 \<leftarrow> vec_at nodes1 node_index;
       (if on_next node1 \<noteq> invalid_node then
          do {
            q \<leftarrow> vec_at nodes1 (on_next node1);
            ns \<leftarrow> vec_set nodes1 (on_next node1) (q\<lparr>on_previous := on_previous node1\<rparr>);
            Some (ns, level1)
          }
        else Some (nodes1, level1\<lparr>pl_tail := on_previous node1\<rparr>))
     }"

subsection \<open>Doubly linked segments\<close>

text \<open>
  \<open>dseg ns p f xs l n\<close>: the indices \<open>xs\<close> are linked in both directions; \<open>p\<close> precedes
  them and \<open>n\<close> follows them; \<open>f\<close> is the first of them (or \<open>n\<close> when there are none)
  and \<open>l\<close> the last (or \<open>p\<close>).
\<close>

fun dseg :: "OrderNode list \<Rightarrow> nat \<Rightarrow> nat \<Rightarrow> nat list \<Rightarrow> nat \<Rightarrow> nat \<Rightarrow> bool" where
  "dseg ns p f [] l n \<longleftrightarrow> f = n \<and> l = p"
| "dseg ns p f (x # xs) l n \<longleftrightarrow>
     f = x \<and> x < length ns \<and> x \<noteq> invalid_node \<and> on_previous (ns ! x) = p \<and>
     dseg ns x (on_next (ns ! x)) xs l n"

definition fifo :: "OrderNode list \<Rightarrow> PriceLevel \<Rightarrow> nat list \<Rightarrow> bool" where
  "fifo ns level xs \<longleftrightarrow> distinct xs \<and> dseg ns invalid_node (pl_head level) xs (pl_tail level) invalid_node"

lemma dseg_append:
  "dseg ns p f (xs @ ys) l n \<longleftrightarrow> (\<exists>m k. dseg ns p f xs k m \<and> dseg ns k m ys l n)"
  by (induction xs arbitrary: p f) auto

lemma dseg_less: "dseg ns p f xs l n \<Longrightarrow> x \<in> set xs \<Longrightarrow> x < length ns \<and> x \<noteq> invalid_node"
  by (induction xs arbitrary: p f) auto

lemma dseg_cong:
  assumes "length ns' = length ns"
    and "\<And>x. x \<in> set xs \<Longrightarrow> on_previous (ns' ! x) = on_previous (ns ! x) \<and> on_next (ns' ! x) = on_next (ns ! x)"
  shows "dseg ns' p f xs l n = dseg ns p f xs l n"
  using assms by (induction xs arbitrary: p f) auto

text \<open>Redirecting the last next-link, or the first previous-link, of a segment.\<close>

lemma dseg_set_last_next:
  assumes "dseg ns p f (xs @ [t]) l n" "t \<notin> set xs"
  shows "dseg (ns[t := (ns ! t)\<lparr>on_next := n'\<rparr>]) p f (xs @ [t]) l n'"
proof -
  let ?ns = "ns[t := (ns ! t)\<lparr>on_next := n'\<rparr>]"
  obtain m k where mk: "dseg ns p f xs k m" "dseg ns k m [t] l n"
    using assms(1) dseg_append by blast
  have "dseg ?ns p f xs k m"
    using mk(1) assms(2) by (subst dseg_cong [of _ ns]) (auto simp: nth_upd)
  moreover have "dseg ?ns k m [t] l n'" using mk(2) by (simp add: nth_upd)
  ultimately show ?thesis using dseg_append by blast
qed

lemma dseg_set_first_previous:
  assumes "dseg ns p f (t # xs) l n" "t \<notin> set xs"
  shows "dseg (ns[t := (ns ! t)\<lparr>on_previous := p'\<rparr>]) p' f (t # xs) l n"
proof -
  let ?ns = "ns[t := (ns ! t)\<lparr>on_previous := p'\<rparr>]"
  have "dseg ns t (on_next (ns ! t)) xs l n" using assms(1) by simp
  then have "dseg ?ns t (on_next (ns ! t)) xs l n"
    using assms(2) by (subst dseg_cong [of _ ns]) (auto simp: nth_upd)
  with assms(1) show ?thesis by (simp add: nth_upd)
qed

lemma dseg_last: "dseg ns p f (xs @ [t]) l n \<Longrightarrow> l = t"
  by (auto simp: dseg_append)

lemma fifo_head: "fifo ns level (x # xs) \<Longrightarrow> pl_head level = x"
  by (simp add: fifo_def)

lemma fifo_empty_iff: "fifo ns level xs \<Longrightarrow> xs = [] \<longleftrightarrow> pl_head level = invalid_node"
  by (cases xs) (auto simp: fifo_def)

lemma fifo_tail_empty_iff: "fifo ns level xs \<Longrightarrow> xs = [] \<longleftrightarrow> pl_tail level = invalid_node"
  by (cases xs rule: rev_cases) (auto simp: fifo_def dseg_append)

lemma fifo_cong:
  assumes "length ns' = length ns" "\<And>x. x \<in> set xs \<Longrightarrow> ns' ! x = ns ! x"
    and "pl_head level' = pl_head level" "pl_tail level' = pl_tail level"
  shows "fifo ns' level' xs = fifo ns level xs"
  using assms dseg_cong [of ns' ns xs] by (simp add: fifo_def)

subsection \<open>Appending and deleting\<close>

lemma link_tail_fifo:
  assumes "fifo ns level xs" "i \<notin> set xs" "i < length ns" "i \<noteq> invalid_node"
    and "on_next (ns ! i) = invalid_node"
  shows "\<exists>ns' level'. link_tail ns level i = Some (ns', level') \<and> length ns' = length ns \<and>
    fifo ns' level' (xs @ [i]) \<and> (\<forall>j. resting_of (ns' ! j) = resting_of (ns ! j)) \<and>
    (\<forall>j. j \<notin> set xs \<longrightarrow> j \<noteq> i \<longrightarrow> ns' ! j = ns ! j) \<and>
    pl_total_quantity level' = pl_total_quantity level \<and> pl_count level' = pl_count level"
proof (cases xs rule: rev_cases)
  case Nil
  then have lv: "pl_tail level = invalid_node" using assms(1) fifo_tail_empty_iff by blast
  let ?ns = "ns[i := (ns ! i)\<lparr>on_previous := invalid_node\<rparr>]"
  have "link_tail ns level i = Some (?ns, level\<lparr>pl_head := i, pl_tail := i\<rparr>)"
    using assms(3) lv by (simp add: link_tail_def vec_simps)
  moreover have "fifo ?ns (level\<lparr>pl_head := i, pl_tail := i\<rparr>) [i]"
    using assms by (simp add: fifo_def nth_upd)
  ultimately show ?thesis using Nil by (auto simp: nth_upd resting_of_def)
next
  case (snoc ys t)
  have seg: "dseg ns invalid_node (pl_head level) (ys @ [t]) (pl_tail level) invalid_node"
    and dist: "distinct (ys @ [t])"
    using assms(1) snoc by (simp_all add: fifo_def)
  have t: "pl_tail level = t" using seg by (rule dseg_last)
  have t_ok: "t < length ns" "t \<noteq> invalid_node" "t \<noteq> i"
    using dseg_less [OF seg, of t] assms(2) snoc by auto
  let ?ns1 = "ns[i := (ns ! i)\<lparr>on_previous := t\<rparr>]"
  let ?ns2 = "?ns1[t := (?ns1 ! t)\<lparr>on_next := i\<rparr>]"
  have run: "link_tail ns level i = Some (?ns2, level\<lparr>pl_tail := i\<rparr>)"
    using assms(3) t t_ok by (simp add: link_tail_def vec_simps)
  have "dseg ?ns1 invalid_node (pl_head level) (ys @ [t]) t invalid_node"
    using seg t assms(2) snoc by (subst dseg_cong [of _ ns]) (auto simp: nth_upd)
  then have "dseg ?ns2 invalid_node (pl_head level) (ys @ [t]) t i"
    using dist by (intro dseg_set_last_next) auto
  moreover have "dseg ?ns2 t i [i] i invalid_node"
    using assms(3-5) t_ok by (simp add: nth_upd)
  ultimately have "dseg ?ns2 invalid_node (pl_head level) ((ys @ [t]) @ [i]) i invalid_node"
    using dseg_append by blast
  then have "fifo ?ns2 (level\<lparr>pl_tail := i\<rparr>) (xs @ [i])"
    using snoc dist assms(2) by (simp add: fifo_def)
  with run snoc show ?thesis by (auto simp: nth_upd resting_of_def)
qed

lemma unlink_fifo:
  assumes "fifo ns level (ys @ x # zs)"
  shows "\<exists>ns' level'. unlink ns level x = Some (ns', level') \<and> length ns' = length ns \<and>
    fifo ns' level' (ys @ zs) \<and> (\<forall>j. resting_of (ns' ! j) = resting_of (ns ! j)) \<and>
    (\<forall>j. j \<notin> set (ys @ zs) \<longrightarrow> ns' ! j = ns ! j) \<and>
    pl_total_quantity level' = pl_total_quantity level \<and> pl_count level' = pl_count level"
proof -
  let ?p = "on_previous (ns ! x)" and ?n = "on_next (ns ! x)"
  have dist: "distinct (ys @ x # zs)" using assms by (simp add: fifo_def)
  have segs: "dseg ns invalid_node (pl_head level) ys ?p x" "dseg ns x ?n zs (pl_tail level) invalid_node"
    and x: "x < length ns" "x \<noteq> invalid_node"
    using assms by (auto simp: fifo_def dseg_append)
  define ns1 where "ns1 = (if ?p \<noteq> invalid_node then ns[?p := (ns ! ?p)\<lparr>on_next := ?n\<rparr>] else ns)"
  define level1 where "level1 = (if ?p \<noteq> invalid_node then level else level\<lparr>pl_head := ?n\<rparr>)"
  define ns2 where "ns2 = (if ?n \<noteq> invalid_node then ns1[?n := (ns1 ! ?n)\<lparr>on_previous := ?p\<rparr>] else ns1)"
  define level2 where "level2 = (if ?n \<noteq> invalid_node then level1 else level1\<lparr>pl_tail := ?p\<rparr>)"
  have ys: "ys = [] \<and> ?p = invalid_node \<and> pl_head level = x \<or>
      (\<exists>us. ys = us @ [?p] \<and> ?p < length ns \<and> ?p \<noteq> invalid_node)"
  proof (cases ys rule: rev_cases)
    case (snoc us t)
    then have "?p = t" using segs(1) dseg_last by blast
    then show ?thesis using snoc dseg_less [OF segs(1), of t] by simp
  qed (use segs(1) in simp)
  have zs: "zs = [] \<and> ?n = invalid_node \<or>
      (\<exists>vs. zs = ?n # vs \<and> ?n < length ns \<and> ?n \<noteq> invalid_node)"
    using segs(2) by (cases zs) auto
  have px: "?p \<noteq> x" and nx: "?n \<noteq> x" and np: "?p \<noteq> invalid_node \<Longrightarrow> ?n \<noteq> invalid_node \<Longrightarrow> ?p \<noteq> ?n"
    using ys zs dist x by auto
  have run: "unlink ns level x = Some (ns2, level2)"
    using x ys zs px by (auto simp: unlink_def ns1_def ns2_def level1_def level2_def vec_simps nth_upd)
  have a: "dseg ns1 invalid_node (pl_head level1) ys ?p ?n"
    using ys
  proof (elim disjE exE conjE)
    fix us assume us: "ys = us @ [?p]" "?p \<noteq> invalid_node"
    have "?p \<notin> set us" using dist us(1) by (metis distinct_append distinct.simps(2) not_distinct_conv_prefix)
    then show ?thesis
      using dseg_set_last_next [of ns invalid_node "pl_head level" us ?p ?p x ?n] segs(1) us
      by (simp add: ns1_def level1_def)
  qed (simp add: ns1_def level1_def)
  have b: "dseg ns1 x ?n zs (pl_tail level) invalid_node"
    using segs(2) ys dist by (subst dseg_cong [of _ ns]) (auto simp: ns1_def nth_upd)
  have c: "dseg ns2 ?p ?n zs (pl_tail level2) invalid_node"
    using zs
  proof (elim disjE exE conjE)
    fix vs assume vs: "zs = ?n # vs" "?n \<noteq> invalid_node"
    have "?n \<notin> set vs" using dist vs(1) by (metis distinct_append distinct.simps(2))
    then show ?thesis
      using dseg_set_first_previous [of ns1 x ?n ?n vs] b vs
      by (simp add: ns2_def level2_def level1_def)
  qed (simp add: ns2_def level2_def)
  have a': "dseg ns2 invalid_node (pl_head level1) ys ?p ?n"
    using a zs dist by (subst dseg_cong [of _ ns1]) (auto simp: ns2_def nth_upd)
  have "pl_head level2 = pl_head level1" by (simp add: level2_def)
  with a' c dist have "fifo ns2 level2 (ys @ zs)"
    by (auto simp: fifo_def dseg_append)
  moreover have "resting_of (ns2 ! j) = resting_of (ns ! j)" for j
    by (auto simp: ns2_def ns1_def nth_upd resting_of_def)
  moreover have "?p = invalid_node \<or> ?p \<in> set ys" "?n = invalid_node \<or> ?n \<in> set zs"
    using ys zs by (metis in_set_conv_decomp, metis list.set_intros(1))
  then have "ns2 ! j = ns ! j" if "j \<notin> set (ys @ zs)" for j
    using that by (auto simp: ns2_def ns1_def nth_upd)
  ultimately show ?thesis
    using run by (auto simp: ns1_def ns2_def level1_def level2_def)
qed

end
