(* ===== verification/Order_Book.thy ===== *)
theory Order_Book
  imports Fixed_Hash Price_Ladder Level_Fifo
begin

text \<open>
  The matching engine of \<^verbatim>\<open>include/dme/order_book.hpp\<close> and \<^verbatim>\<open>src/order_book.cpp\<close>,
  translated operation by operation: the book is a record with the class's members,
  every member function is a definition that takes the book and returns the changed
  one, and the event vector is passed along and appended to.  An access outside a
  vector, a \<^verbatim>\<open>pop_back\<close> on the empty free list, the \<^verbatim>\<open>std::logic_error\<close> of a failed
  index insertion and a loop that does not end are the value \<open>None\<close>.
\<close>

subsection \<open>State\<close>

record BookStats =
  st_last_sequence :: Sequence
  st_commands :: u64
  st_trades :: u64
  st_rejected :: u64
  st_resting_orders :: nat

record OrderBook =
  ob_config :: BookConfig
  ob_price_count :: nat
  ob_bids :: "PriceLevel list"
  ob_asks :: "PriceLevel list"
  ob_bid_bits :: "u64 list"
  ob_ask_bits :: "u64 list"
  ob_nodes :: "OrderNode list"
  ob_free_nodes :: "nat list"
  ob_order_index :: FixedOrderIndex
  ob_stats :: BookStats

definition default_stats :: BookStats where
  "default_stats = \<lparr>st_last_sequence = 0, st_commands = 0, st_trades = 0, st_rejected = 0,
     st_resting_orders = 0\<rparr>"

definition order_book :: "BookConfig \<Rightarrow> exn + OrderBook" where
  "order_book config =
     (case checked_price_count config of
        Inl e \<Rightarrow> Inl e
      | Inr price_count \<Rightarrow>
          (case fixed_order_index (maximum_orders config) of
             Inl e \<Rightarrow> Inl e
           | Inr index \<Rightarrow> Inr \<lparr>
               ob_config = config,
               ob_price_count = price_count,
               ob_bids = replicate price_count default_level,
               ob_asks = replicate price_count default_level,
               ob_bid_bits = replicate ((price_count + 63) div 64) 0,
               ob_ask_bits = replicate ((price_count + 63) div 64) 0,
               ob_nodes = replicate (maximum_orders config) default_node,
               ob_free_nodes = rev [0..<maximum_orders config],
               ob_order_index = index,
               ob_stats = default_stats\<rparr>))"

text \<open>The ladder and the bitmap of a side: \<^verbatim>\<open>side == Side::Buy ? bids_ : asks_\<close>.\<close>

definition levels :: "OrderBook \<Rightarrow> Side \<Rightarrow> PriceLevel list" where
  "levels b side = (if side = Buy then ob_bids b else ob_asks b)"

definition set_levels :: "OrderBook \<Rightarrow> Side \<Rightarrow> PriceLevel list \<Rightarrow> OrderBook" where
  "set_levels b side ls = (if side = Buy then b\<lparr>ob_bids := ls\<rparr> else b\<lparr>ob_asks := ls\<rparr>)"

definition bits :: "OrderBook \<Rightarrow> Side \<Rightarrow> u64 list" where
  "bits b side = (if side = Buy then ob_bid_bits b else ob_ask_bits b)"

definition set_bits :: "OrderBook \<Rightarrow> Side \<Rightarrow> u64 list \<Rightarrow> OrderBook" where
  "set_bits b side ws = (if side = Buy then b\<lparr>ob_bid_bits := ws\<rparr> else b\<lparr>ob_ask_bits := ws\<rparr>)"

subsection \<open>Queries\<close>

definition set_active :: "OrderBook \<Rightarrow> Side \<Rightarrow> nat \<Rightarrow> OrderBook option" where
  "set_active b side index = do { ws \<leftarrow> bits_set (bits b side) index; Some (set_bits b side ws) }"

definition clear_active :: "OrderBook \<Rightarrow> Side \<Rightarrow> nat \<Rightarrow> OrderBook option" where
  "clear_active b side index = do { ws \<leftarrow> bits_clear (bits b side) index; Some (set_bits b side ws) }"

definition best_index :: "OrderBook \<Rightarrow> Side \<Rightarrow> nat" where
  "best_index b side = best_bit side (bits b side)"

definition best_bid :: "OrderBook \<Rightarrow> Price" where
  "best_bid b = (let index = best_index b Buy in
     if index = no_price then 0 else index_price (ob_config b) index)"

definition best_ask :: "OrderBook \<Rightarrow> Price" where
  "best_ask b = (let index = best_index b Sell in
     if index = no_price then 0 else index_price (ob_config b) index)"

definition quantity_at :: "OrderBook \<Rightarrow> Side \<Rightarrow> Price \<Rightarrow> Quantity option" where
  "quantity_at b side price =
     (if \<not> valid_price (ob_config b) price then Some 0
      else do {
        level \<leftarrow> vec_at (levels b side) (price_index (ob_config b) price);
        Some (pl_total_quantity level)
      })"

definition crosses :: "OrderBook \<Rightarrow> Side \<Rightarrow> Price \<Rightarrow> nat \<Rightarrow> bool" where
  "crosses b aggressor limit opposite_index =
     (if opposite_index = no_price then False
      else let opp = index_price (ob_config b) opposite_index in
        if aggressor = Buy then sint opp \<le> sint limit else sint opp \<ge> sint limit)"

text \<open>
  The inner loops of \<^verbatim>\<open>can_fully_fill\<close>: the next nonempty level above, or below.
  \<open>Some None\<close> is the \<^verbatim>\<open>return false\<close> inside the downward loop.
\<close>

partial_function (option) skip_up :: "PriceLevel list \<Rightarrow> nat \<Rightarrow> nat \<Rightarrow> nat option" where
  [code]: "skip_up ls price_count index =
     (if index < price_count then
        do {
          level \<leftarrow> vec_at ls index;
          if pl_count level = 0 then skip_up ls price_count (index + 1) else Some index
        }
      else Some index)"

partial_function (option) skip_down :: "PriceLevel list \<Rightarrow> nat \<Rightarrow> nat option option" where
  [code]: "skip_down ls index =
     do {
       level \<leftarrow> vec_at ls index;
       if pl_count level = 0 then
         (if index = 0 then Some None else skip_down ls (index - 1))
       else Some (Some index)
     }"

partial_function (option) fill_loop ::
  "OrderBook \<Rightarrow> Side \<Rightarrow> Price \<Rightarrow> Quantity \<Rightarrow> Quantity \<Rightarrow> nat \<Rightarrow> bool option" where
  [code]: "fill_loop b side limit quantity available index =
     (if index \<noteq> no_price \<and> crosses b side limit index then
        do {
          level \<leftarrow> vec_at (levels b (opposite side)) index;
          if pl_total_quantity level \<ge> quantity - available then Some True
          else if side = Buy then
            (if index + 1 \<ge> ob_price_count b then Some False
             else do {
               i \<leftarrow> skip_up (levels b (opposite side)) (ob_price_count b) (index + 1);
               if i \<ge> ob_price_count b then Some False
               else fill_loop b side limit quantity (available + pl_total_quantity level) i
             })
          else
            (if index = 0 then Some False
             else do {
               r \<leftarrow> skip_down (levels b (opposite side)) (index - 1);
               case r of
                 None \<Rightarrow> Some False
               | Some i \<Rightarrow> fill_loop b side limit quantity (available + pl_total_quantity level) i
             })
        }
      else Some False)"

definition can_fully_fill :: "OrderBook \<Rightarrow> Side \<Rightarrow> Price \<Rightarrow> Quantity \<Rightarrow> bool option" where
  "can_fully_fill b side limit quantity =
     fill_loop b side limit quantity 0 (best_index b (opposite side))"

subsection \<open>Events, insertion and removal\<close>

definition make_event :: "EventType \<Rightarrow> Command \<Rightarrow> OrderId \<Rightarrow> Price \<Rightarrow> Quantity \<Rightarrow> RejectReason \<Rightarrow> Event" where
  "make_event type command contra price quantity reason =
     \<lparr>e_sequence = c_sequence command, e_type = type, e_aggressor_side = c_side command,
      e_reason = reason, e_reserved = 0, e_order_id = c_order_id command,
      e_contra_order_id = contra, e_price = price, e_quantity = quantity\<rparr>"

definition emit :: "Event list \<Rightarrow> EventType \<Rightarrow> Command \<Rightarrow> OrderId \<Rightarrow> Price \<Rightarrow> Quantity \<Rightarrow> RejectReason \<Rightarrow>
    Event list" where
  "emit events type command contra price quantity reason =
     events @ [make_event type command contra price quantity reason]"

definition add_resting :: "OrderBook \<Rightarrow> OrderId \<Rightarrow> Side \<Rightarrow> Price \<Rightarrow> Quantity \<Rightarrow> Sequence \<Rightarrow> Event list \<Rightarrow>
    (OrderBook \<times> Event list) option" where
  "add_resting b oid side price quantity priority events =
     do {
       node_index \<leftarrow> vec_back (ob_free_nodes b);
       nodes1 \<leftarrow> vec_set (ob_nodes b) node_index
         \<lparr>on_id = oid, on_price = price, on_remaining = quantity, on_priority = priority,
          on_previous = invalid_node, on_next = invalid_node, on_side = side\<rparr>;
       let level_index = price_index (ob_config b) price;
       level \<leftarrow> vec_at (levels b side) level_index;
       (nodes2, level1) \<leftarrow> link_tail nodes1 level node_index;
       let level2 = level1\<lparr>pl_total_quantity := pl_total_quantity level1 + quantity,
                           pl_count := inc_u32 (pl_count level1)\<rparr>;
       ls \<leftarrow> vec_set (levels b side) level_index level2;
       let b1 = set_levels (b\<lparr>ob_free_nodes := butlast (ob_free_nodes b), ob_nodes := nodes2\<rparr>) side ls;
       b2 \<leftarrow> (if pl_count level2 = 1 then set_active b1 side level_index else Some b1);
       (ok, index) \<leftarrow> fi_insert (ob_order_index b2) oid node_index;
       if \<not> ok then None
       else
         let event_command = \<lparr>c_sequence = priority, c_type = New, c_side = side, c_order_type = Limit,
               c_reserved = 0, c_order_id = oid, c_price = price, c_quantity = quantity\<rparr>
         in Some (b2\<lparr>ob_order_index := index,
                     ob_stats := (ob_stats b2)\<lparr>st_resting_orders := inc_size (st_resting_orders (ob_stats b2))\<rparr>\<rparr>,
                  emit events Rested event_command 0 price quantity NoReason)
     }"

definition remove_node :: "OrderBook \<Rightarrow> nat \<Rightarrow> OrderBook option" where
  "remove_node b node_index =
     do {
       node \<leftarrow> vec_at (ob_nodes b) node_index;
       let level_index = price_index (ob_config b) (on_price node);
       level \<leftarrow> vec_at (levels b (on_side node)) level_index;
       (nodes1, level1) \<leftarrow> unlink (ob_nodes b) level node_index;
       let level2 = level1\<lparr>pl_total_quantity := pl_total_quantity level1 - on_remaining node,
                           pl_count := dec_u32 (pl_count level1)\<rparr>;
       ls \<leftarrow> vec_set (levels b (on_side node)) level_index level2;
       let b1 = set_levels (b\<lparr>ob_nodes := nodes1\<rparr>) (on_side node) ls;
       b2 \<leftarrow> (if pl_count level2 = 0 then clear_active b1 (on_side node) level_index else Some b1);
       (ok, index) \<leftarrow> fi_erase (ob_order_index b2) (on_id node);
       nodes2 \<leftarrow> vec_set (ob_nodes b2) node_index default_node;
       Some (b2\<lparr>ob_order_index := index, ob_nodes := nodes2,
                ob_free_nodes := ob_free_nodes b2 @ [node_index],
                ob_stats := (ob_stats b2)\<lparr>st_resting_orders := dec_size (st_resting_orders (ob_stats b2))\<rparr>\<rparr>)
     }"

subsection \<open>Commands\<close>

text \<open>\<^verbatim>\<open>++stats_.rejected\<close> followed by a rejection event: the shape of every early return.\<close>

definition reject :: "OrderBook \<Rightarrow> Command \<Rightarrow> Event list \<Rightarrow> RejectReason \<Rightarrow> OrderBook \<times> Event list" where
  "reject b command events reason =
     (b\<lparr>ob_stats := (ob_stats b)\<lparr>st_rejected := st_rejected (ob_stats b) + 1\<rparr>\<rparr>,
      emit events Rejected command 0 0 0 reason)"

partial_function (option) match_loop ::
  "OrderBook \<Rightarrow> Command \<Rightarrow> Price \<Rightarrow> Quantity \<Rightarrow> Event list \<Rightarrow> (OrderBook \<times> Quantity \<times> Event list) option"
where
  [code]: "match_loop b command effective_limit remaining events =
     (if remaining > 0 then
        let opposite_side = opposite (c_side command);
            opposite_index = best_index b opposite_side in
        if \<not> crosses b (c_side command) effective_limit opposite_index then Some (b, remaining, events)
        else do {
          level \<leftarrow> vec_at (levels b opposite_side) opposite_index;
          resting \<leftarrow> vec_at (ob_nodes b) (pl_head level);
          let traded = min remaining (on_remaining resting);
          nodes1 \<leftarrow> vec_set (ob_nodes b) (pl_head level)
            (resting\<lparr>on_remaining := on_remaining resting - traded\<rparr>);
          ls \<leftarrow> vec_set (levels b opposite_side) opposite_index
            (level\<lparr>pl_total_quantity := pl_total_quantity level - traded\<rparr>);
          let b1 = (set_levels (b\<lparr>ob_nodes := nodes1\<rparr>) opposite_side ls)
            \<lparr>ob_stats := (ob_stats b)\<lparr>st_trades := st_trades (ob_stats b) + 1\<rparr>\<rparr>;
          b2 \<leftarrow> (if on_remaining resting - traded = 0 then remove_node b1 (pl_head level) else Some b1);
          match_loop b2 command effective_limit (remaining - traded)
            (emit events Trade command (on_id resting) (on_price resting) traded NoReason)
        }
      else Some (b, remaining, events))"

definition effective_limit :: "BookConfig \<Rightarrow> Command \<Rightarrow> Price" where
  "effective_limit config command =
     (if c_order_type command = Market
      then (if c_side command = Buy then maximum_price config else minimum_price config)
      else c_price command)"

definition execute :: "OrderBook \<Rightarrow> Command \<Rightarrow> Event list \<Rightarrow> bool \<Rightarrow> (OrderBook \<times> Event list) option" where
  "execute b command events replacement =
     do {
       let events1 = (if \<not> replacement then emit events Accepted command 0 0 0 NoReason else events);
       (b1, remaining, events2) \<leftarrow>
         match_loop b command (effective_limit (ob_config b) command) (c_quantity command) events1;
       if remaining = 0 then Some (b1, events2)
       else if c_order_type command = Limit then
         add_resting b1 (c_order_id command) (c_side command) (c_price command) remaining
           (c_sequence command) events2
       else Some (b1, emit events2 Cancelled command 0 (c_price command) remaining NoReason)
     }"

definition submit :: "OrderBook \<Rightarrow> Command \<Rightarrow> Event list \<Rightarrow> bool \<Rightarrow> (OrderBook \<times> Event list) option" where
  "submit b command events replacement =
     (if c_quantity command = 0 then Some (reject b command events InvalidQuantity)
      else if c_order_type command \<noteq> Market \<and> \<not> valid_price (ob_config b) (c_price command)
      then Some (reject b command events InvalidPrice)
      else do {
        found \<leftarrow> (if replacement then Some None else fi_find (ob_order_index b) (c_order_id command));
        if found \<noteq> None then Some (reject b command events DuplicateOrderId)
        else do {
          let limit = effective_limit (ob_config b) command;
          fok \<leftarrow> (if c_order_type command = FillOrKill
                 then can_fully_fill b (c_side command) limit (c_quantity command) else Some True);
          if \<not> fok then Some (reject b command events WouldNotFill)
          else do {
            room \<leftarrow> (if ob_free_nodes b = [] \<and> c_order_type command = Limit
                    then can_fully_fill b (c_side command) limit (c_quantity command) else Some True);
            if \<not> room then Some (reject b command events BookCapacity)
            else execute b command events replacement
          }
        }
      })"

definition cancel :: "OrderBook \<Rightarrow> Command \<Rightarrow> Event list \<Rightarrow> bool \<Rightarrow> (OrderBook \<times> Event list) option" where
  "cancel b command events replacing =
     do {
       found \<leftarrow> fi_find (ob_order_index b) (c_order_id command);
       case found of
         None \<Rightarrow> Some (reject b command events UnknownOrderId)
       | Some index \<Rightarrow>
           do {
             node \<leftarrow> vec_at (ob_nodes b) index;
             b1 \<leftarrow> remove_node b index;
             Some (b1, if \<not> replacing
                       then emit events Cancelled command 0 (on_price node) (on_remaining node) NoReason
                       else events)
           }
     }"

definition replace :: "OrderBook \<Rightarrow> Command \<Rightarrow> Event list \<Rightarrow> (OrderBook \<times> Event list) option" where
  "replace b command events =
     do {
       found \<leftarrow> fi_find (ob_order_index b) (c_order_id command);
       case found of
         None \<Rightarrow> Some (reject b command events UnknownOrderId)
       | Some index \<Rightarrow>
           if c_quantity command = 0 \<or> \<not> valid_price (ob_config b) (c_price command)
           then Some (reject b command events
                  (if c_quantity command = 0 then InvalidQuantity else InvalidPrice))
           else do {
             node \<leftarrow> vec_at (ob_nodes b) index;
             (b1, events1) \<leftarrow> cancel b command events True;
             let replacement = command\<lparr>c_side := on_side node, c_order_type := Limit\<rparr>;
             submit b1 replacement
               (emit events1 Replaced replacement 0 (c_price replacement) (c_quantity replacement) NoReason)
               True
           }
     }"

definition process :: "OrderBook \<Rightarrow> Command \<Rightarrow> Event list \<Rightarrow> (OrderBook \<times> Event list) option" where
  "process b command events =
     (if c_sequence command \<noteq> st_last_sequence (ob_stats b) + 1
      then Some (reject b command events SequenceGap)
      else
        let b1 = b\<lparr>ob_stats := (ob_stats b)\<lparr>st_last_sequence := c_sequence command,
                     st_commands := st_commands (ob_stats b) + 1\<rparr>\<rparr> in
        case c_type command of
          New \<Rightarrow> submit b1 command events False
        | Cancel \<Rightarrow> cancel b1 command events False
        | Replace \<Rightarrow> replace b1 command events)"

subsection \<open>Snapshot support\<close>

partial_function (option) walk :: "OrderNode list \<Rightarrow> nat \<Rightarrow> RestingOrder list \<Rightarrow> RestingOrder list option" where
  [code]: "walk nodes node result =
     (if node \<noteq> invalid_node then
        do {
          order \<leftarrow> vec_at nodes node;
          walk nodes (on_next order) (result @ [resting_of order])
        }
      else Some result)"

fun collect :: "OrderBook \<Rightarrow> (nat \<times> Side) list \<Rightarrow> RestingOrder list \<Rightarrow> RestingOrder list option" where
  "collect b [] result = Some result"
| "collect b ((price, side) # rest) result =
     do {
       level \<leftarrow> vec_at (levels b side) price;
       result1 \<leftarrow> walk (ob_nodes b) (pl_head level) result;
       collect b rest result1
     }"

definition resting_orders :: "OrderBook \<Rightarrow> RestingOrder list option" where
  "resting_orders b =
     collect b (concat (map (\<lambda>price. [(price, Buy), (price, Sell)]) [0..<ob_price_count b])) []"

fun restore_loop :: "OrderBook \<Rightarrow> Sequence \<Rightarrow> RestingOrder list \<Rightarrow> Event list \<Rightarrow> exn + OrderBook" where
  "restore_loop b last_sequence [] ignored = Inr b"
| "restore_loop b last_sequence (order # rest) ignored =
     (case fi_find (ob_order_index b) (ro_order_id order) of
        None \<Rightarrow> Inl Abnormal
      | Some found \<Rightarrow>
          if \<not> valid_price (ob_config b) (ro_price order) \<or> ro_quantity order = 0 \<or>
             ro_priority order > last_sequence \<or> found \<noteq> None
          then Inl RuntimeError
          else
            (case add_resting b (ro_order_id order) (ro_side order) (ro_price order) (ro_quantity order)
                    (ro_priority order) ignored of
               None \<Rightarrow> Inl Abnormal
             | Some (b1, ignored1) \<Rightarrow> restore_loop b1 last_sequence rest ignored1))"

definition restore :: "OrderBook \<Rightarrow> Sequence \<Rightarrow> RestingOrder list \<Rightarrow> exn + OrderBook" where
  "restore b last_sequence orders =
     (if st_resting_orders (ob_stats b) \<noteq> 0 \<or> st_last_sequence (ob_stats b) \<noteq> 0 \<or>
         length orders > maximum_orders (ob_config b)
      then Inl LogicError
      else
        (case restore_loop b last_sequence (sort_key ro_priority orders) [] of
           Inl e \<Rightarrow> Inl e
         | Inr b1 \<Rightarrow> Inr (b1\<lparr>ob_stats := (ob_stats b1)\<lparr>st_last_sequence := last_sequence\<rparr>\<rparr>)))"

end
