(* ===== verification/Book_Spec.thy ===== *)
theory Book_Spec
  imports Order_Book
begin

text \<open>
  The abstract price-time book that the matching engine promises to implement
  (\<^verbatim>\<open>docs/DESIGN.md\<close>, sections 5 and 6).  Each side is one list of resting orders in
  matching priority: asks by ascending price, bids by descending price, and within
  a price by time of arrival.  Matching consumes the list from the front, resting
  inserts behind all orders of an equal or better price, cancelling filters by
  identifier.  None of the engine's data structures appears here.
\<close>

record SpecBook =
  sb_bids :: "RestingOrder list"
  sb_asks :: "RestingOrder list"
  sb_last_sequence :: Sequence

definition sb_side :: "SpecBook \<Rightarrow> Side \<Rightarrow> RestingOrder list" where
  "sb_side A side = (if side = Buy then sb_bids A else sb_asks A)"

definition sb_set_side :: "SpecBook \<Rightarrow> Side \<Rightarrow> RestingOrder list \<Rightarrow> SpecBook" where
  "sb_set_side A side os = (if side = Buy then A\<lparr>sb_bids := os\<rparr> else A\<lparr>sb_asks := os\<rparr>)"

definition spec_crosses :: "Side \<Rightarrow> Price \<Rightarrow> Price \<Rightarrow> bool" where
  "spec_crosses aggressor limit price =
     (if aggressor = Buy then sint price \<le> sint limit else sint price \<ge> sint limit)"

text \<open>\<open>p\<close> is at least as good a price as \<open>p'\<close> for a resting order of the side.\<close>

definition as_good :: "Side \<Rightarrow> Price \<Rightarrow> Price \<Rightarrow> bool" where
  "as_good side p p' = (if side = Buy then sint p \<ge> sint p' else sint p \<le> sint p')"

fun spec_match :: "Command \<Rightarrow> Price \<Rightarrow> Quantity \<Rightarrow> RestingOrder list \<Rightarrow>
    Event list \<times> Quantity \<times> RestingOrder list" where
  "spec_match command limit remaining [] = ([], remaining, [])"
| "spec_match command limit remaining (ro # os) =
     (if remaining = 0 \<or> \<not> spec_crosses (c_side command) limit (ro_price ro)
      then ([], remaining, ro # os)
      else
        let traded = min remaining (ro_quantity ro);
            event = make_event Trade command (ro_order_id ro) (ro_price ro) traded NoReason in
        if traded = ro_quantity ro
        then (let (es, r, os') = spec_match command limit (remaining - traded) os in (event # es, r, os'))
        else ([event], 0, ro\<lparr>ro_quantity := ro_quantity ro - traded\<rparr> # os))"

definition spec_available :: "Side \<Rightarrow> Price \<Rightarrow> RestingOrder list \<Rightarrow> nat" where
  "spec_available side limit os =
     sum_list (map (\<lambda>ro. unat (ro_quantity ro)) (takeWhile (\<lambda>ro. spec_crosses side limit (ro_price ro)) os))"

fun spec_insert :: "Side \<Rightarrow> RestingOrder \<Rightarrow> RestingOrder list \<Rightarrow> RestingOrder list" where
  "spec_insert side ro [] = [ro]"
| "spec_insert side ro (x # xs) =
     (if as_good side (ro_price x) (ro_price ro) then x # spec_insert side ro xs else ro # x # xs)"

definition spec_find :: "SpecBook \<Rightarrow> OrderId \<Rightarrow> RestingOrder option" where
  "spec_find A oid = find (\<lambda>ro. ro_order_id ro = oid) (sb_bids A @ sb_asks A)"

definition spec_remove :: "SpecBook \<Rightarrow> OrderId \<Rightarrow> SpecBook" where
  "spec_remove A oid =
     A\<lparr>sb_bids := filter (\<lambda>ro. ro_order_id ro \<noteq> oid) (sb_bids A),
       sb_asks := filter (\<lambda>ro. ro_order_id ro \<noteq> oid) (sb_asks A)\<rparr>"

definition spec_size :: "SpecBook \<Rightarrow> nat" where
  "spec_size A = length (sb_bids A) + length (sb_asks A)"

definition spec_reject :: "SpecBook \<Rightarrow> Command \<Rightarrow> RejectReason \<Rightarrow> SpecBook \<times> Event list" where
  "spec_reject A command reason = (A, [make_event Rejected command 0 0 0 reason])"

definition spec_execute :: "BookConfig \<Rightarrow> SpecBook \<Rightarrow> Command \<Rightarrow> bool \<Rightarrow> SpecBook \<times> Event list" where
  "spec_execute config A command replacement =
     (let (es, remaining, os) = spec_match command (effective_limit config command) (c_quantity command)
                                  (sb_side A (opposite (c_side command)));
          A1 = sb_set_side A (opposite (c_side command)) os;
          accepted = (if replacement then [] else [make_event Accepted command 0 0 0 NoReason]) in
      if remaining = 0 then (A1, accepted @ es)
      else if c_order_type command = Limit then
        (sb_set_side A1 (c_side command)
           (spec_insert (c_side command)
              \<lparr>ro_order_id = c_order_id command, ro_side = c_side command, ro_price = c_price command,
               ro_quantity = remaining, ro_priority = c_sequence command\<rparr>
              (sb_side A1 (c_side command))),
         accepted @ es @ [make_event Rested command 0 (c_price command) remaining NoReason])
      else (A1, accepted @ es @ [make_event Cancelled command 0 (c_price command) remaining NoReason]))"

definition spec_fillable :: "BookConfig \<Rightarrow> SpecBook \<Rightarrow> Command \<Rightarrow> bool" where
  "spec_fillable config A command \<longleftrightarrow>
     unat (c_quantity command) \<le>
       spec_available (c_side command) (effective_limit config command) (sb_side A (opposite (c_side command)))"

text \<open>
  \<open>fill A command\<close> decides whether the book can fill the command at once.  The
  specification proper uses \<open>spec_fillable\<close>, the sum over the acceptable orders; the
  parameter lets the refinement speak of the engine's own decision, which adds up the
  64-bit level aggregates.
\<close>

definition spec_submit :: "(SpecBook \<Rightarrow> Command \<Rightarrow> bool) \<Rightarrow> BookConfig \<Rightarrow> SpecBook \<Rightarrow> Command \<Rightarrow> bool \<Rightarrow>
    SpecBook \<times> Event list" where
  "spec_submit fill config A command replacement =
     (if c_quantity command = 0 then spec_reject A command InvalidQuantity
      else if c_order_type command \<noteq> Market \<and> \<not> valid_price config (c_price command)
      then spec_reject A command InvalidPrice
      else if \<not> replacement \<and> spec_find A (c_order_id command) \<noteq> None
      then spec_reject A command DuplicateOrderId
      else if c_order_type command = FillOrKill \<and> \<not> fill A command
      then spec_reject A command WouldNotFill
      else if spec_size A = maximum_orders config \<and> c_order_type command = Limit \<and> \<not> fill A command
      then spec_reject A command BookCapacity
      else spec_execute config A command replacement)"

definition spec_cancel :: "SpecBook \<Rightarrow> Command \<Rightarrow> SpecBook \<times> Event list" where
  "spec_cancel A command =
     (case spec_find A (c_order_id command) of
        None \<Rightarrow> spec_reject A command UnknownOrderId
      | Some ro \<Rightarrow> (spec_remove A (c_order_id command),
                  [make_event Cancelled command 0 (ro_price ro) (ro_quantity ro) NoReason]))"

definition spec_replace :: "(SpecBook \<Rightarrow> Command \<Rightarrow> bool) \<Rightarrow> BookConfig \<Rightarrow> SpecBook \<Rightarrow> Command \<Rightarrow>
    SpecBook \<times> Event list" where
  "spec_replace fill config A command =
     (case spec_find A (c_order_id command) of
        None \<Rightarrow> spec_reject A command UnknownOrderId
      | Some ro \<Rightarrow>
          if c_quantity command = 0 then spec_reject A command InvalidQuantity
          else if \<not> valid_price config (c_price command) then spec_reject A command InvalidPrice
          else
            let replacement = command\<lparr>c_side := ro_side ro, c_order_type := Limit\<rparr>;
                (A1, es) = spec_submit fill config (spec_remove A (c_order_id command)) replacement True in
            (A1, make_event Replaced replacement 0 (c_price replacement) (c_quantity replacement) NoReason # es))"

definition spec_process_with :: "(SpecBook \<Rightarrow> Command \<Rightarrow> bool) \<Rightarrow> BookConfig \<Rightarrow> SpecBook \<Rightarrow> Command \<Rightarrow>
    SpecBook \<times> Event list" where
  "spec_process_with fill config A command =
     (if c_sequence command \<noteq> sb_last_sequence A + 1 then spec_reject A command SequenceGap
      else
        let A1 = A\<lparr>sb_last_sequence := c_sequence command\<rparr> in
        case c_type command of
          New \<Rightarrow> spec_submit fill config A1 command False
        | Cancel \<Rightarrow> spec_cancel A1 command
        | Replace \<Rightarrow> spec_replace fill config A1 command)"

definition spec_process :: "BookConfig \<Rightarrow> SpecBook \<Rightarrow> Command \<Rightarrow> SpecBook \<times> Event list" where
  "spec_process config = spec_process_with (spec_fillable config) config"

end
