(* ===== verification/Book_Rep.thy ===== *)
theory Book_Rep
  imports Book_Spec
begin

text \<open>
  The representation invariant of the order book and how the two primitive updates,
  \<open>add_resting\<close> and \<open>remove_node\<close>, act on the represented queues.  A ghost value gives,
  for every side and ladder index, the list of arena indices queued there; the
  invariant ties the arena links, the level aggregates, the bitmaps, the free list, the
  order index and the resting counter to it.
\<close>

subsection \<open>Field access\<close>

lemma levels_set_levels [simp]: "levels (set_levels b s ls) t = (if t = s then ls else levels b t)"
  by (cases s; cases t) (simp_all add: levels_def set_levels_def)

lemma bits_set_levels [simp]: "bits (set_levels b s ls) t = bits b t"
  by (simp add: bits_def set_levels_def)

lemma bits_set_bits [simp]: "bits (set_bits b s ws) t = (if t = s then ws else bits b t)"
  by (cases s; cases t) (simp_all add: bits_def set_bits_def)

lemma levels_set_bits [simp]: "levels (set_bits b s ws) t = levels b t"
  by (simp add: levels_def set_bits_def)

lemma set_levels_fields [simp]:
  "ob_config (set_levels b s ls) = ob_config b"
  "ob_price_count (set_levels b s ls) = ob_price_count b"
  "ob_nodes (set_levels b s ls) = ob_nodes b"
  "ob_free_nodes (set_levels b s ls) = ob_free_nodes b"
  "ob_order_index (set_levels b s ls) = ob_order_index b"
  "ob_stats (set_levels b s ls) = ob_stats b"
  by (simp_all add: set_levels_def)

lemma set_bits_fields [simp]:
  "ob_config (set_bits b s ws) = ob_config b"
  "ob_price_count (set_bits b s ws) = ob_price_count b"
  "ob_nodes (set_bits b s ws) = ob_nodes b"
  "ob_free_nodes (set_bits b s ws) = ob_free_nodes b"
  "ob_order_index (set_bits b s ws) = ob_order_index b"
  "ob_stats (set_bits b s ws) = ob_stats b"
  by (simp_all add: set_bits_def)

lemma levels_update [simp]:
  "levels (b\<lparr>ob_nodes := ns\<rparr>) s = levels b s"
  "levels (b\<lparr>ob_free_nodes := fs\<rparr>) s = levels b s"
  "levels (b\<lparr>ob_order_index := ix\<rparr>) s = levels b s"
  "levels (b\<lparr>ob_stats := st\<rparr>) s = levels b s"
  by (simp_all add: levels_def)

lemma bits_update [simp]:
  "bits (b\<lparr>ob_nodes := ns\<rparr>) s = bits b s"
  "bits (b\<lparr>ob_free_nodes := fs\<rparr>) s = bits b s"
  "bits (b\<lparr>ob_order_index := ix\<rparr>) s = bits b s"
  "bits (b\<lparr>ob_stats := st\<rparr>) s = bits b s"
  by (simp_all add: bits_def)

subsection \<open>The representation relation\<close>

text \<open>
  \<open>book_rep b q\<close>: the arena, the ladders, the bitmaps, the free list and the index of
  the book \<open>b\<close> represent the queues \<open>q\<close>, where \<open>q s i\<close> lists the arena indices at
  level \<open>i\<close> of side \<open>s\<close> from first to last.  These are the book invariants 1 to 7 of
  \<^verbatim>\<open>docs/DESIGN.md\<close>; the aggregate quantity is the sum modulo \<open>2 ^ 64\<close>.
\<close>

type_synonym queues = "Side \<Rightarrow> nat \<Rightarrow> nat list"

definition live :: "queues \<Rightarrow> nat set" where
  "live q = {x. \<exists>s i. x \<in> set (q s i)}"

definition level_rep :: "OrderNode list \<Rightarrow> PriceLevel \<Rightarrow> nat list \<Rightarrow> bool" where
  "level_rep ns level xs \<longleftrightarrow>
     fifo ns level xs \<and> pl_count level = length xs \<and>
     pl_total_quantity level = sum_list (map (\<lambda>x. on_remaining (ns ! x)) xs)"

definition queues_rep :: "OrderNode list \<Rightarrow> (Side \<Rightarrow> PriceLevel list) \<Rightarrow> nat \<Rightarrow> queues \<Rightarrow> bool" where
  "queues_rep ns lv P q \<longleftrightarrow>
     (\<forall>s i. if i < P then level_rep ns (lv s ! i) (q s i) else q s i = [])"

definition placed :: "OrderNode list \<Rightarrow> BookConfig \<Rightarrow> queues \<Rightarrow> bool" where
  "placed ns cfg q \<longleftrightarrow>
     (\<forall>s i x. x \<in> set (q s i) \<longrightarrow> on_side (ns ! x) = s \<and> on_price (ns ! x) = index_price cfg i)"

definition bits_rep :: "(Side \<Rightarrow> u64 list) \<Rightarrow> queues \<Rightarrow> bool" where
  "bits_rep bs q \<longleftrightarrow> (\<forall>s i. active (bs s) i \<longleftrightarrow> q s i \<noteq> [])"

definition free_rep :: "nat \<Rightarrow> nat list \<Rightarrow> queues \<Rightarrow> bool" where
  "free_rep N free q \<longleftrightarrow> distinct free \<and> set free = {..<N} - live q \<and> live q \<subseteq> {..<N}"

definition index_rep :: "OrderNode list \<Rightarrow> FixedOrderIndex \<Rightarrow> nat \<Rightarrow> queues \<Rightarrow> bool" where
  "index_rep ns ix N q \<longleftrightarrow>
     fi_invar ix \<and> N \<le> fi_room ix \<and>
     (\<forall>k x. fi_map ix k = Some x \<longleftrightarrow> x \<in> live q \<and> on_id (ns ! x) = k)"

definition geometry :: "OrderBook \<Rightarrow> bool" where
  "geometry b \<longleftrightarrow>
     checked_price_count (ob_config b) = Inr (ob_price_count b) \<and>
     (\<forall>s. length (levels b s) = ob_price_count b \<and>
          length (bits b s) = (ob_price_count b + 63) div 64) \<and>
     length (ob_nodes b) = maximum_orders (ob_config b)"

definition book_rep :: "OrderBook \<Rightarrow> queues \<Rightarrow> bool" where
  "book_rep b q \<longleftrightarrow>
     geometry b \<and>
     queues_rep (ob_nodes b) (levels b) (ob_price_count b) q \<and>
     placed (ob_nodes b) (ob_config b) q \<and>
     bits_rep (bits b) q \<and>
     free_rep (maximum_orders (ob_config b)) (ob_free_nodes b) q \<and>
     index_rep (ob_nodes b) (ob_order_index b) (maximum_orders (ob_config b)) q \<and>
     st_resting_orders (ob_stats b) = card (live q)"

text \<open>No resting order is empty.\<close>

definition positive :: "OrderBook \<Rightarrow> queues \<Rightarrow> bool" where
  "positive b q \<longleftrightarrow> (\<forall>x \<in> live q. on_remaining (ob_nodes b ! x) \<noteq> 0)"

definition upd_q :: "queues \<Rightarrow> Side \<Rightarrow> nat \<Rightarrow> nat list \<Rightarrow> queues" where
  "upd_q q s i xs = q(s := (q s)(i := xs))"

lemma upd_q_apply [simp]: "upd_q q s i xs t j = (if t = s \<and> j = i then xs else q t j)"
  by (simp add: upd_q_def)

lemma in_liveI: "x \<in> set (q s i) \<Longrightarrow> x \<in> live q"
  by (auto simp: live_def)

lemma book_repD:
  assumes "book_rep b q"
  shows "checked_price_count (ob_config b) = Inr (ob_price_count b)"
    "length (levels b s) = ob_price_count b"
    "length (bits b s) = (ob_price_count b + 63) div 64"
    "length (ob_nodes b) = maximum_orders (ob_config b)"
    "active (bits b s) i \<longleftrightarrow> q s i \<noteq> []"
    "x \<in> set (q s i) \<Longrightarrow> on_side (ob_nodes b ! x) = s \<and> on_price (ob_nodes b ! x) = index_price (ob_config b) i"
    "fi_map (ob_order_index b) k = Some x \<longleftrightarrow> x \<in> live q \<and> on_id (ob_nodes b ! x) = k"
    "fi_invar (ob_order_index b)"
    "st_resting_orders (ob_stats b) = card (live q)"
  using assms
  by (auto simp: book_rep_def geometry_def bits_rep_def placed_def index_rep_def)

lemma level_repD:
  assumes "book_rep b q" "q s i \<noteq> [] \<or> i < ob_price_count b"
  shows "i < ob_price_count b" "level_rep (ob_nodes b) (levels b s ! i) (q s i)"
  using assms by (auto simp: book_rep_def queues_rep_def split: if_splits)

lemma in_queueD:
  assumes "book_rep b q" "x \<in> set (q s i)"
  shows "i < ob_price_count b" "level_rep (ob_nodes b) (levels b s ! i) (q s i)" "distinct (q s i)"
proof -
  have "q s i \<noteq> []" using assms(2) by auto
  then show "i < ob_price_count b" "level_rep (ob_nodes b) (levels b s ! i) (q s i)"
    using level_repD [OF assms(1)] by auto
  then show "distinct (q s i)" by (simp add: level_rep_def fifo_def)
qed

lemma live_less:
  assumes "book_rep b q" "x \<in> live q"
  shows "x < length (ob_nodes b)" "x \<noteq> invalid_node"
proof -
  obtain s i where x: "x \<in> set (q s i)" using assms(2) by (auto simp: live_def)
  then have "q s i \<noteq> []" by auto
  then have "fifo (ob_nodes b) (levels b s ! i) (q s i)"
    using level_repD [OF assms(1)] by (simp add: level_rep_def)
  then show "x < length (ob_nodes b)" "x \<noteq> invalid_node"
    using dseg_less x unfolding fifo_def by blast+
qed

lemma live_subset: "book_rep b q \<Longrightarrow> live q \<subseteq> {..<maximum_orders (ob_config b)}"
  using live_less book_repD(4) by fastforce

lemma finite_live: "book_rep b q \<Longrightarrow> finite (live q)"
  using live_subset finite_subset by blast

lemma queues_disjoint:
  assumes "book_rep b q" "x \<in> set (q s i)" "x \<in> set (q t j)"
  shows "s = t \<and> i = j"
proof -
  have "i < ob_price_count b" "j < ob_price_count b"
    using assms level_repD(1) [OF assms(1)] by (metis empty_iff list.set(1))+
  moreover have "on_side (ob_nodes b ! x) = s" "on_side (ob_nodes b ! x) = t"
    "index_price (ob_config b) i = index_price (ob_config b) j"
    using book_repD(6) [OF assms(1)] assms(2,3) by metis+
  ultimately show ?thesis
    using price_index_index_price [OF book_repD(1) [OF assms(1)]] by metis
qed

lemma card_live_free:
  assumes "book_rep b q"
  shows "card (live q) + length (ob_free_nodes b) = maximum_orders (ob_config b)"
proof -
  let ?N = "maximum_orders (ob_config b)"
  have f: "distinct (ob_free_nodes b)" "set (ob_free_nodes b) = {..<?N} - live q"
    using assms by (auto simp: book_rep_def free_rep_def)
  have "card ({..<?N} - live q) = ?N - card (live q)"
    using live_subset [OF assms] finite_live [OF assms] by (simp add: card_Diff_subset)
  moreover have "card (live q) \<le> ?N" using card_mono [OF _ live_subset [OF assms]] by simp
  ultimately show ?thesis using f distinct_card [OF f(1)] by simp
qed

lemma queue_length_le:
  assumes "book_rep b q"
  shows "length (q s i) \<le> card (live q)"
proof (cases "q s i = []")
  case False
  then have "distinct (q s i)"
    using level_repD(2) [OF assms] by (auto simp: level_rep_def fifo_def)
  then have "length (q s i) = card (set (q s i))" by (simp add: distinct_card)
  also have "\<dots> \<le> card (live q)"
    using finite_live [OF assms] by (intro card_mono) (auto intro: in_liveI)
  finally show ?thesis .
qed simp

lemma max_orders_less: "book_rep b q \<Longrightarrow> maximum_orders (ob_config b) < 2 ^ 32"
  using checked_price_countD(7) book_repD(1) by blast

lemma index_of_level:
  assumes "book_rep b q" "x \<in> set (q s i)"
  shows "i < ob_price_count b" "price_index (ob_config b) (on_price (ob_nodes b ! x)) = i"
    "i div 64 < length (bits b s)"
proof -
  show i: "i < ob_price_count b" using in_queueD(1) [OF assms] .
  then show "price_index (ob_config b) (on_price (ob_nodes b ! x)) = i"
    using book_repD(6) [OF assms] price_index_index_price [OF book_repD(1) [OF assms(1)]] by simp
  show "i div 64 < length (bits b s)" using i book_repD(3) [OF assms(1), of s] by simp
qed

lemma live_upd_remove:
  assumes "book_rep b q" "q s i = ys @ x # zs"
  shows "live (upd_q q s i (ys @ zs)) = live q - {x}"
proof -
  have x: "x \<in> set (q s i)" using assms(2) by simp
  have "distinct (q s i)" using in_queueD(3) [OF assms(1) x] .
  then have "x \<notin> set ys" "x \<notin> set zs" using assms(2) by auto
  moreover have "x \<in> set (q t j) \<Longrightarrow> t = s \<and> j = i" for t j
    using queues_disjoint [OF assms(1) x] by blast
  ultimately show ?thesis
    using assms(2) by (auto simp: live_def split: if_splits) (metis Un_iff list.set_intros(2) set_append set_ConsD)+
qed

subsection \<open>Frame lemmas\<close>

lemma set_bits_same [simp]: "set_bits b s (bits b s) = b"
  by (cases s) (simp_all add: set_bits_def bits_def)

lemma upd_q_same [simp]: "upd_q q s i (q s i) = q"
  by (auto simp: fun_eq_iff)

lemma on_fields_resting:
  assumes "resting_of n' = resting_of n"
  shows "on_id n' = on_id n" "on_side n' = on_side n" "on_price n' = on_price n"
    "on_remaining n' = on_remaining n" "on_priority n' = on_priority n"
  using assms by (auto simp: resting_of_def)

lemma level_rep_cong:
  assumes "length ns' = length ns" "\<And>x. x \<in> set xs \<Longrightarrow> ns' ! x = ns ! x"
  shows "level_rep ns' level xs = level_rep ns level xs"
  using assms fifo_cong [of ns' ns xs level level] by (simp add: level_rep_def cong: map_cong)

lemma queues_rep_upd:
  assumes "queues_rep ns lv P q" "i < P" "length ns' = length ns"
    and "level_rep ns' level xs"
    and "\<And>y t j. y \<in> set (q t j) \<Longrightarrow> (t, j) \<noteq> (s, i) \<Longrightarrow> ns' ! y = ns ! y"
    and "\<And>t j. j < P \<Longrightarrow> lv' t ! j = (if t = s \<and> j = i then level else lv t ! j)"
  shows "queues_rep ns' lv' P (upd_q q s i xs)"
  unfolding queues_rep_def
proof (intro allI)
  fix t j
  show "if j < P then level_rep ns' (lv' t ! j) (upd_q q s i xs t j) else upd_q q s i xs t j = []"
  proof (cases "(t, j) = (s, i)")
    case True
    then show ?thesis using assms(2,4,6) by simp
  next
    case False
    then have "level_rep ns' (lv t ! j) (q t j) = level_rep ns (lv t ! j) (q t j)"
      using assms(3,5) by (intro level_rep_cong) auto
    then show ?thesis using False assms(1,6) by (auto simp: queues_rep_def)
  qed
qed

lemma bits_rep_upd:
  assumes "bits_rep bs q" "\<And>t. t \<noteq> s \<Longrightarrow> bs' t = bs t"
    and "\<And>j. active (bs' s) j \<longleftrightarrow> (if j = i then xs \<noteq> [] else active (bs s) j)"
  shows "bits_rep bs' (upd_q q s i xs)"
  unfolding bits_rep_def
proof (intro allI)
  fix t j
  show "active (bs' t) j \<longleftrightarrow> upd_q q s i xs t j \<noteq> []"
    using assms by (cases "t = s") (auto simp: bits_rep_def)
qed

text \<open>
  One level of one side changes: what has to be shown for the invariant to hold again.
\<close>

lemma book_rep_updI:
  assumes rep: "book_rep b q" and i: "i < ob_price_count b"
    and cfg: "ob_config b' = ob_config b" "ob_price_count b' = ob_price_count b"
    and lv: "\<And>t. levels b' t = (if t = s then (levels b s)[i := level] else levels b t)"
    and bits: "\<And>t. t \<noteq> s \<Longrightarrow> bits b' t = bits b t" "length (bits b' s) = length (bits b s)"
      "\<And>j. active (bits b' s) j \<longleftrightarrow> (if j = i then xs \<noteq> [] else active (bits b s) j)"
    and nodes: "length (ob_nodes b') = length (ob_nodes b)" "level_rep (ob_nodes b') level xs"
      "\<And>y t j. y \<in> set (q t j) \<Longrightarrow> (t, j) \<noteq> (s, i) \<Longrightarrow> ob_nodes b' ! y = ob_nodes b ! y"
      "\<And>y. y \<in> set xs \<Longrightarrow> on_side (ob_nodes b' ! y) = s \<and> on_price (ob_nodes b' ! y) = index_price (ob_config b) i"
    and free: "free_rep (maximum_orders (ob_config b)) (ob_free_nodes b') (upd_q q s i xs)"
    and index: "index_rep (ob_nodes b') (ob_order_index b') (maximum_orders (ob_config b)) (upd_q q s i xs)"
    and count: "st_resting_orders (ob_stats b') = card (live (upd_q q s i xs))"
  shows "book_rep b' (upd_q q s i xs)"
proof -
  have old: "geometry b" "queues_rep (ob_nodes b) (levels b) (ob_price_count b) q"
    "placed (ob_nodes b) (ob_config b) q" "bits_rep (bits b) q"
    using rep by (simp_all add: book_rep_def)
  have len: "length (levels b s) = ob_price_count b" using book_repD(2) [OF rep] .
  have "geometry b'"
    using old(1) cfg lv bits(1,2) nodes(1) by (auto simp: geometry_def)
  moreover have "queues_rep (ob_nodes b') (levels b') (ob_price_count b') (upd_q q s i xs)"
  proof -
    have eq: "levels b' t ! j = (if t = s \<and> j = i then level else levels b t ! j)" for t j
      by (simp add: lv i len nth_upd)
    show ?thesis
      unfolding cfg(2) by (rule queues_rep_upd [OF old(2) i nodes(1,2)]) (erule (1) nodes(3), rule eq)
  qed
  moreover have "placed (ob_nodes b') (ob_config b') (upd_q q s i xs)"
    unfolding placed_def cfg(1)
  proof (intro allI impI)
    fix t j y assume y: "y \<in> set (upd_q q s i xs t j)"
    show "on_side (ob_nodes b' ! y) = t \<and> on_price (ob_nodes b' ! y) = index_price (ob_config b) j"
    proof (cases "(t, j) = (s, i)")
      case True
      then show ?thesis using nodes(4) y by simp
    next
      case False
      then have "y \<in> set (q t j)" using y by auto
      then show ?thesis using nodes(3) [OF _ False] book_repD(6) [OF rep] by simp
    qed
  qed
  moreover have "bits_rep (bits b') (upd_q q s i xs)"
    by (rule bits_rep_upd [OF old(4) bits(1,3)])
  ultimately show ?thesis using free index count cfg by (simp add: book_rep_def)
qed

subsection \<open>Removing a node\<close>

lemma clear_active_if:
  assumes "i div 64 < length (bits b s)" "active (bits b s) i"
  shows "\<exists>ws. (if c then clear_active b s i else Some b) = Some (set_bits b s ws) \<and>
    length ws = length (bits b s) \<and> (\<forall>j. active ws j \<longleftrightarrow> (if j = i then \<not> c else active (bits b s) j))"
proof (cases c)
  case True
  then show ?thesis using active_bits_clear [OF assms(1)] by (auto simp: clear_active_def)
next
  case False
  then show ?thesis using assms(2) by (intro exI [of _ "bits b s"]) auto
qed

lemma index_rep_remove:
  assumes "book_rep b q" "x \<in> live q" "live q' = live q - {x}"
    and "\<And>y. y \<in> live q - {x} \<Longrightarrow> on_id (ns' ! y) = on_id (ob_nodes b ! y)"
    and "fi_invar ix'" "fi_map ix' = (fi_map (ob_order_index b))(on_id (ob_nodes b ! x) := None)"
    and "fi_room ix' = fi_room (ob_order_index b)"
  shows "index_rep ns' ix' (maximum_orders (ob_config b)) q'"
proof -
  have old: "fi_map (ob_order_index b) k = Some y \<longleftrightarrow> y \<in> live q \<and> on_id (ob_nodes b ! y) = k" for k y
    using book_repD(7) [OF assms(1)] .
  have "fi_map ix' k = Some y \<longleftrightarrow> y \<in> live q' \<and> on_id (ns' ! y) = k" for k y
  proof (cases "y \<in> live q - {x}")
    case True
    then have "on_id (ob_nodes b ! y) \<noteq> on_id (ob_nodes b ! x)"
      using old [of "on_id (ob_nodes b ! x)" x] old [of "on_id (ob_nodes b ! x)" y] assms(2) by auto
    then show ?thesis using True old [of k y] assms(3,4,6) by auto
  next
    case False
    then show ?thesis using old [of k y] assms(2,3,6) by auto
  qed
  moreover have "maximum_orders (ob_config b) \<le> fi_room (ob_order_index b)"
    using assms(1) by (simp add: book_rep_def index_rep_def)
  ultimately show ?thesis using assms(5,7) by (simp add: index_rep_def)
qed

lemma free_rep_remove:
  assumes "book_rep b q" "x \<in> live q" "live q' = live q - {x}"
  shows "free_rep (maximum_orders (ob_config b)) (ob_free_nodes b @ [x]) q'"
  using assms live_subset [OF assms(1)] by (auto simp: book_rep_def free_rep_def)

lemma dec_size_card:
  assumes "book_rep b q" "x \<in> live q"
  shows "dec_size (card (live q)) = card (live q) - 1"
proof -
  have "card (live q) \<noteq> 0" using assms finite_live by (auto simp: card_eq_0_iff)
  moreover have "card (live q) \<le> maximum_orders (ob_config b)" using card_live_free [OF assms(1)] by simp
  ultimately show ?thesis using max_orders_less [OF assms(1)] by (cases "card (live q)") auto
qed

text \<open>What \<open>remove_node\<close> computes, field by field.\<close>

lemma remove_node_run:
  assumes rep: "book_rep b q" and qi: "q s i = ys @ x # zs"
  shows "\<exists>ns1 lv ws ix'. remove_node b x = Some ((set_bits (set_levels b s ((levels b s)[i := lv])) s ws)
      \<lparr>ob_order_index := ix', ob_nodes := ns1[x := default_node], ob_free_nodes := ob_free_nodes b @ [x],
       ob_stats := (ob_stats b)\<lparr>st_resting_orders := dec_size (st_resting_orders (ob_stats b))\<rparr>\<rparr>) \<and>
    length ns1 = length (ob_nodes b) \<and> fifo ns1 lv (ys @ zs) \<and>
    (\<forall>y. resting_of (ns1 ! y) = resting_of (ob_nodes b ! y)) \<and>
    (\<forall>y. y \<notin> set (ys @ zs) \<longrightarrow> ns1 ! y = ob_nodes b ! y) \<and>
    pl_count lv = length (ys @ zs) \<and>
    pl_total_quantity lv = pl_total_quantity (levels b s ! i) - on_remaining (ob_nodes b ! x) \<and>
    length ws = length (bits b s) \<and>
    (\<forall>j. active ws j \<longleftrightarrow> (if j = i then ys @ zs \<noteq> [] else active (bits b s) j)) \<and>
    fi_invar ix' \<and> fi_map ix' = (fi_map (ob_order_index b))(on_id (ob_nodes b ! x) := None) \<and>
    fi_room ix' = fi_room (ob_order_index b)"
proof -
  let ?node = "ob_nodes b ! x"
  have x: "x \<in> set (q s i)" using qi by simp
  then have lx: "x \<in> live q" by (rule in_liveI)
  note ix = index_of_level [OF rep x] and inq = in_queueD [OF rep x]
  have xN: "x < length (ob_nodes b)" "i < length (levels b s)" "on_side ?node = s"
    using live_less(1) [OF rep lx] ix(1) book_repD(2) [OF rep] book_repD(6) [OF rep x] by auto
  have lv: "fifo (ob_nodes b) (levels b s ! i) (ys @ x # zs)"
    "pl_count (levels b s ! i) = Suc (length (ys @ zs))"
    using inq(2) qi by (auto simp: level_rep_def)
  obtain ns1 lv1 where un: "unlink (ob_nodes b) (levels b s ! i) x = Some (ns1, lv1)"
    "length ns1 = length (ob_nodes b)" "fifo ns1 lv1 (ys @ zs)"
    "\<And>j. resting_of (ns1 ! j) = resting_of (ob_nodes b ! j)"
    "\<And>j. j \<notin> set (ys @ zs) \<Longrightarrow> ns1 ! j = ob_nodes b ! j"
    "pl_total_quantity lv1 = pl_total_quantity (levels b s ! i)" "pl_count lv1 = pl_count (levels b s ! i)"
    using unlink_fifo [OF lv(1)] by blast
  have "length (q s i) < 2 ^ 32"
    using queue_length_le [OF rep, of s i] card_live_free [OF rep] max_orders_less [OF rep] by linarith
  then have count: "dec_u32 (pl_count lv1) = length (ys @ zs)" using un(7) lv(2) qi by simp
  define lv2 where "lv2 = lv1\<lparr>pl_total_quantity := pl_total_quantity lv1 - on_remaining ?node,
      pl_count := dec_u32 (pl_count lv1)\<rparr>"
  define b1 where "b1 = set_levels (b\<lparr>ob_nodes := ns1\<rparr>) s ((levels b s)[i := lv2])"
  have b1f: "ob_order_index b1 = ob_order_index b" "ob_nodes b1 = ns1" "ob_stats b1 = ob_stats b"
    "ob_free_nodes b1 = ob_free_nodes b"
    by (simp_all add: b1_def)
  obtain ws where ws: "(if pl_count lv2 = 0 then clear_active b1 s i else Some b1) = Some (set_bits b1 s ws)"
    "length ws = length (bits b s)"
    "\<And>j. active ws j \<longleftrightarrow> (if j = i then pl_count lv2 \<noteq> 0 else active (bits b s) j)"
    using clear_active_if [of i b1 s "pl_count lv2 = 0"] ix(3) book_repD(5) [OF rep, of s i] qi
    by (auto simp: b1_def)
  have "fi_map (ob_order_index b) (on_id ?node) = Some x" using book_repD(7) [OF rep] lx by simp
  then obtain ix' where ix': "fi_erase (ob_order_index b) (on_id ?node) = Some (True, ix')" "fi_invar ix'"
    "fi_map ix' = (fi_map (ob_order_index b))(on_id ?node := None)" "fi_room ix' = fi_room (ob_order_index b)"
    using fi_erase_present [OF book_repD(8) [OF rep]] by blast
  have "fifo ns1 lv2 (ys @ zs)" using un(3) by (simp add: fifo_def lv2_def)
  moreover have "remove_node b x = Some ((set_bits (set_levels b s ((levels b s)[i := lv2])) s ws)
      \<lparr>ob_order_index := ix', ob_nodes := ns1[x := default_node], ob_free_nodes := ob_free_nodes b @ [x],
       ob_stats := (ob_stats b)\<lparr>st_resting_orders := dec_size (st_resting_orders (ob_stats b))\<rparr>\<rparr>)"
  proof -
    have "remove_node b x = do {
        b2 \<leftarrow> (if pl_count lv2 = 0 then clear_active b1 s i else Some b1);
        (ok, index) \<leftarrow> fi_erase (ob_order_index b2) (on_id ?node);
        nodes2 \<leftarrow> vec_set (ob_nodes b2) x default_node;
        Some (b2\<lparr>ob_order_index := index, ob_nodes := nodes2, ob_free_nodes := ob_free_nodes b2 @ [x],
          ob_stats := (ob_stats b2)\<lparr>st_resting_orders := dec_size (st_resting_orders (ob_stats b2))\<rparr>\<rparr>) }"
      using xN ix(2) un(1) by (simp add: remove_node_def vec_simps b1_def lv2_def)
    also have "\<dots> = Some ((set_bits b1 s ws)
      \<lparr>ob_order_index := ix', ob_nodes := ns1[x := default_node], ob_free_nodes := ob_free_nodes b @ [x],
       ob_stats := (ob_stats b)\<lparr>st_resting_orders := dec_size (st_resting_orders (ob_stats b))\<rparr>\<rparr>)"
      unfolding ws(1) using xN(1) un(2) ix'(1) b1f by (simp add: vec_simps)
    finally show ?thesis by (simp add: b1_def set_levels_def set_bits_def)
  qed
  ultimately show ?thesis
    using un ws(2,3) ix'(2-4) count
    by (intro exI [of _ ns1] exI [of _ lv2] exI [of _ ws] exI [of _ ix']) (simp add: lv2_def)
qed

text \<open>
  \<open>remove_node\<close> on a queued node deletes it from its queue, keeps the invariant, touches
  no other order and changes no statistic but the resting counter.
\<close>

lemma remove_node_rep:
  assumes rep: "book_rep b q" and qi: "q s i = ys @ x # zs"
  shows "\<exists>b'. remove_node b x = Some b' \<and> book_rep b' (upd_q q s i (ys @ zs)) \<and>
    ob_config b' = ob_config b \<and>
    (\<forall>y. y \<noteq> x \<longrightarrow> resting_of (ob_nodes b' ! y) = resting_of (ob_nodes b ! y)) \<and>
    ob_stats b' = (ob_stats b)\<lparr>st_resting_orders := card (live q) - 1\<rparr>"
proof -
  let ?q = "upd_q q s i (ys @ zs)"
  have x: "x \<in> set (q s i)" using qi by simp
  then have lx: "x \<in> live q" by (rule in_liveI)
  note inq = in_queueD [OF rep x]
  have notx: "x \<notin> set (ys @ zs)" using inq(3) qi by auto
  have live': "live ?q = live q - {x}" using live_upd_remove [OF rep qi] .
  from remove_node_run [OF rep qi] obtain ns1 lv ws ix' where
    run: "remove_node b x = Some ((set_bits (set_levels b s ((levels b s)[i := lv])) s ws)
      \<lparr>ob_order_index := ix', ob_nodes := ns1[x := default_node], ob_free_nodes := ob_free_nodes b @ [x],
       ob_stats := (ob_stats b)\<lparr>st_resting_orders := dec_size (st_resting_orders (ob_stats b))\<rparr>\<rparr>)"
      (is "_ = Some ?b") and
    ns1: "length ns1 = length (ob_nodes b)" "fifo ns1 lv (ys @ zs)"
      "\<And>y. resting_of (ns1 ! y) = resting_of (ob_nodes b ! y)"
      "\<And>y. y \<notin> set (ys @ zs) \<Longrightarrow> ns1 ! y = ob_nodes b ! y" and
    lv: "pl_count lv = length (ys @ zs)"
      "pl_total_quantity lv = pl_total_quantity (levels b s ! i) - on_remaining (ob_nodes b ! x)" and
    ws: "length ws = length (bits b s)"
      "\<And>j. active ws j \<longleftrightarrow> (if j = i then ys @ zs \<noteq> [] else active (bits b s) j)" and
    ix': "fi_invar ix'" "fi_map ix' = (fi_map (ob_order_index b))(on_id (ob_nodes b ! x) := None)"
      "fi_room ix' = fi_room (ob_order_index b)"
    by blast
  let ?ns = "ns1[x := default_node]"
  have same: "resting_of (?ns ! y) = resting_of (ob_nodes b ! y)" if "y \<noteq> x" for y
    using that ns1(3) by simp
  have lrep: "level_rep ?ns lv (ys @ zs)"
  proof -
    have "fifo ?ns lv (ys @ zs) = fifo ns1 lv (ys @ zs)"
      using notx by (intro fifo_cong) (auto simp: nth_upd)
    moreover have "map (\<lambda>x. on_remaining (?ns ! x)) (ys @ zs) = map (\<lambda>x. on_remaining (ob_nodes b ! x)) (ys @ zs)"
      using notx by (intro map_cong refl on_fields_resting(4) [OF same]) auto
    ultimately show ?thesis
      using ns1(2) lv inq(2) qi by (simp add: level_rep_def cong: map_cong)
  qed
  have "book_rep ?b ?q"
  proof (rule book_rep_updI [OF rep inq(1), where level = lv])
    show "ob_nodes ?b ! y = ob_nodes b ! y" if "y \<in> set (q t j)" "(t, j) \<noteq> (s, i)" for y t j
      using queues_disjoint [OF rep that(1), of s i] that(2) ns1(4) [of y] qi by (auto simp: nth_upd)
    show "on_side (ob_nodes ?b ! y) = s \<and> on_price (ob_nodes ?b ! y) = index_price (ob_config b) i"
      if "y \<in> set (ys @ zs)" for y
      using book_repD(6) [OF rep, of y s i] that notx qi on_fields_resting(2,3) [OF same, of y] by (auto simp: nth_upd)
    show "free_rep (maximum_orders (ob_config b)) (ob_free_nodes ?b) ?q"
      using free_rep_remove [OF rep lx live'] by simp
    show "index_rep (ob_nodes ?b) (ob_order_index ?b) (maximum_orders (ob_config b)) ?q"
      using index_rep_remove [OF rep lx live' _ ix', of ?ns] on_fields_resting(1) [OF same] by simp
    show "st_resting_orders (ob_stats ?b) = card (live ?q)"
      using live' lx finite_live [OF rep] book_repD(9) [OF rep] dec_size_card [OF rep lx] by simp
  qed (use ns1(1) lrep ws in auto)
  then show ?thesis
    using run same book_repD(9) [OF rep] dec_size_card [OF rep lx] by auto
qed

subsection \<open>Adding a resting order\<close>

lemma set_active_if:
  assumes "i div 64 < length (bits b s)" "active (bits b s) i \<longleftrightarrow> \<not> c"
  shows "\<exists>ws. (if c then set_active b s i else Some b) = Some (set_bits b s ws) \<and>
    length ws = length (bits b s) \<and> (\<forall>j. active ws j \<longleftrightarrow> j = i \<or> active (bits b s) j)"
proof (cases c)
  case True
  then show ?thesis using active_bits_set [OF assms(1)] by (auto simp: set_active_def)
next
  case False
  then show ?thesis using assms(2) by (intro exI [of _ "bits b s"]) auto
qed

lemma live_upd_append: "live (upd_q q s i (q s i @ [x])) = insert x (live q)"
  by (auto simp: live_def split: if_splits)
lemma index_rep_add:
  assumes "book_rep b q" "x \<notin> live q" "live q' = insert x (live q)"
    and "\<And>y. y \<in> live q \<Longrightarrow> on_id (ns' ! y) = on_id (ob_nodes b ! y)"
    and "fi_map (ob_order_index b) (on_id (ns' ! x)) = None"
    and "fi_invar ix'" "fi_map ix' = (fi_map (ob_order_index b))(on_id (ns' ! x) \<mapsto> x)"
    and "fi_room ix' = fi_room (ob_order_index b)"
  shows "index_rep ns' ix' (maximum_orders (ob_config b)) q'"
proof -
  have old: "fi_map (ob_order_index b) k = Some y \<longleftrightarrow> y \<in> live q \<and> on_id (ob_nodes b ! y) = k" for k y
    using book_repD(7) [OF assms(1)] .
  have "fi_map ix' k = Some y \<longleftrightarrow> y \<in> live q' \<and> on_id (ns' ! y) = k" for k y
    using old [of k y] old [of "on_id (ns' ! x)" y] assms(2-5,7) by (cases "y = x") auto
  moreover have "maximum_orders (ob_config b) \<le> fi_room (ob_order_index b)"
    using assms(1) by (simp add: book_rep_def index_rep_def)
  ultimately show ?thesis using assms(6,8) by (simp add: index_rep_def)
qed

lemma card_index:
  assumes "book_rep b q"
  shows "card (dom (fi_map (ob_order_index b))) \<le> card (live q)"
proof -
  have "dom (fi_map (ob_order_index b)) \<subseteq> (\<lambda>x. on_id (ob_nodes b ! x)) ` live q"
    using book_repD(7) [OF assms] by (auto simp: dom_def)
  then show ?thesis using surj_card_le [OF finite_live [OF assms]] by blast
qed

text \<open>What \<open>add_resting\<close> computes, field by field.\<close>

lemma add_resting_run:
  fixes qty :: Quantity and prio :: Sequence and s :: Side
  assumes rep: "book_rep b q" and p: "valid_price (ob_config b) p"
    and new: "fi_map (ob_order_index b) oid = None" and free: "ob_free_nodes b = fs @ [x]"
  defines "i \<equiv> price_index (ob_config b) p"
    and "node \<equiv> \<lparr>on_id = oid, on_price = p, on_remaining = qty, on_priority = prio,
           on_previous = invalid_node, on_next = invalid_node, on_side = s\<rparr>"
  shows "\<exists>ns1 lv ws ix'. add_resting b oid s p qty prio evs =
      Some ((set_bits (set_levels b s ((levels b s)[i := lv])) s ws)
        \<lparr>ob_order_index := ix', ob_nodes := ns1, ob_free_nodes := fs,
         ob_stats := (ob_stats b)\<lparr>st_resting_orders := inc_size (st_resting_orders (ob_stats b))\<rparr>\<rparr>,
       evs @ [\<lparr>e_sequence = prio, e_type = Rested, e_aggressor_side = s, e_reason = NoReason, e_reserved = 0,
         e_order_id = oid, e_contra_order_id = 0, e_price = p, e_quantity = qty\<rparr>]) \<and>
    length ns1 = length (ob_nodes b) \<and> fifo ns1 lv (q s i @ [x]) \<and>
    (\<forall>y. resting_of (ns1 ! y) = resting_of ((ob_nodes b)[x := node] ! y)) \<and>
    (\<forall>y. y \<notin> set (q s i) \<longrightarrow> y \<noteq> x \<longrightarrow> ns1 ! y = ob_nodes b ! y) \<and>
    pl_count lv = Suc (length (q s i)) \<and>
    pl_total_quantity lv = pl_total_quantity (levels b s ! i) + qty \<and>
    length ws = length (bits b s) \<and>
    (\<forall>j. active ws j \<longleftrightarrow> j = i \<or> active (bits b s) j) \<and>
    fi_invar ix' \<and> fi_map ix' = (fi_map (ob_order_index b))(oid \<mapsto> x) \<and>
    fi_room ix' = fi_room (ob_order_index b)"
proof -
  have i: "i < ob_price_count b" unfolding i_def using price_index_less [OF book_repD(1) [OF rep] p] .
  then have il: "i < length (levels b s)" "i div 64 < length (bits b s)"
    using book_repD(2,3) [OF rep, of s] by auto
  have fr: "x < maximum_orders (ob_config b)" "x \<notin> live q"
    using rep free by (auto simp: book_rep_def free_rep_def)
  have xN: "x < length (ob_nodes b)" "x \<noteq> invalid_node" "x \<notin> set (q s i)"
    using fr book_repD(4) [OF rep] max_orders_less [OF rep] in_liveI
    by (auto simp: invalid_node_def)
  have lrep: "level_rep (ob_nodes b) (levels b s ! i) (q s i)" using level_repD(2) [OF rep] i by blast
  let ?ns = "(ob_nodes b)[x := node]"
  have "fifo ?ns (levels b s ! i) (q s i)"
    using lrep xN by (subst fifo_cong [of _ "ob_nodes b" _ _ "levels b s ! i"]) (auto simp: level_rep_def nth_upd)
  from link_tail_fifo [OF this xN(3)] xN obtain ns1 lv1 where
    ln: "link_tail ?ns (levels b s ! i) x = Some (ns1, lv1)" "length ns1 = length (ob_nodes b)"
    "fifo ns1 lv1 (q s i @ [x])" "\<And>j. resting_of (ns1 ! j) = resting_of (?ns ! j)"
    "\<And>j. j \<notin> set (q s i) \<Longrightarrow> j \<noteq> x \<Longrightarrow> ns1 ! j = ?ns ! j"
    "pl_total_quantity lv1 = pl_total_quantity (levels b s ! i)" "pl_count lv1 = pl_count (levels b s ! i)"
    by (auto simp: node_def)
  have room: "card (live q) < maximum_orders (ob_config b)"
    using card_live_free [OF rep] free by simp
  then have "length (q s i) < 2 ^ 32 - 1"
    using queue_length_le [OF rep, of s i] max_orders_less [OF rep] by linarith
  then have count: "inc_u32 (pl_count lv1) = Suc (length (q s i))" using ln(7) lrep by (simp add: level_rep_def)
  define lv2 where "lv2 = lv1\<lparr>pl_total_quantity := pl_total_quantity lv1 + qty, pl_count := inc_u32 (pl_count lv1)\<rparr>"
  define b1 where "b1 = set_levels (b\<lparr>ob_free_nodes := fs, ob_nodes := ns1\<rparr>) s ((levels b s)[i := lv2])"
  have b1f: "ob_order_index b1 = ob_order_index b" "ob_nodes b1 = ns1" "ob_stats b1 = ob_stats b"
    "ob_free_nodes b1 = fs"
    by (simp_all add: b1_def)
  obtain ws where ws: "(if pl_count lv2 = 1 then set_active b1 s i else Some b1) = Some (set_bits b1 s ws)"
    "length ws = length (bits b s)" "\<And>j. active ws j \<longleftrightarrow> j = i \<or> active (bits b s) j"
    using set_active_if [of i b1 s "pl_count lv2 = 1"] il(2) book_repD(5) [OF rep, of s i] count
    by (auto simp: b1_def lv2_def)
  have "card (dom (fi_map (ob_order_index b))) < fi_room (ob_order_index b)"
    using card_index [OF rep] room rep by (simp add: book_rep_def index_rep_def)
  then obtain ix' where ix': "fi_insert (ob_order_index b) oid x = Some (True, ix')" "fi_invar ix'"
    "fi_map ix' = (fi_map (ob_order_index b))(oid \<mapsto> x)" "fi_room ix' = fi_room (ob_order_index b)"
    using fi_insert_new [OF book_repD(8) [OF rep] new] by blast
  have "add_resting b oid s p qty prio evs = do {
      b2 \<leftarrow> (if pl_count lv2 = 1 then set_active b1 s i else Some b1);
      (ok, index) \<leftarrow> fi_insert (ob_order_index b2) oid x;
      if \<not> ok then None
      else
        let event_command = \<lparr>c_sequence = prio, c_type = New, c_side = s, c_order_type = Limit,
              c_reserved = 0, c_order_id = oid, c_price = p, c_quantity = qty\<rparr>
        in Some (b2\<lparr>ob_order_index := index,
                    ob_stats := (ob_stats b2)\<lparr>st_resting_orders := inc_size (st_resting_orders (ob_stats b2))\<rparr>\<rparr>,
                 emit evs Rested event_command 0 p qty NoReason) }"
    using xN(1) il(1) ln(1) free by (simp add: add_resting_def vec_simps b1_def lv2_def node_def i_def Let_def)
  also have "\<dots> = Some ((set_bits b1 s ws)\<lparr>ob_order_index := ix',
          ob_stats := (ob_stats b)\<lparr>st_resting_orders := inc_size (st_resting_orders (ob_stats b))\<rparr>\<rparr>,
        evs @ [\<lparr>e_sequence = prio, e_type = Rested, e_aggressor_side = s, e_reason = NoReason, e_reserved = 0,
         e_order_id = oid, e_contra_order_id = 0, e_price = p, e_quantity = qty\<rparr>])"
    unfolding ws(1) using ix'(1) b1f by (simp add: emit_def make_event_def)
  finally have run: "add_resting b oid s p qty prio evs = \<dots>" .
  have "fifo ns1 lv2 (q s i @ [x])" using ln(3) by (simp add: fifo_def lv2_def)
  then show ?thesis
    using ln ws(2,3) ix'(2-4) count
    by (intro exI [of _ ns1] exI [of _ lv2] exI [of _ ws] exI [of _ ix'])
      (auto simp: run b1_def set_levels_def set_bits_def lv2_def)
qed

lemma free_rep_add:
  assumes "book_rep b q" "ob_free_nodes b = fs @ [x]" "live q' = insert x (live q)"
  shows "free_rep (maximum_orders (ob_config b)) fs q'"
  using assms live_subset [OF assms(1)] by (auto simp: book_rep_def free_rep_def)

text \<open>
  \<open>add_resting\<close> on a book with a free node and a new identifier appends a fresh node to the
  queue of its price, keeps the invariant, touches no other order and emits one event.
\<close>

lemma add_resting_rep:
  assumes rep: "book_rep b q" and p: "valid_price (ob_config b) p"
    and new: "fi_map (ob_order_index b) oid = None" and free: "ob_free_nodes b \<noteq> []"
  defines "i \<equiv> price_index (ob_config b) p"
  shows "\<exists>b' x. add_resting b oid s p qty prio evs =
      Some (b', evs @ [\<lparr>e_sequence = prio, e_type = Rested, e_aggressor_side = s, e_reason = NoReason,
        e_reserved = 0, e_order_id = oid, e_contra_order_id = 0, e_price = p, e_quantity = qty\<rparr>]) \<and>
    x \<notin> live q \<and> book_rep b' (upd_q q s i (q s i @ [x])) \<and> ob_config b' = ob_config b \<and>
    resting_of (ob_nodes b' ! x) = \<lparr>ro_order_id = oid, ro_side = s, ro_price = p, ro_quantity = qty,
      ro_priority = prio\<rparr> \<and>
    (\<forall>y. y \<noteq> x \<longrightarrow> resting_of (ob_nodes b' ! y) = resting_of (ob_nodes b ! y)) \<and>
    ob_stats b' = (ob_stats b)\<lparr>st_resting_orders := card (live q) + 1\<rparr>"
proof -
  obtain fs x where fs: "ob_free_nodes b = fs @ [x]" using free by (cases "ob_free_nodes b" rule: rev_cases) auto
  let ?node = "\<lparr>on_id = oid, on_price = p, on_remaining = qty, on_priority = prio,
    on_previous = invalid_node, on_next = invalid_node, on_side = s\<rparr>"
  let ?q = "upd_q q s i (q s i @ [x])"
  let ?ev = "\<lparr>e_sequence = prio, e_type = Rested, e_aggressor_side = s, e_reason = NoReason,
        e_reserved = 0, e_order_id = oid, e_contra_order_id = 0, e_price = p, e_quantity = qty\<rparr>"
  have i: "i < ob_price_count b" unfolding i_def using price_index_less [OF book_repD(1) [OF rep] p] .
  have xl: "x \<notin> live q" "x < length (ob_nodes b)"
    using rep fs book_repD(4) [OF rep] by (auto simp: book_rep_def free_rep_def)
  have ip: "index_price (ob_config b) i = p"
    unfolding i_def using index_price_price_index [OF book_repD(1) [OF rep] p] .
  note live' = live_upd_append [of q s i x]
  from add_resting_run [OF rep p new fs, of s qty prio evs, folded i_def] obtain ns1 lv ws ix' where
    run: "add_resting b oid s p qty prio evs =
      Some ((set_bits (set_levels b s ((levels b s)[i := lv])) s ws)
        \<lparr>ob_order_index := ix', ob_nodes := ns1, ob_free_nodes := fs,
         ob_stats := (ob_stats b)\<lparr>st_resting_orders := inc_size (st_resting_orders (ob_stats b))\<rparr>\<rparr>,
       evs @ [?ev])" (is "_ = Some (?b, _)") and
    ns1: "length ns1 = length (ob_nodes b)" "fifo ns1 lv (q s i @ [x])"
      "\<And>y. resting_of (ns1 ! y) = resting_of ((ob_nodes b)[x := ?node] ! y)"
      "\<And>y. y \<notin> set (q s i) \<Longrightarrow> y \<noteq> x \<Longrightarrow> ns1 ! y = ob_nodes b ! y" and
    lv: "pl_count lv = Suc (length (q s i))" "pl_total_quantity lv = pl_total_quantity (levels b s ! i) + qty" and
    ws: "length ws = length (bits b s)" "\<And>j. active ws j \<longleftrightarrow> j = i \<or> active (bits b s) j" and
    ix': "fi_invar ix'" "fi_map ix' = (fi_map (ob_order_index b))(oid \<mapsto> x)"
      "fi_room ix' = fi_room (ob_order_index b)"
    by blast
  have same: "resting_of (ns1 ! y) = resting_of (ob_nodes b ! y)" if "y \<noteq> x" for y
    using that ns1(3) by (simp add: nth_upd)
  have at: "resting_of (ns1 ! x) = resting_of ?node" using ns1(3) [of x] xl(2) by simp
  note atf = on_fields_resting [OF at, simplified]
  have lrep: "level_rep ns1 lv (q s i @ [x])"
  proof -
    have "x \<notin> set (q s i)" using xl(1) in_liveI by blast
    then have "map (\<lambda>x. on_remaining (ns1 ! x)) (q s i) = map (\<lambda>x. on_remaining (ob_nodes b ! x)) (q s i)"
      by (intro map_cong refl on_fields_resting(4) [OF same]) auto
    then have "sum_list (map (\<lambda>x. on_remaining (ns1 ! x)) (q s i)) = pl_total_quantity (levels b s ! i)"
      using level_repD(2) [OF rep disjI2 [OF i], of s] by (simp only: level_rep_def)
    then show ?thesis using ns1(2) lv atf(4) by (simp add: level_rep_def)
  qed
  have count: "inc_size (st_resting_orders (ob_stats b)) = Suc (card (live q))"
    using book_repD(9) [OF rep] card_live_free [OF rep] max_orders_less [OF rep] by simp
  have "book_rep ?b ?q"
  proof (rule book_rep_updI [OF rep i, where level = lv])
    show "ob_nodes ?b ! y = ob_nodes b ! y" if "y \<in> set (q t j)" "(t, j) \<noteq> (s, i)" for y t j
      using queues_disjoint [OF rep that(1), of s i] that(2) ns1(4) [of y] xl(1) that(1) in_liveI [of y q t j] by auto
    show "on_side (ob_nodes ?b ! y) = s \<and> on_price (ob_nodes ?b ! y) = index_price (ob_config b) i"
      if "y \<in> set (q s i @ [x])" for y
      using book_repD(6) [OF rep, of y s i] that atf ip on_fields_resting(2,3) [OF same, of y] by (cases "y = x") auto
    show "free_rep (maximum_orders (ob_config b)) (ob_free_nodes ?b) ?q"
      using free_rep_add [OF rep fs live'] by simp
    show "index_rep (ob_nodes ?b) (ob_order_index ?b) (maximum_orders (ob_config b)) ?q"
    proof -
      have "on_id (ns1 ! y) = on_id (ob_nodes b ! y)" if "y \<in> live q" for y
        using that xl(1) by (intro on_fields_resting(1) [OF same]) auto
      then show ?thesis using index_rep_add [OF rep xl(1) live', of ns1 ix'] atf(1) new ix' by simp
    qed
    show "st_resting_orders (ob_stats ?b) = card (live ?q)"
      using live' xl(1) finite_live [OF rep] count by simp
  qed (use ns1(1) lrep ws in auto)
  moreover have "resting_of (ns1 ! x) = \<lparr>ro_order_id = oid, ro_side = s, ro_price = p, ro_quantity = qty,
      ro_priority = prio\<rparr>"
    using at by (simp add: resting_of_def)
  ultimately show ?thesis
    using run same xl(1) count by (intro exI [of _ ?b] exI [of _ x]) auto
qed

subsection \<open>Executing against the front of a queue\<close>

text \<open>Reducing the first order of a level and the level's aggregate by the same quantity.\<close>

definition reduce_head :: "OrderBook \<Rightarrow> Side \<Rightarrow> nat \<Rightarrow> nat \<Rightarrow> Quantity \<Rightarrow> OrderBook" where
  "reduce_head b s i x traded =
     (set_levels (b\<lparr>ob_nodes := (ob_nodes b)[x := (ob_nodes b ! x)\<lparr>on_remaining := on_remaining (ob_nodes b ! x) - traded\<rparr>]\<rparr>) s
        ((levels b s)[i := (levels b s ! i)\<lparr>pl_total_quantity := pl_total_quantity (levels b s ! i) - traded\<rparr>]))
     \<lparr>ob_stats := (ob_stats b)\<lparr>st_trades := st_trades (ob_stats b) + 1\<rparr>\<rparr>"

lemma reduce_head_rep:
  assumes rep: "book_rep b q" and qi: "q s i = x # zs"
  shows "book_rep (reduce_head b s i x traded) q"
proof -
  let ?b = "reduce_head b s i x traded"
  let ?lv = "(levels b s ! i)\<lparr>pl_total_quantity := pl_total_quantity (levels b s ! i) - traded\<rparr>"
  let ?ns = "(ob_nodes b)[x := (ob_nodes b ! x)\<lparr>on_remaining := on_remaining (ob_nodes b ! x) - traded\<rparr>]"
  have x: "x \<in> set (q s i)" using qi by simp
  note inq = in_queueD [OF rep x]
  have xN: "x < length (ob_nodes b)" using live_less(1) [OF rep in_liveI [of x q s i]] x by simp
  have fields: "on_id (?ns ! y) = on_id (ob_nodes b ! y)" "on_side (?ns ! y) = on_side (ob_nodes b ! y)"
    "on_price (?ns ! y) = on_price (ob_nodes b ! y)" for y
    by (auto simp: nth_upd)
  have lrep: "level_rep ?ns ?lv (q s i)"
  proof -
    have "fifo ?ns ?lv (q s i)"
      using inq(2) dseg_cong [of ?ns "ob_nodes b" "q s i"] by (auto simp: level_rep_def fifo_def nth_upd)
    moreover have "map (\<lambda>y. on_remaining (?ns ! y)) zs = map (\<lambda>y. on_remaining (ob_nodes b ! y)) zs"
      using inq(3) qi by (intro map_cong refl) (auto simp: nth_upd)
    then have "sum_list (map (\<lambda>y. on_remaining (?ns ! y)) (q s i)) =
        on_remaining (ob_nodes b ! x) - traded + sum_list (map (\<lambda>y. on_remaining (ob_nodes b ! y)) zs)"
      using xN by (simp only: qi list.map sum_list.Cons) simp
    ultimately show ?thesis using inq(2) qi by (simp add: level_rep_def)
  qed
  have "book_rep ?b (upd_q q s i (q s i))"
  proof (rule book_rep_updI [OF rep inq(1), where level = ?lv])
    show "ob_nodes ?b ! y = ob_nodes b ! y" if "y \<in> set (q t j)" "(t, j) \<noteq> (s, i)" for y t j
      using queues_disjoint [OF rep that(1), of s i] that(2) qi by (auto simp: reduce_head_def nth_upd)
    show "on_side (ob_nodes ?b ! y) = s \<and> on_price (ob_nodes ?b ! y) = index_price (ob_config b) i"
      if "y \<in> set (q s i)" for y
      using book_repD(6) [OF rep that] fields by (simp add: reduce_head_def)
    show "index_rep (ob_nodes ?b) (ob_order_index ?b) (maximum_orders (ob_config b)) (upd_q q s i (q s i))"
      using rep fields by (simp add: reduce_head_def book_rep_def index_rep_def)
    show "active (bits ?b s) j = (if j = i then q s i \<noteq> [] else active (bits b s) j)" for j
      using book_repD(5) [OF rep, of s] by (simp add: reduce_head_def)
  qed (use lrep rep book_repD(9) [OF rep] in \<open>auto simp: reduce_head_def book_rep_def\<close>)
  then show ?thesis by simp
qed

subsection \<open>The empty book\<close>

lemma order_book_rep:
  assumes "order_book cfg = Inr b"
  shows "book_rep b (\<lambda>_ _. [])" "ob_config b = cfg" "ob_stats b = default_stats"
proof -
  obtain P ix where P: "checked_price_count cfg = Inr P" "fixed_order_index (maximum_orders cfg) = Inr ix"
    and b: "b = \<lparr>ob_config = cfg, ob_price_count = P, ob_bids = replicate P default_level,
      ob_asks = replicate P default_level, ob_bid_bits = replicate ((P + 63) div 64) 0,
      ob_ask_bits = replicate ((P + 63) div 64) 0, ob_nodes = replicate (maximum_orders cfg) default_node,
      ob_free_nodes = rev [0..<maximum_orders cfg], ob_order_index = ix, ob_stats = default_stats\<rparr>"
    using assms by (auto simp: order_book_def split: sum.splits)
  note c = checked_price_countD [OF P(1)]
  have "maximum_orders cfg \<le> 2 ^ 62" using c(7) by (rule order_trans [OF less_imp_le]) simp
  then have ix: "fi_invar ix" "fi_map ix = Map.empty" "maximum_orders cfg \<le> fi_room ix"
    using fixed_order_index_ok [OF c(6)] P(2) by auto
  have "live (\<lambda>_ _. []) = {}" by (simp add: live_def)
  moreover have "level_rep ns default_level []" for ns
    by (simp add: level_rep_def fifo_def default_level_def)
  ultimately show "book_rep b (\<lambda>_ _. [])"
    using P(1) ix
    by (auto simp: book_rep_def b geometry_def queues_rep_def placed_def bits_rep_def free_rep_def
        index_rep_def levels_def bits_def active_def default_stats_def atLeast0LessThan)
  show "ob_config b = cfg" "ob_stats b = default_stats" by (simp_all add: b)
qed

lemma order_book_accepts:
  assumes "checked_price_count cfg = Inr P"
  shows "\<exists>b. order_book cfg = Inr b"
proof -
  note c = checked_price_countD [OF assms]
  have "maximum_orders cfg \<le> 2 ^ 62" using c(7) by (rule order_trans [OF less_imp_le]) simp
  then show ?thesis using fixed_order_index_ok [OF c(6)] assms by (auto simp: order_book_def)
qed

end
