(* ===== verification/Book_Refine.thy ===== *)
theory Book_Refine
  imports Book_Rep
begin

text \<open>
  The matching engine implements the abstract price-time book.  The abstraction reads
  each side of the ladder in matching order and lists the queued orders; every command
  of the engine returns normally, keeps the representation invariant, and changes the
  abstract book and emits events exactly as the specification does.
\<close>

subsection \<open>The abstraction function\<close>

definition rs :: "OrderBook \<Rightarrow> nat list \<Rightarrow> RestingOrder list" where
  "rs b xs = map (\<lambda>x. resting_of (ob_nodes b ! x)) xs"

text \<open>The order in which the ladder of a side is matched: asks upwards, bids downwards.\<close>

definition scan :: "Side \<Rightarrow> nat \<Rightarrow> nat list" where
  "scan side n = (if side = Sell then [0..<n] else rev [0..<n])"

definition abs_side :: "OrderBook \<Rightarrow> queues \<Rightarrow> Side \<Rightarrow> RestingOrder list" where
  "abs_side b q side = concat (map (\<lambda>i. rs b (q side i)) (scan side (ob_price_count b)))"

definition abs_book :: "OrderBook \<Rightarrow> queues \<Rightarrow> SpecBook" where
  "abs_book b q = \<lparr>sb_bids = abs_side b q Buy, sb_asks = abs_side b q Sell,
     sb_last_sequence = st_last_sequence (ob_stats b)\<rparr>"

lemma sb_side_abs [simp]: "sb_side (abs_book b q) s = abs_side b q s"
  by (cases s) (simp_all add: sb_side_def abs_book_def)

lemma rs_Nil [simp]: "rs b [] = []"
  and rs_Cons [simp]: "rs b (x # xs) = resting_of (ob_nodes b ! x) # rs b xs"
  and rs_append [simp]: "rs b (xs @ ys) = rs b xs @ rs b ys"
  and rs_eq_Nil [simp]: "rs b xs = [] \<longleftrightarrow> xs = []"
  by (simp_all add: rs_def)

lemma set_rs [simp]: "set (rs b xs) = (\<lambda>x. resting_of (ob_nodes b ! x)) ` set xs"
  by (simp add: rs_def)

lemma resting_of_sel [simp]:
  "ro_order_id (resting_of n) = on_id n" "ro_side (resting_of n) = on_side n"
  "ro_price (resting_of n) = on_price n" "ro_quantity (resting_of n) = on_remaining n"
  "ro_priority (resting_of n) = on_priority n"
  by (simp_all add: resting_of_def)

lemma set_scan [simp]: "set (scan s n) = {..<n}"
  by (auto simp: scan_def)

lemma distinct_scan [simp]: "distinct (scan s n)"
  by (simp add: scan_def)

text \<open>The levels scanned before \<open>i\<close> have a strictly better price, those after it a strictly worse one.\<close>

definition ahead :: "Side \<Rightarrow> nat \<Rightarrow> nat \<Rightarrow> bool" where
  "ahead s i j \<longleftrightarrow> (if s = Sell then i < j else j < i)"

lemma upt_eq_split: "i < n \<Longrightarrow> [0..<n] = [0..<i] @ i # [Suc i..<n]"
  using upt_add_eq_append [of 0 i "n - i"] by (simp add: upt_conv_Cons)

lemma scan_split:
  assumes "i < n"
  obtains pre post where "scan s n = pre @ i # post"
    "\<And>j. j \<in> set pre \<longleftrightarrow> j < n \<and> ahead s j i" "\<And>j. j \<in> set post \<longleftrightarrow> j < n \<and> ahead s i j"
proof (cases s)
  case Sell
  then show ?thesis
    using assms upt_eq_split [OF assms] by (intro that [of "[0..<i]" "[Suc i..<n]"]) (auto simp: scan_def ahead_def)
next
  case Buy
  then show ?thesis
    using assms upt_eq_split [OF assms]
    by (intro that [of "rev [Suc i..<n]" "rev [0..<i]"]) (auto simp: scan_def ahead_def)
qed

lemma set_abs_side:
  assumes "book_rep b q"
  shows "set (abs_side b q s) = {resting_of (ob_nodes b ! x) |x i. x \<in> set (q s i)}"
  using in_queueD(1) [OF assms] by (auto simp: abs_side_def)

lemma live_split: "live q = {x. \<exists>i. x \<in> set (q Buy i)} \<union> {x. \<exists>i. x \<in> set (q Sell i)}"
proof -
  have "(\<exists>s i. x \<in> set (q s i)) \<longleftrightarrow> (\<exists>i. x \<in> set (q Buy i)) \<or> (\<exists>i. x \<in> set (q Sell i))" for x
    by (metis Side.exhaust)
  then show ?thesis by (auto simp: live_def)
qed

lemma abs_side_live:
  assumes "book_rep b q"
  shows "set (abs_side b q Buy) \<union> set (abs_side b q Sell) = (\<lambda>x. resting_of (ob_nodes b ! x)) ` live q"
  unfolding set_abs_side [OF assms] live_split by auto

lemma inj_ids:
  assumes "book_rep b q"
  shows "inj_on (\<lambda>x. on_id (ob_nodes b ! x)) (live q)"
  using book_repD(7) [OF assms] by (intro inj_onI) (metis option.inject)

lemma distinct_queues:
  assumes "book_rep b q"
  shows "distinct (concat (map (q s) (scan s (ob_price_count b))))"
proof -
  have "distinct (concat (map (q s) is))" if "distinct is" for "is"
    using that
  proof (induction "is")
    case (Cons i js)
    have "distinct (q s i)" using in_queueD(3) [OF assms, of "hd (q s i)" s i] by (cases "q s i") auto
    moreover have "False" if "x \<in> set (q s i)" "x \<in> set (q s j)" "j \<in> set js" for x j
      using queues_disjoint [OF assms that(1,2)] that(3) Cons.prems by auto
    then have "set (q s i) \<inter> set (concat (map (q s) js)) = {}" by auto
    ultimately show ?case using Cons by simp
  qed simp
  then show ?thesis by simp
qed

lemma abs_side_rs: "abs_side b q s = rs b (concat (map (q s) (scan s (ob_price_count b))))"
  by (simp add: abs_side_def rs_def map_concat comp_def)

lemma set_queues:
  assumes "book_rep b q"
  shows "set (concat (map (q s) (scan s (ob_price_count b)))) = {x. \<exists>i. x \<in> set (q s i)}"
  using in_queueD(1) [OF assms] by auto

lemma distinct_ids:
  assumes "book_rep b q"
  shows "distinct (map ro_order_id (abs_side b q Buy @ abs_side b q Sell))"
proof -
  let ?xs = "concat (map (q Buy) (scan Buy (ob_price_count b)))"
  let ?ys = "concat (map (q Sell) (scan Sell (ob_price_count b)))"
  have "set ?xs \<inter> set ?ys = {}"
    unfolding set_queues [OF assms] using queues_disjoint [OF assms] by blast
  then have "distinct (?xs @ ?ys)" using distinct_queues [OF assms] by auto
  moreover have "set (?xs @ ?ys) \<subseteq> live q"
    unfolding set_append set_queues [OF assms] by (auto simp: live_def)
  ultimately have "distinct (map (\<lambda>x. on_id (ob_nodes b ! x)) (?xs @ ?ys))"
    using inj_ids [OF assms] by (simp only: distinct_map) (meson inj_on_subset)
  then show ?thesis unfolding abs_side_rs by (simp add: rs_def comp_def)
qed

lemma spec_size_abs:
  assumes "book_rep b q"
  shows "spec_size (abs_book b q) = card (live q)"
proof -
  let ?xs = "concat (map (q Buy) (scan Buy (ob_price_count b)))"
  let ?ys = "concat (map (q Sell) (scan Sell (ob_price_count b)))"
  have "set ?xs \<inter> set ?ys = {}"
    unfolding set_queues [OF assms] using queues_disjoint [OF assms] by blast
  then have "distinct (?xs @ ?ys)" using distinct_queues [OF assms] by auto
  moreover have "set (?xs @ ?ys) = live q"
    unfolding set_append set_queues [OF assms] live_split by auto
  ultimately have "length (?xs @ ?ys) = card (live q)" by (metis distinct_card)
  then show ?thesis by (simp add: spec_size_def abs_book_def abs_side_rs rs_def)
qed

lemma fi_map_abs:
  assumes "book_rep b q"
  shows "fi_map (ob_order_index b) k = None \<longleftrightarrow>
    k \<notin> ro_order_id ` (set (abs_side b q Buy) \<union> set (abs_side b q Sell))"
proof -
  have "fi_map (ob_order_index b) k = None \<longleftrightarrow> (\<forall>x. fi_map (ob_order_index b) k \<noteq> Some x)" by simp
  also have "\<dots> \<longleftrightarrow> k \<notin> (\<lambda>x. on_id (ob_nodes b ! x)) ` live q"
    unfolding book_repD(7) [OF assms] by auto
  finally show ?thesis by (simp add: abs_side_live [OF assms] image_image)
qed

subsection \<open>How the primitive updates change the abstraction\<close>

lemma index_price_ahead:
  assumes "book_rep b q" "i < ob_price_count b" "j < ob_price_count b"
  shows "as_good s (index_price (ob_config b) i) (index_price (ob_config b) j) \<longleftrightarrow> \<not> ahead s j i"
  using index_price_le_iff [OF book_repD(1) [OF assms(1)]] assms(2,3)
  by (cases s) (auto simp: as_good_def ahead_def)

lemma abs_side_remove:
  assumes rep: "book_rep b q" and rep': "book_rep b' (upd_q q s i (ys @ zs))"
    and qi: "q s i = ys @ x # zs" and cfg: "ob_config b' = ob_config b"
    and same: "\<And>y. y \<noteq> x \<Longrightarrow> resting_of (ob_nodes b' ! y) = resting_of (ob_nodes b ! y)"
  shows "abs_side b' (upd_q q s i (ys @ zs)) t =
    filter (\<lambda>ro. ro_order_id ro \<noteq> on_id (ob_nodes b ! x)) (abs_side b q t)"
proof -
  have x: "x \<in> set (q s i)" using qi by simp
  have P: "ob_price_count b' = ob_price_count b"
    using book_repD(1) [OF rep] book_repD(1) [OF rep'] cfg by simp
  have keep: "on_id (ob_nodes b ! y) \<noteq> on_id (ob_nodes b ! x)" if "y \<in> set (q t j)" "y \<noteq> x" for y t j
    using inj_onD [OF inj_ids [OF rep], of y x] in_liveI [of y q t j] in_liveI [of x q s i] x that by auto
  have level: "rs b' (upd_q q s i (ys @ zs) t j) =
      filter (\<lambda>ro. ro_order_id ro \<noteq> on_id (ob_nodes b ! x)) (rs b (q t j))" for j
  proof (cases "(t, j) = (s, i)")
    case True
    have d: "distinct (ys @ x # zs)" using in_queueD(3) [OF rep x] qi by simp
    have "rs b' zs' = filter (\<lambda>ro. ro_order_id ro \<noteq> on_id (ob_nodes b ! x)) (rs b zs')"
      if "set zs' \<subseteq> set (q s i)" "x \<notin> set zs'" for zs'
      using that keep same by (induction zs') auto
    from this [of ys] this [of zs] show ?thesis using True d qi by (auto simp: subset_iff)
  next
    case False
    have "x \<notin> set (q t j)" using queues_disjoint [OF rep x, of t j] False by auto
    then have "\<forall>y \<in> set (q t j). resting_of (ob_nodes b' ! y) = resting_of (ob_nodes b ! y) \<and>
        on_id (ob_nodes b ! y) \<noteq> on_id (ob_nodes b ! x)"
      using same keep by metis
    then show ?thesis using False by (auto simp: rs_def filter_id_conv cong: map_cong)
  qed
  show ?thesis unfolding abs_side_def P filter_concat by (simp add: level comp_def del: upd_q_apply)
qed

lemma spec_insert_append:
  "(\<forall>x \<in> set xs. as_good s (ro_price x) (ro_price ro)) \<Longrightarrow>
   (\<forall>y \<in> set ys. \<not> as_good s (ro_price y) (ro_price ro)) \<Longrightarrow>
   spec_insert s ro (xs @ ys) = xs @ ro # ys"
  by (induction xs) (cases ys; simp)+

lemma abs_side_add:
  assumes rep: "book_rep b q" and rep': "book_rep b' (upd_q q s i (q s i @ [x]))"
    and i: "i < ob_price_count b" and cfg: "ob_config b' = ob_config b" and x: "x \<notin> live q"
    and same: "\<And>y. y \<noteq> x \<Longrightarrow> resting_of (ob_nodes b' ! y) = resting_of (ob_nodes b ! y)"
  shows "abs_side b' (upd_q q s i (q s i @ [x])) t =
    (if t = s then spec_insert s (resting_of (ob_nodes b' ! x)) (abs_side b q s) else abs_side b q t)"
proof -
  let ?q = "upd_q q s i (q s i @ [x])" and ?cfg = "ob_config b"
  have P: "ob_price_count b' = ob_price_count b"
    using book_repD(1) [OF rep] book_repD(1) [OF rep'] cfg by simp
  have old: "rs b' (q t j) = rs b (q t j)" for t j
    using x in_liveI [of _ q t j] unfolding rs_def by (intro map_cong refl same) blast
  show ?thesis
  proof (cases "t = s")
    case False
    then show ?thesis by (simp add: abs_side_def P old)
  next
    case True
    obtain pre post where sc: "scan s (ob_price_count b) = pre @ i # post"
      "\<And>j. j \<in> set pre \<longleftrightarrow> j < ob_price_count b \<and> ahead s j i"
      "\<And>j. j \<in> set post \<longleftrightarrow> j < ob_price_count b \<and> ahead s i j"
      using scan_split [OF i] by metis
    let ?cat = "\<lambda>is. concat (map (\<lambda>j. rs b (q s j)) is)"
    have "i \<notin> set pre" "i \<notin> set post" using sc(2,3) [of i] by (auto simp: ahead_def split: if_splits)
    then have "map (\<lambda>j. rs b' (?q s j)) pre = map (\<lambda>j. rs b (q s j)) pre"
      "map (\<lambda>j. rs b' (?q s j)) post = map (\<lambda>j. rs b (q s j)) post"
      using old by (auto intro!: map_cong)
    then have new: "abs_side b' ?q s = (?cat pre @ rs b (q s i)) @ resting_of (ob_nodes b' ! x) # ?cat post"
      unfolding abs_side_def P sc(1) by (simp add: old cong: map_cong)
    have px: "on_price (ob_nodes b' ! x) = index_price ?cfg i"
      using book_repD(6) [OF rep', of x s i] cfg by simp
    have good: "as_good s (ro_price ro) (index_price ?cfg i)"
      if ro: "ro \<in> set (?cat pre @ rs b (q s i))" for ro
    proof -
      obtain y j where y: "y \<in> set (q s j)" "ro = resting_of (ob_nodes b ! y)" "j \<in> set pre \<or> j = i"
        using ro by auto
      then have "\<not> ahead s i j" "j < ob_price_count b"
        using sc(2) [of j] i by (auto simp: ahead_def split: if_splits)
      then show ?thesis using index_price_ahead [OF rep, of j i s] i y book_repD(6) [OF rep y(1)] by simp
    qed
    have bad: "\<not> as_good s (ro_price ro) (index_price ?cfg i)" if ro: "ro \<in> set (?cat post)" for ro
    proof -
      obtain y j where y: "y \<in> set (q s j)" "ro = resting_of (ob_nodes b ! y)" "j \<in> set post"
        using ro by auto
      then show ?thesis
        using index_price_ahead [OF rep, of j i s] i sc(3) [of j] book_repD(6) [OF rep y(1)] by simp
    qed
    have "abs_side b q s = (?cat pre @ rs b (q s i)) @ ?cat post" unfolding abs_side_def sc(1) by simp
    then show ?thesis
      using True new spec_insert_append [of "?cat pre @ rs b (q s i)" s "resting_of (ob_nodes b' ! x)" "?cat post"]
        good bad px by simp
  qed
qed

lemma best_index_none:
  assumes "book_rep b q" "abs_side b q s = []"
  shows "best_index b s = no_price"
proof -
  have "q s j = []" for j
    using assms(2) level_repD(1) [OF assms(1), of s j] by (auto simp: abs_side_def)
  then show ?thesis using best_bit_none [of "bits b s" s] book_repD(5) [OF assms(1)] by (simp add: best_index_def)
qed

lemma best_index_first:
  assumes rep: "book_rep b q" and ne: "abs_side b q s \<noteq> []"
  obtains x zs rest where "q s (best_index b s) = x # zs"
    "scan s (ob_price_count b) = takeWhile (\<lambda>j. q s j = []) (scan s (ob_price_count b)) @ best_index b s # rest"
    "abs_side b q s = rs b (x # zs) @ concat (map (\<lambda>j. rs b (q s j)) rest)"
    "best_index b s \<noteq> no_price" "best_index b s < ob_price_count b"
proof -
  let ?i = "best_index b s" and ?P = "ob_price_count b"
  have act: "active (bits b s) j \<longleftrightarrow> q s j \<noteq> []" for j using book_repD(5) [OF rep] .
  obtain j where "q s j \<noteq> []" using ne by (auto simp: abs_side_def)
  then have qi: "q s ?i \<noteq> []" using best_bit_active [of "bits b s" j s] act by (simp add: best_index_def)
  then have i: "?i < ?P" using level_repD(1) [OF rep] by blast
  then have np: "?i \<noteq> no_price"
    using price_count_bounds(2) [OF book_repD(1) [OF rep]] by (simp add: no_price_def)
  obtain pre post where sc: "scan s ?P = pre @ ?i # post" "\<And>j. j \<in> set pre \<longleftrightarrow> j < ?P \<and> ahead s j ?i"
    using scan_split [OF i] by metis
  have empty: "q s j = []" if "j \<in> set pre" for j
    using sc(2) [of j] that best_bit_Sell [of "bits b s" j] best_bit_Buy [of "bits b s" j] act [of j]
    by (cases s) (auto simp: ahead_def best_index_def)
  then have "takeWhile (\<lambda>j. q s j = []) (scan s ?P) = pre"
    unfolding sc(1) using qi by (subst takeWhile_append2) auto
  moreover have "concat (map (\<lambda>j. rs b (q s j)) pre) = []" using empty by simp
  ultimately show thesis
    using that [of "hd (q s ?i)" "tl (q s ?i)" post] qi i np sc(1) by (auto simp: abs_side_def)
qed

lemma id_in_side:
  assumes rep: "book_rep b q" and x: "x \<in> set (q s i)"
    and ro: "ro \<in> set (abs_side b q t)" "ro_order_id ro = on_id (ob_nodes b ! x)"
  shows "t = s" "ro = resting_of (ob_nodes b ! x)"
proof -
  obtain y j where y: "y \<in> set (q t j)" "ro = resting_of (ob_nodes b ! y)"
    using ro(1) unfolding set_abs_side [OF rep] by blast
  then have "y = x"
    using inj_onD [OF inj_ids [OF rep], of y x] ro(2) in_liveI [of y q t j] in_liveI [of x q s i] x by simp
  then show "t = s" "ro = resting_of (ob_nodes b ! x)" using queues_disjoint [OF rep x] y by blast+
qed

lemma abs_side_reduce:
  assumes rep: "book_rep b q" and x: "x \<in> set (q s i)"
  shows "abs_side (reduce_head b s i x traded) q t =
    map (\<lambda>ro. if ro_order_id ro = on_id (ob_nodes b ! x) then ro\<lparr>ro_quantity := ro_quantity ro - traded\<rparr> else ro)
      (abs_side b q t)"
proof -
  let ?b = "reduce_head b s i x traded"
  let ?f = "\<lambda>ro. if ro_order_id ro = on_id (ob_nodes b ! x) then ro\<lparr>ro_quantity := ro_quantity ro - traded\<rparr> else ro"
  have lx: "x \<in> live q" using x by (rule in_liveI)
  have "resting_of (ob_nodes ?b ! y) = ?f (resting_of (ob_nodes b ! y))" if "y \<in> set (q t j)" for y j
  proof (cases "y = x")
    case True
    then show ?thesis using live_less(1) [OF rep lx] by (simp add: reduce_head_def resting_of_def)
  next
    case False
    then have "on_id (ob_nodes b ! y) \<noteq> on_id (ob_nodes b ! x)"
      using inj_onD [OF inj_ids [OF rep], of y x] in_liveI [of y q t j] lx that by auto
    then show ?thesis using False by (simp add: reduce_head_def nth_upd)
  qed
  then have "rs ?b (q t j) = map ?f (rs b (q t j))" for j by (simp add: rs_def)
  then show ?thesis by (simp add: abs_side_def map_concat comp_def reduce_head_def)
qed

lemma crosses_spec:
  "i \<noteq> no_price \<Longrightarrow> crosses b side limit i = spec_crosses side limit (index_price (ob_config b) i)"
  by (simp add: crosses_def spec_crosses_def)

lemma crosses_no_price [simp]: "\<not> crosses b side limit no_price"
  by (simp add: crosses_def)

lemma filter_reduced:
  "filter (\<lambda>ro. ro_order_id ro \<noteq> k)
     (map (\<lambda>ro. if ro_order_id ro = k then ro\<lparr>ro_quantity := f ro\<rparr> else ro) os) =
   filter (\<lambda>ro. ro_order_id ro \<noteq> k) os"
  by (induction os) auto

text \<open>The state after the head of the best level has traded completely.\<close>

lemma fill_head:
  assumes rep: "book_rep b q" and pos: "positive b q" and ab: "abs_side b q s = ro # os"
    and qi: "q s (best_index b s) = x # zs" and ro: "ro = resting_of (ob_nodes b ! x)"
  shows "\<exists>b' q'. remove_node (reduce_head b s (best_index b s) x (ro_quantity ro)) x = Some b' \<and>
    book_rep b' q' \<and> positive b' q' \<and> ob_config b' = ob_config b \<and>
    abs_side b' q' s = os \<and> (\<forall>t. t \<noteq> s \<longrightarrow> abs_side b' q' t = abs_side b q t) \<and>
    ob_stats b' = (ob_stats b)\<lparr>st_trades := st_trades (ob_stats b) + 1,
      st_resting_orders := st_resting_orders (ob_stats b')\<rparr>"
proof -
  let ?i = "best_index b s" and ?k = "on_id (ob_nodes b ! x)"
  let ?b = "reduce_head b s ?i x (ro_quantity ro)" and ?q = "upd_q q s ?i zs"
  have x: "x \<in> set (q s ?i)" using qi by simp
  have rep1: "book_rep ?b q" by (rule reduce_head_rep [OF rep qi])
  from remove_node_rep [OF rep1, of s ?i "[]" x zs] qi obtain b' where b': "remove_node ?b x = Some b'"
    "book_rep b' ?q" "ob_config b' = ob_config ?b"
    "\<And>y. y \<noteq> x \<Longrightarrow> resting_of (ob_nodes b' ! y) = resting_of (ob_nodes ?b ! y)"
    "ob_stats b' = (ob_stats ?b)\<lparr>st_resting_orders := card (live q) - 1\<rparr>"
    by auto
  have same: "resting_of (ob_nodes b' ! y) = resting_of (ob_nodes b ! y)" if "y \<noteq> x" for y
    using b'(4) [OF that] that by (simp add: reduce_head_def nth_upd)
  have k: "on_id (ob_nodes ?b ! x) = ?k" by (simp add: reduce_head_def nth_upd)
  have sides: "abs_side b' ?q t = filter (\<lambda>ro. ro_order_id ro \<noteq> ?k) (abs_side b q t)" for t
  proof -
    have "abs_side b' ?q t = filter (\<lambda>ro. ro_order_id ro \<noteq> ?k) (abs_side ?b q t)"
      using abs_side_remove [OF rep1, of b' s ?i "[]" zs x t] b' qi k by simp
    also have "\<dots> = filter (\<lambda>ro. ro_order_id ro \<noteq> ?k) (abs_side b q t)"
      unfolding abs_side_reduce [OF rep x] by (rule filter_reduced)
    finally show ?thesis .
  qed
  have "distinct (map ro_order_id (abs_side b q s))"
    using distinct_ids [OF rep] by (cases s) auto
  then have "filter (\<lambda>ro. ro_order_id ro \<noteq> ?k) os = os" "ro_order_id ro = ?k"
    using ab ro by (auto simp: filter_id_conv image_iff)
  then have "abs_side b' ?q s = os" using sides [of s] ab by simp
  moreover have "abs_side b' ?q t = abs_side b q t" if "t \<noteq> s" for t
    using sides [of t] id_in_side(1) [OF rep x, of _ t] that by (auto simp: filter_id_conv)
  moreover have "positive b' ?q"
    using pos same on_fields_resting(4) live_upd_remove [OF rep1, of s ?i "[]" x zs] qi
    unfolding positive_def by (metis Diff_iff append_Nil insertI1)
  ultimately show ?thesis
    using b' by (intro exI [of _ b'] exI [of _ ?q]) (auto simp: reduce_head_def)
qed

text \<open>The state after the head of the best level has traded in part.\<close>

lemma reduce_head_partial:
  assumes rep: "book_rep b q" and pos: "positive b q" and ab: "abs_side b q s = ro # os"
    and qi: "q s (best_index b s) = x # zs" and ro: "ro = resting_of (ob_nodes b ! x)"
    and t: "traded \<noteq> ro_quantity ro"
  shows "positive (reduce_head b s (best_index b s) x traded) q"
    "abs_side (reduce_head b s (best_index b s) x traded) q s = ro\<lparr>ro_quantity := ro_quantity ro - traded\<rparr> # os"
    "u \<noteq> s \<Longrightarrow> abs_side (reduce_head b s (best_index b s) x traded) q u = abs_side b q u"
proof -
  let ?i = "best_index b s" and ?k = "on_id (ob_nodes b ! x)"
  let ?b = "reduce_head b s ?i x traded"
  have x: "x \<in> set (q s ?i)" using qi by simp
  have "x < length (ob_nodes b)" using live_less(1) [OF rep in_liveI [of x q s ?i]] x by simp
  then show "positive ?b q"
    using pos t ro by (auto simp: positive_def reduce_head_def nth_upd)
  have "distinct (map ro_order_id (abs_side b q s))"
    using distinct_ids [OF rep] by (cases s) auto
  then show "abs_side ?b q s = ro\<lparr>ro_quantity := ro_quantity ro - traded\<rparr> # os"
    unfolding abs_side_reduce [OF rep x] ab using ab ro by (auto simp: image_iff intro!: map_idI)
  show "abs_side ?b q u = abs_side b q u" if "u \<noteq> s"
    unfolding abs_side_reduce [OF rep x] using id_in_side(1) [OF rep x, of _ u] that
    by (intro map_idI) auto
qed

subsection \<open>The matching loop\<close>

lemma match_loop_stop:
  assumes "remaining = 0 \<or> \<not> crosses b (c_side command) limit (best_index b (opposite (c_side command)))"
  shows "match_loop b command limit remaining evs = Some (b, remaining, evs)"
  using assms by (subst match_loop.simps) (auto simp: Let_def word_neq_0_conv)

lemma match_loop_step:
  assumes rep: "book_rep b q" and qi: "q s (best_index b s) = x # zs"
    and s: "s = opposite (c_side command)" and r: "remaining \<noteq> 0"
    and cr: "crosses b (c_side command) limit (best_index b s)"
  defines "ro \<equiv> resting_of (ob_nodes b ! x)"
  defines "traded \<equiv> min remaining (ro_quantity ro)"
  shows "match_loop b command limit remaining evs =
    do {
      b2 \<leftarrow> (if ro_quantity ro - traded = 0
             then remove_node (reduce_head b s (best_index b s) x traded) x
             else Some (reduce_head b s (best_index b s) x traded));
      match_loop b2 command limit (remaining - traded)
        (evs @ [make_event Trade command (ro_order_id ro) (ro_price ro) traded NoReason])
    }"
proof -
  let ?i = "best_index b s"
  have x: "x \<in> set (q s ?i)" using qi by simp
  note inq = in_queueD [OF rep x]
  have i: "?i < length (levels b s)" using inq(1) book_repD(2) [OF rep] by simp
  have xN: "x < length (ob_nodes b)" using live_less(1) [OF rep in_liveI [of x q s ?i]] x by simp
  have head: "pl_head (levels b s ! ?i) = x" using inq(2) qi by (simp add: level_rep_def fifo_def)
  show ?thesis
    using i xN head cr r
    by (subst match_loop.simps)
      (simp add: Let_def s [symmetric] vec_simps ro_def traded_def reduce_head_def emit_def word_neq_0_conv)
qed

lemma spec_crosses_best:
  assumes "book_rep b q" "q s (best_index b s) = x # zs" "best_index b s \<noteq> no_price"
  shows "crosses b side limit (best_index b s) = spec_crosses side limit (ro_price (resting_of (ob_nodes b ! x)))"
  using crosses_spec [OF assms(3)] book_repD(6) [OF assms(1), of x s "best_index b s"] assms(2) by simp

lemma stats_trans:
  "S1 = S\<lparr>st_trades := st_trades S + m, st_resting_orders := r1\<rparr> \<Longrightarrow>
   S2 = S1\<lparr>st_trades := st_trades S1 + n, st_resting_orders := r2\<rparr> \<Longrightarrow>
   S2 = S\<lparr>st_trades := st_trades S + (m + n), st_resting_orders := r2\<rparr>"
  by (simp add: add.assoc)

text \<open>
  The loop returns for every book that satisfies the invariant, and it consumes the
  opposite side from the front exactly as \<open>spec_match\<close> does.
\<close>

lemma match_loop_refines:
  fixes command :: Command
  defines "side \<equiv> c_side command"
  assumes "book_rep b q" "positive b q"
    and "spec_match command limit remaining (abs_side b q (opposite side)) = (es, r, os)"
  shows "\<exists>b' q'. match_loop b command limit remaining evs = Some (b', r, evs @ es) \<and>
    book_rep b' q' \<and> positive b' q' \<and> ob_config b' = ob_config b \<and>
    abs_side b' q' (opposite side) = os \<and> abs_side b' q' side = abs_side b q side \<and>
    ob_stats b' = (ob_stats b)\<lparr>st_trades := st_trades (ob_stats b) + of_nat (length es),
      st_resting_orders := st_resting_orders (ob_stats b')\<rparr>"
  using assms(2-)
proof (induction "abs_side b q (opposite side)" arbitrary: b q remaining evs es)
  case Nil
  then have "best_index b (opposite side) = no_price" using best_index_none by metis
  then have "match_loop b command limit remaining evs = Some (b, remaining, evs)"
    using match_loop_stop by (simp add: side_def)
  then show ?case using Nil by (intro exI [of _ b] exI [of _ q]) (simp add: Nil.hyps [symmetric])
next
  case (Cons ro os0)
  let ?opp = "opposite side"
  let ?i = "best_index b ?opp"
  have ab: "abs_side b q ?opp = ro # os0" using Cons.hyps(2) by simp
  obtain x zs where qi: "q ?opp ?i = x # zs" and ro: "ro = resting_of (ob_nodes b ! x)" and np: "?i \<noteq> no_price"
    using best_index_first [OF Cons.prems(1), of ?opp] ab by (metis list.distinct(1) list.inject rs_Cons append_Cons)
  have cr: "crosses b side limit ?i = spec_crosses side limit (ro_price ro)"
    using spec_crosses_best [OF Cons.prems(1) qi np] ro by simp
  note sm = Cons.prems(3) [unfolded ab]
  show ?case
  proof (cases "remaining = 0 \<or> \<not> spec_crosses side limit (ro_price ro)")
    case True
    then have "es = []" "r = remaining" "os = ro # os0" using sm by (auto simp: side_def)
    moreover have "match_loop b command limit remaining evs = Some (b, remaining, evs)"
      using True cr match_loop_stop by (auto simp: side_def)
    ultimately show ?thesis using Cons.prems ab by (intro exI [of _ b] exI [of _ q]) auto
  next
    case False
    define traded where "traded = min remaining (ro_quantity ro)"
    let ?ev = "make_event Trade command (ro_order_id ro) (ro_price ro) traded NoReason"
    have step: "match_loop b command limit remaining evs =
      do { b2 \<leftarrow> (if ro_quantity ro - traded = 0 then remove_node (reduce_head b ?opp ?i x traded) x
                 else Some (reduce_head b ?opp ?i x traded));
           match_loop b2 command limit (remaining - traded) (evs @ [?ev]) }"
      using match_loop_step [OF Cons.prems(1) qi, of command remaining limit evs] False cr
      by (simp add: side_def ro traded_def)
    show ?thesis
    proof (cases "traded = ro_quantity ro")
      case True
      obtain es1 where sm1: "spec_match command limit (remaining - traded) os0 = (es1, r, os)" "es = ?ev # es1"
        using sm False True by (auto simp: side_def traded_def Let_def split: prod.splits)
      obtain b1 q1 where b1: "remove_node (reduce_head b ?opp ?i x traded) x = Some b1"
        "book_rep b1 q1" "positive b1 q1" "ob_config b1 = ob_config b" "abs_side b1 q1 ?opp = os0"
        "abs_side b1 q1 side = abs_side b q side"
        "ob_stats b1 = (ob_stats b)\<lparr>st_trades := st_trades (ob_stats b) + 1,
           st_resting_orders := st_resting_orders (ob_stats b1)\<rparr>"
        using fill_head [OF Cons.prems(1,2) ab qi ro] True by (auto simp: side_neq_iff)
      from Cons.hyps(1) [OF b1(5) [symmetric] b1(2,3), of "remaining - traded" es1 "evs @ [?ev]"] sm1(1) b1(5)
      obtain b' q' where b': "match_loop b1 command limit (remaining - traded) (evs @ [?ev]) = Some (b', r, (evs @ [?ev]) @ es1)"
        "book_rep b' q'" "positive b' q'" "ob_config b' = ob_config b1" "abs_side b' q' ?opp = os"
        "abs_side b' q' side = abs_side b1 q1 side"
        "ob_stats b' = (ob_stats b1)\<lparr>st_trades := st_trades (ob_stats b1) + of_nat (length es1),
           st_resting_orders := st_resting_orders (ob_stats b')\<rparr>"
        by auto
      have "ob_stats b' = (ob_stats b)\<lparr>st_trades := st_trades (ob_stats b) + of_nat (length es),
           st_resting_orders := st_resting_orders (ob_stats b')\<rparr>"
        unfolding sm1(2) length_Cons of_nat_Suc by (rule stats_trans [OF b1(7) b'(7)])
      then show ?thesis
        using b' b1(1,4,6) step True sm1(2) by (intro exI [of _ b'] exI [of _ q']) simp
    next
      case part: False
      then have tr: "traded = remaining" "remaining < ro_quantity ro"
        by (auto simp: traded_def min_def split: if_splits)
      have res: "es = [?ev]" "r = 0" "os = ro\<lparr>ro_quantity := ro_quantity ro - traded\<rparr> # os0"
        using sm False part by (auto simp: side_def traded_def Let_def)
      let ?b = "reduce_head b ?opp ?i x traded"
      have "match_loop b command limit remaining evs = Some (?b, 0, evs @ [?ev])"
        using step part tr match_loop_stop [of 0] by simp
      moreover note reduce_head_partial [OF Cons.prems(1,2) ab qi ro part]
      ultimately show ?thesis
        using res reduce_head_rep [OF Cons.prems(1) qi, of traded]
        by (intro exI [of _ ?b] exI [of _ q]) (auto simp: side_neq_iff reduce_head_def)
    qed
  qed
qed

subsection \<open>Deciding whether an order can be filled\<close>

text \<open>The levels scanned after \<open>i\<close>, and the decision on the nonempty levels in scan order.\<close>

definition after :: "Side \<Rightarrow> nat \<Rightarrow> nat \<Rightarrow> nat list" where
  "after s n i = (if s = Sell then [Suc i..<n] else rev [0..<i])"

fun fill_scan :: "(nat \<Rightarrow> bool) \<Rightarrow> (nat \<Rightarrow> Quantity) \<Rightarrow> Quantity \<Rightarrow> Quantity \<Rightarrow> nat list \<Rightarrow> bool" where
  "fill_scan cross tot quantity available [] \<longleftrightarrow> False"
| "fill_scan cross tot quantity available (i # is) \<longleftrightarrow>
     cross i \<and> (tot i \<ge> quantity - available \<or>
       fill_scan cross tot quantity (available + tot i) is)"

lemma skip_up_run:
  assumes "i \<le> k" "k \<le> length ls" "\<And>j. i \<le> j \<Longrightarrow> j < k \<Longrightarrow> pl_count (ls ! j) = 0"
    and "k < length ls \<Longrightarrow> pl_count (ls ! k) \<noteq> 0"
  shows "skip_up ls (length ls) i = Some k"
  using assms
proof (induction "k - i" arbitrary: i)
  case 0
  then show ?case by (subst skip_up.simps) (auto simp: vec_simps)
next
  case (Suc d)
  then have "skip_up ls (length ls) (i + 1) = Some k" by (intro Suc.hyps(1)) auto
  then show ?case using Suc by (subst skip_up.simps) (auto simp: vec_simps)
qed

lemma skip_down_run:
  assumes "k \<le> i" "i < length ls" "\<And>j. k < j \<Longrightarrow> j \<le> i \<Longrightarrow> pl_count (ls ! j) = 0" "pl_count (ls ! k) \<noteq> 0"
  shows "skip_down ls i = Some (Some k)"
  using assms
proof (induction "i - k" arbitrary: i)
  case 0
  then show ?case by (subst skip_down.simps) (auto simp: vec_simps)
next
  case (Suc d)
  then have "skip_down ls (i - 1) = Some (Some k)" by (intro Suc.hyps(1)) auto
  then show ?case using Suc by (subst skip_down.simps) (auto simp: vec_simps)
qed

lemma skip_down_none:
  assumes "i < length ls" "\<And>j. j \<le> i \<Longrightarrow> pl_count (ls ! j) = 0"
  shows "skip_down ls i = Some None"
  using assms
proof (induction i)
  case 0
  then show ?case by (subst skip_down.simps) (auto simp: vec_simps)
next
  case (Suc i)
  then have "skip_down ls i = Some None" by (intro Suc.IH) auto
  then show ?case using Suc by (subst skip_down.simps) (auto simp: vec_simps)
qed

lemma next_above:
  fixes i n :: nat
  shows "(\<forall>j. i < j \<longrightarrow> j < n \<longrightarrow> \<not> P j) \<or> (\<exists>k. i < k \<and> k < n \<and> P k \<and> (\<forall>j. i < j \<longrightarrow> j < k \<longrightarrow> \<not> P j))"
proof (rule disjCI)
  assume "\<not> (\<exists>k. i < k \<and> k < n \<and> P k \<and> (\<forall>j. i < j \<longrightarrow> j < k \<longrightarrow> \<not> P j))"
  then show "\<forall>j. i < j \<longrightarrow> j < n \<longrightarrow> \<not> P j"
    using exists_least_iff [of "\<lambda>k. i < k \<and> k < n \<and> P k"] by (metis less_trans)
qed

lemma next_below:
  fixes i :: nat
  shows "(\<forall>j<i. \<not> P j) \<or> (\<exists>k<i. P k \<and> (\<forall>j. k < j \<longrightarrow> j < i \<longrightarrow> \<not> P j))"
proof (induction i)
  case (Suc i)
  show ?case
  proof (cases "P i")
    case True
    then show ?thesis by (intro disjI2 exI [of _ i]) auto
  next
    case False
    then show ?thesis using Suc.IH by (metis less_Suc_eq)
  qed
qed simp

lemma filter_after_Sell:
  assumes "i < k" "k < n" "P k" "\<And>j. i < j \<Longrightarrow> j < k \<Longrightarrow> \<not> P j"
  shows "filter P [Suc i..<n] = k # filter P [Suc k..<n]"
proof -
  have "[Suc i..<n] = [Suc i..<k] @ k # [Suc k..<n]"
    using assms(1,2) upt_add_eq_append [of "Suc i" k "n - k"] by (simp add: upt_conv_Cons)
  then show ?thesis using assms(3,4) by simp
qed

lemma filter_after_Buy:
  assumes "k < i" "P k" "\<And>j. k < j \<Longrightarrow> j < i \<Longrightarrow> \<not> P j"
  shows "filter P (rev [0..<i]) = k # filter P (rev [0..<k])"
proof -
  have "rev [0..<i] = rev [Suc k..<i] @ k # rev [0..<k]" using upt_eq_split [OF assms(1)] by simp
  then show ?thesis using assms(2,3) by simp
qed

lemma fill_loop_step:
  fixes side :: Side
  assumes rep: "book_rep b q" and i: "i < ob_price_count b"
  defines "s \<equiv> opposite side"
  defines "tot \<equiv> pl_total_quantity (levels b s ! i)"
  shows "fill_loop b side limit quantity available i =
    (if crosses b side limit i then
       if tot \<ge> quantity - available then Some True
       else (case filter (\<lambda>j. q s j \<noteq> []) (after s (ob_price_count b) i) of
               [] \<Rightarrow> Some False
             | k # _ \<Rightarrow> fill_loop b side limit quantity (available + tot) k)
     else Some False)"
proof -
  let ?P = "ob_price_count b" and ?ne = "\<lambda>j. q s j \<noteq> []"
  have len: "length (levels b s) = ?P" using book_repD(2) [OF rep] .
  have cnt: "pl_count (levels b s ! j) = 0 \<longleftrightarrow> q s j = []" if "j < ?P" for j
    using level_repD(2) [OF rep disjI2 [OF that], of s] by (simp add: level_rep_def)
  have np: "i \<noteq> no_price"
    using i price_count_bounds(2) [OF book_repD(1) [OF rep]] by (simp add: no_price_def)
  show ?thesis
  proof (cases side)
    case Buy
    then have s: "s = Sell" by (simp add: s_def)
    show ?thesis
      using next_above [of i ?P ?ne]
    proof (elim disjE exE conjE)
      assume no: "\<forall>j. i < j \<longrightarrow> j < ?P \<longrightarrow> \<not> q s j \<noteq> []"
      then have f: "filter ?ne (after s ?P i) = []" by (simp add: after_def s)
      have "skip_up (levels b s) ?P (Suc i) = Some ?P"
        using skip_up_run [of "Suc i" ?P "levels b s"] i len cnt no by auto
      then show ?thesis
        using Buy f i len np
        by (subst fill_loop.simps) (auto simp: vec_simps tot_def s)
    next
      fix k assume k: "i < k" "k < ?P" "q s k \<noteq> []" "\<forall>j. i < j \<longrightarrow> j < k \<longrightarrow> \<not> q s j \<noteq> []"
      then have f: "filter ?ne (after s ?P i) = k # filter ?ne [Suc k..<?P]"
        using filter_after_Sell [of i k ?P ?ne] by (simp add: after_def s)
      have "skip_up (levels b s) ?P (Suc i) = Some k"
        using skip_up_run [of "Suc i" k "levels b s"] len cnt k by auto
      then show ?thesis
        using Buy f i k len np
        by (subst fill_loop.simps) (auto simp: vec_simps tot_def s)
    qed
  next
    case Sell
    then have s: "s = Buy" by (simp add: s_def)
    show ?thesis
      using next_below [of i ?ne]
    proof (elim disjE exE conjE)
      assume no: "\<forall>j<i. \<not> q s j \<noteq> []"
      then have f: "filter ?ne (after s ?P i) = []" by (simp add: after_def s)
      have "i \<noteq> 0 \<Longrightarrow> skip_down (levels b s) (i - 1) = Some None"
        using skip_down_none [of "i - 1" "levels b s"] i len cnt no by auto
      then show ?thesis
        using Sell f i len np
        by (subst fill_loop.simps) (auto simp: vec_simps tot_def s)
    next
      fix k assume k: "k < i" "q s k \<noteq> []" "\<forall>j. k < j \<longrightarrow> j < i \<longrightarrow> \<not> q s j \<noteq> []"
      then have f: "filter ?ne (after s ?P i) = k # filter ?ne (rev [0..<k])"
        using filter_after_Buy [of k i ?ne] by (simp add: after_def s)
      have "skip_down (levels b s) (i - 1) = Some (Some k)"
        using skip_down_run [of k "i - 1" "levels b s"] len cnt i k by auto
      then show ?thesis
        using Sell f i k len np
        by (subst fill_loop.simps) (auto simp: vec_simps tot_def s)
    qed
  qed
qed

lemma after_Cons:
  assumes "filter P (after s n i) = k # is"
  shows "is = filter P (after s n k)" "P k" "s = Sell \<Longrightarrow> k < n" "s = Buy \<Longrightarrow> k < i"
proof -
  have "is = filter P (after s n k) \<and> P k \<and> (s = Sell \<longrightarrow> k < n) \<and> (s = Buy \<longrightarrow> k < i)"
  proof (cases s)
    case Sell
    show ?thesis
      using next_above [of i n P] filter_after_Sell [of i _ n P] assms Sell by (auto simp: after_def)
  next
    case Buy
    show ?thesis
      using next_below [of i P] filter_after_Buy [of _ i P] assms Buy by (auto simp: after_def)
  qed
  then show "is = filter P (after s n k)" "P k" "s = Sell \<Longrightarrow> k < n" "s = Buy \<Longrightarrow> k < i" by auto
qed

lemma fill_loop_scan:
  fixes side :: Side
  defines "s \<equiv> opposite side"
  assumes rep: "book_rep b q" and i: "i < ob_price_count b"
  shows "fill_loop b side limit quantity available i =
    Some (fill_scan (crosses b side limit) (\<lambda>j. pl_total_quantity (levels b s ! j)) quantity available
      (i # filter (\<lambda>j. q s j \<noteq> []) (after s (ob_price_count b) i)))"
  using i
proof (induction "filter (\<lambda>j. q s j \<noteq> []) (after s (ob_price_count b) i)" arbitrary: i available)
  case Nil
  show ?case
    unfolding Nil.hyps [symmetric] using fill_loop_step [OF rep Nil.prems, of side] Nil.hyps by (simp add: s_def)
next
  case (Cons k ks)
  note k = after_Cons [OF Cons.hyps(2) [symmetric]]
  have "k < ob_price_count b" using k(3,4) Cons.prems by (cases s) auto
  then have "fill_loop b side limit quantity (available + pl_total_quantity (levels b s ! i)) k =
    Some (fill_scan (crosses b side limit) (\<lambda>j. pl_total_quantity (levels b s ! j)) quantity
      (available + pl_total_quantity (levels b s ! i)) (k # ks))"
    using Cons.hyps(1) [OF k(1)] k(1) by simp
  then show ?case
    unfolding Cons.hyps(2) [symmetric]
    using fill_loop_step [OF rep Cons.prems, of side] Cons.hyps(2) [symmetric] by (simp add: s_def)
qed

lemma fill_scan_iff:
  assumes "unat available < unat quantity"
  shows "fill_scan cross tot quantity available is \<longleftrightarrow>
    unat quantity \<le> unat available + sum_list (map (\<lambda>i. unat (tot i)) (takeWhile cross is))"
  using assms
proof (induction "is" arbitrary: available)
  case (Cons i js)
  have diff: "unat (quantity - available) = unat quantity - unat available"
    using Cons.prems by (intro unat_sub) (simp add: word_le_nat_alt)
  show ?case
  proof (cases "tot i \<ge> quantity - available")
    case True
    then have "unat quantity \<le> unat available + unat (tot i)"
      using diff Cons.prems by (simp add: word_le_nat_alt)
    then show ?thesis using True Cons.prems by auto
  next
    case False
    then have lt: "unat available + unat (tot i) < unat quantity"
      using diff Cons.prems by (simp add: word_le_nat_alt)
    then have "unat (available + tot i) = unat available + unat (tot i)"
      using unsigned_less [of quantity, where ?'a = nat] by (intro unat_add_lem [THEN iffD1]) simp
    then show ?thesis using False Cons.IH [of "available + tot i"] lt Cons.prems by (auto simp: add.assoc)
  qed
qed simp

lemma unat_sum_list: "unat (sum_list ws :: 64 word) = sum_list (map unat ws) mod 2 ^ 64"
  by (induction ws) (simp_all add: unat_word_ariths mod_simps)

text \<open>What rests at a price, as a mathematical sum.\<close>

definition level_quantity :: "RestingOrder list \<Rightarrow> Price \<Rightarrow> nat" where
  "level_quantity os p = sum_list (map (\<lambda>ro. unat (ro_quantity ro)) (filter (\<lambda>ro. ro_price ro = p) os))"

definition no_wrap :: "RestingOrder list \<Rightarrow> bool" where
  "no_wrap os \<longleftrightarrow> (\<forall>p. level_quantity os p < 2 ^ 64)"

definition queue_quantity :: "OrderBook \<Rightarrow> nat list \<Rightarrow> nat" where
  "queue_quantity b xs = sum_list (map (\<lambda>x. unat (on_remaining (ob_nodes b ! x))) xs)"

lemma level_total:
  assumes "book_rep b q" "i < ob_price_count b"
  shows "unat (pl_total_quantity (levels b s ! i)) = queue_quantity b (q s i) mod 2 ^ 64"
  using level_repD(2) [OF assms(1) disjI2 [OF assms(2)], of s]
  by (simp add: level_rep_def unat_sum_list queue_quantity_def comp_def)

lemma filter_level:
  assumes rep: "book_rep b q" and i: "i < ob_price_count b"
  shows "filter (\<lambda>ro. ro_price ro = index_price (ob_config b) i) (abs_side b q s) = rs b (q s i)"
proof -
  let ?p = "\<lambda>ro. ro_price ro = index_price (ob_config b) i"
  have eq: "index_price (ob_config b) j = index_price (ob_config b) i \<longleftrightarrow> j = i" if "j < ob_price_count b" for j
    using price_index_index_price [OF book_repD(1) [OF rep]] i that by metis
  have lev: "filter ?p (rs b (q s j)) = (if j = i then rs b (q s i) else [])" if "j < ob_price_count b" for j
    using book_repD(6) [OF rep, of _ s j] eq [OF that] by (auto simp: filter_id_conv filter_empty_conv)
  have "filter ?p (abs_side b q s) =
      concat (map (\<lambda>j. if j = i then rs b (q s i) else []) (scan s (ob_price_count b)))"
    unfolding abs_side_def filter_concat map_map comp_def
    by (intro arg_cong [of _ _ concat] map_cong refl lev) simp
  also have "\<dots> = rs b (q s i)"
  proof -
    obtain pre post where sc: "scan s (ob_price_count b) = pre @ i # post" using scan_split [OF i] by metis
    then have "i \<notin> set pre" "i \<notin> set post" using distinct_scan [of s "ob_price_count b"] by auto
    then have "concat (map (\<lambda>j. if j = i then rs b (q s i) else []) pre) = []"
      "concat (map (\<lambda>j. if j = i then rs b (q s i) else []) post) = []" by auto
    then show ?thesis unfolding sc map_append concat_append by (simp only: list.map concat.simps) simp
  qed
  finally show ?thesis .
qed

lemma queue_quantity_less:
  assumes "book_rep b q" "i < ob_price_count b" "no_wrap (abs_side b q s)"
  shows "queue_quantity b (q s i) < 2 ^ 64"
proof -
  have "level_quantity (abs_side b q s) (index_price (ob_config b) i) = queue_quantity b (q s i)"
    by (simp add: level_quantity_def filter_level [OF assms(1,2)] queue_quantity_def rs_def comp_def)
  then show ?thesis using assms(3) unfolding no_wrap_def by metis
qed

lemma spec_available_levels:
  assumes rep: "book_rep b q" and "\<And>j. j \<in> set is \<Longrightarrow> q s j \<noteq> [] \<and> j < ob_price_count b"
  shows "spec_available side limit (concat (map (\<lambda>j. rs b (q s j)) is)) =
    sum_list (map (\<lambda>j. queue_quantity b (q s j)) (takeWhile (crosses b side limit) is))"
  using assms(2)
proof (induction "is")
  case (Cons j js)
  let ?P = "\<lambda>ro. spec_crosses side limit (ro_price ro)"
  have j: "q s j \<noteq> []" "j < ob_price_count b" using Cons.prems [of j] by auto
  then have "j \<noteq> no_price"
    using price_count_bounds(2) [OF book_repD(1) [OF rep]] by (simp add: no_price_def)
  then have cr: "?P ro = crosses b side limit j" if "ro \<in> set (rs b (q s j))" for ro
    using that book_repD(6) [OF rep] crosses_spec by auto
  have IH: "spec_available side limit (concat (map (\<lambda>j. rs b (q s j)) js)) =
    sum_list (map (\<lambda>j. queue_quantity b (q s j)) (takeWhile (crosses b side limit) js))"
    using Cons by simp
  show ?case
  proof (cases "crosses b side limit j")
    case True
    then have "takeWhile ?P (rs b (q s j) @ ros) = rs b (q s j) @ takeWhile ?P ros" for ros
      using cr by (intro takeWhile_append2) auto
    then show ?thesis
      using True IH by (simp add: spec_available_def queue_quantity_def rs_def comp_def)
  next
    case False
    obtain ro ros where "rs b (q s j) = ro # ros" using j(1) by (cases "q s j") auto
    then show ?thesis using False cr [of ro] by (simp add: spec_available_def)
  qed
qed (simp add: spec_available_def)

lemma scan_after: "i < n \<Longrightarrow> scan s n = xs @ i # ys \<Longrightarrow> ys = after s n i"
proof -
  assume i: "i < n" and eq: "scan s n = xs @ i # ys"
  have "scan s n = (if s = Sell then [0..<i] else rev [Suc i..<n]) @ i # after s n i"
    using upt_eq_split [OF i] by (simp add: scan_def after_def)
  moreover have "i \<notin> set xs" "i \<notin> set ys" using distinct_scan [of s n] unfolding eq by auto
  ultimately show "ys = after s n i" using eq append_Cons_eq_iff [of i xs ys] by simp
qed
text \<open>
  \<open>can_fully_fill\<close> always answers.  A positive answer is right: the acceptable orders hold
  the quantity.  A negative answer is right as long as no level's sum exceeds 64 bits.
\<close>

lemma can_fully_fill_decides:
  fixes side :: Side
  defines "s \<equiv> opposite side"
  assumes rep: "book_rep b q" and qty: "quantity \<noteq> 0"
  shows "\<exists>d. can_fully_fill b side limit quantity = Some d \<and>
    (d \<longrightarrow> unat quantity \<le> spec_available side limit (abs_side b q s)) \<and>
    (no_wrap (abs_side b q s) \<longrightarrow> d = (unat quantity \<le> spec_available side limit (abs_side b q s)))"
proof (cases "abs_side b q s = []")
  case True
  then have "can_fully_fill b side limit quantity = Some False"
    unfolding can_fully_fill_def best_index_none [OF rep True, unfolded s_def] by (subst fill_loop.simps) simp
  then show ?thesis using True qty by (intro exI [of _ False]) (simp add: spec_available_def unat_eq_0)
next
  case False
  let ?i = "best_index b s" and ?P = "ob_price_count b" and ?ne = "\<lambda>j. q s j \<noteq> []"
  let ?cross = "crosses b side limit" and ?tot = "\<lambda>j. pl_total_quantity (levels b s ! j)"
  obtain x zs rest where f: "q s ?i = x # zs"
    "scan s ?P = takeWhile (\<lambda>j. q s j = []) (scan s ?P) @ ?i # rest"
    "abs_side b q s = rs b (x # zs) @ concat (map (\<lambda>j. rs b (q s j)) rest)" "?i < ?P"
    using best_index_first [OF rep False] by metis
  define ks where "ks = ?i # filter ?ne (after s ?P ?i)"
  have rest: "rest = after s ?P ?i" using scan_after [OF f(4,2)] .
  have "concat (map (\<lambda>j. rs b (q s j)) (filter ?ne js)) = concat (map (\<lambda>j. rs b (q s j)) js)" for js
    by (induction js) auto
  then have ab: "abs_side b q s = concat (map (\<lambda>j. rs b (q s j)) ks)"
    using f(1,3) rest by (simp add: ks_def)
  have ks: "q s j \<noteq> [] \<and> j < ?P" if "j \<in> set ks" for j
    using that f(1,4) by (auto simp: ks_def after_def split: if_splits)
  have av: "spec_available side limit (abs_side b q s) =
      sum_list (map (\<lambda>j. queue_quantity b (q s j)) (takeWhile ?cross ks))"
    unfolding ab using spec_available_levels [OF rep ks] .
  have "can_fully_fill b side limit quantity = Some (fill_scan ?cross ?tot quantity 0 ks)"
    using fill_loop_scan [OF rep f(4), of side limit quantity 0] by (simp add: can_fully_fill_def s_def ks_def)
  moreover have "fill_scan ?cross ?tot quantity 0 ks \<longleftrightarrow>
      unat quantity \<le> sum_list (map (\<lambda>j. queue_quantity b (q s j) mod 2 ^ 64) (takeWhile ?cross ks))"
  proof -
    have "map (\<lambda>j. unat (?tot j)) (takeWhile ?cross ks) = map (\<lambda>j. queue_quantity b (q s j) mod 2 ^ 64) (takeWhile ?cross ks)"
      using ks by (intro map_cong refl level_total [OF rep]) (auto dest: set_takeWhileD)
    then show ?thesis using fill_scan_iff [of 0 quantity ?cross ?tot ks] qty by (simp add: unat_gt_0 cong: map_cong)
  qed
  moreover have "sum_list (map (\<lambda>j. queue_quantity b (q s j) mod 2 ^ 64) (takeWhile ?cross ks)) \<le>
      spec_available side limit (abs_side b q s)"
    unfolding av by (intro sum_list_mono) simp
  moreover have "sum_list (map (\<lambda>j. queue_quantity b (q s j) mod 2 ^ 64) (takeWhile ?cross ks)) =
      sum_list (map (\<lambda>j. queue_quantity b (q s j)) (takeWhile ?cross ks))" if "no_wrap (abs_side b q s)"
    using queue_quantity_less [OF rep _ that] ks by (intro arg_cong [of _ _ sum_list] map_cong refl mod_less) (auto dest: set_takeWhileD)
  ultimately show ?thesis unfolding av by (intro exI [of _ "fill_scan ?cross ?tot quantity 0 ks"]) simp
qed

text \<open>The answer depends only on the configuration and the orders of the opposite side.\<close>

lemma can_fully_fill_scan:
  fixes side :: Side
  defines "s \<equiv> opposite side"
  assumes rep: "book_rep b q"
  shows "can_fully_fill b side limit quantity = Some (fill_scan (crosses b side limit)
    (\<lambda>j. pl_total_quantity (levels b s ! j)) quantity 0 (filter (\<lambda>j. q s j \<noteq> []) (scan s (ob_price_count b))))"
proof (cases "abs_side b q s = []")
  case True
  then have "rs b (q s j) = []" if "j < ob_price_count b" for j using that by (auto simp: abs_side_def)
  then have "filter (\<lambda>j. q s j \<noteq> []) (scan s (ob_price_count b)) = []" by (auto simp: filter_empty_conv rs_def)
  moreover have "can_fully_fill b side limit quantity = Some False"
    unfolding can_fully_fill_def best_index_none [OF rep True, unfolded s_def] by (subst fill_loop.simps) simp
  ultimately show ?thesis by simp
next
  case False
  let ?i = "best_index b s" and ?ne = "\<lambda>j. q s j \<noteq> []"
  obtain x zs pre rest where f: "q s ?i = x # zs" "scan s (ob_price_count b) = pre @ ?i # rest" "?i < ob_price_count b"
    "filter ?ne pre = []"
  proof -
    have "filter ?ne (takeWhile (\<lambda>j. q s j = []) js) = []" for js by (induction js) auto
    then show thesis using best_index_first [OF rep False] that by metis
  qed
  have "filter ?ne (scan s (ob_price_count b)) = ?i # filter ?ne rest" unfolding f(2) using f(1,4) by simp
  then show ?thesis
    using fill_loop_scan [OF rep f(3), of side limit quantity 0] scan_after [OF f(3,2)] by (simp add: can_fully_fill_def s_def)
qed

lemma fill_scan_cong:
  assumes "\<And>j. j \<in> set js \<Longrightarrow> cross j = cross' j \<and> tot j = tot' j"
  shows "fill_scan cross tot quantity available js = fill_scan cross' tot' quantity available js"
  using assms by (induction js arbitrary: available) auto

lemma can_fully_fill_same:
  assumes rep: "book_rep b q" "book_rep b' q'" and cfg: "ob_config b' = ob_config b"
    and same: "abs_side b' q' (opposite side) = abs_side b q (opposite side)"
  shows "can_fully_fill b' side limit quantity = can_fully_fill b side limit quantity"
proof -
  let ?s = "opposite side"
  have n: "ob_price_count b' = ob_price_count b" using book_repD(1) [OF rep(1)] book_repD(1) [OF rep(2)] cfg by simp
  have lev: "rs b' (q' ?s j) = rs b (q ?s j)" if "j < ob_price_count b" for j
    using filter_level [OF rep(1) that, of ?s] filter_level [OF rep(2), of j ?s] that n cfg same by simp
  have ne: "q' ?s j \<noteq> [] \<longleftrightarrow> q ?s j \<noteq> []" if "j < ob_price_count b" for j
    using lev [OF that] by (simp add: rs_def) (metis map_is_Nil_conv)
  have "filter (\<lambda>j. q' ?s j \<noteq> []) (scan ?s (ob_price_count b)) = filter (\<lambda>j. q ?s j \<noteq> []) (scan ?s (ob_price_count b))"
    by (rule filter_cong) (use ne in auto)
  moreover have "pl_total_quantity (levels b' ?s ! j) = pl_total_quantity (levels b ?s ! j)" if j: "j < ob_price_count b" for j
  proof -
    have tot: "pl_total_quantity (levels x ?s ! j) = sum_list (map ro_quantity (rs x (p ?s j)))"
      if "book_rep x p" "j < ob_price_count x" for x p
      using level_repD(2) [OF that(1) disjI2 [OF that(2)], of ?s] by (simp add: level_rep_def rs_def comp_def)
    show ?thesis using tot [OF rep(1) j] tot [OF rep(2)] lev [OF j] j n by simp
  qed
  moreover have "crosses b' side limit = crosses b side limit" by (simp add: crosses_def cfg fun_eq_iff)
  ultimately show ?thesis
    unfolding can_fully_fill_scan [OF rep(1)] can_fully_fill_scan [OF rep(2)] n
    by (auto intro!: fill_scan_cong)
qed

subsection \<open>Simulation of the commands\<close>

definition simulates :: "OrderBook \<Rightarrow> SpecBook \<Rightarrow> bool" where
  "simulates b A \<longleftrightarrow> (\<exists>q. book_rep b q \<and> positive b q \<and> abs_book b q = A)"

definition count_events :: "EventType \<Rightarrow> Event list \<Rightarrow> nat" where
  "count_events type es = length (filter (\<lambda>e. e_type e = type) es)"

text \<open>What the statistics are after the events \<open>es\<close> have led to the abstract book \<open>A\<close>.\<close>

definition stats_step :: "BookStats \<Rightarrow> Event list \<Rightarrow> SpecBook \<Rightarrow> BookStats" where
  "stats_step st es A = st\<lparr>st_last_sequence := sb_last_sequence A,
     st_trades := st_trades st + of_nat (count_events Trade es),
     st_rejected := st_rejected st + of_nat (count_events Rejected es),
     st_resting_orders := spec_size A\<rparr>"

definition refines :: "OrderBook \<Rightarrow> Event list \<Rightarrow> (OrderBook \<times> Event list) option \<Rightarrow> SpecBook \<times> Event list \<Rightarrow> bool" where
  "refines b evs result spec \<longleftrightarrow>
     (\<exists>b'. result = Some (b', evs @ snd spec) \<and> simulates b' (fst spec) \<and> ob_config b' = ob_config b \<and>
       ob_stats b' = stats_step (ob_stats b) (snd spec) (fst spec))"

lemma count_events_simps [simp]:
  "count_events type [] = 0"
  "count_events type (e # es) = (if e_type e = type then 1 else 0) + count_events type es"
  "count_events type (es @ es') = count_events type es + count_events type es'"
  by (simp_all add: count_events_def)

lemma e_type_make_event [simp]: "e_type (make_event type command contra price quantity reason) = type"
  by (simp add: make_event_def)

lemma simulates_stats:
  assumes "book_rep b q"
  shows "st_resting_orders (ob_stats b) = spec_size (abs_book b q)"
    "st_last_sequence (ob_stats b) = sb_last_sequence (abs_book b q)"
  using spec_size_abs [OF assms] book_repD(9) [OF assms] by (simp_all add: abs_book_def)

text \<open>Changing counters that the invariant does not read.\<close>

lemma book_rep_stats:
  assumes "st_resting_orders st = st_resting_orders (ob_stats b)"
  shows "book_rep (b\<lparr>ob_stats := st\<rparr>) q = book_rep b q" "positive (b\<lparr>ob_stats := st\<rparr>) q = positive b q"
    "abs_side (b\<lparr>ob_stats := st\<rparr>) q s = abs_side b q s"
proof -
  have "levels (b\<lparr>ob_stats := st\<rparr>) = levels b" "bits (b\<lparr>ob_stats := st\<rparr>) = bits b" by (rule ext, simp)+
  then show "book_rep (b\<lparr>ob_stats := st\<rparr>) q = book_rep b q"
    using assms by (simp add: book_rep_def geometry_def)
qed (simp_all add: positive_def abs_side_def rs_def)

lemma abs_book_stats:
  "st_resting_orders st = st_resting_orders (ob_stats b) \<Longrightarrow>
   abs_book (b\<lparr>ob_stats := st\<rparr>) q = (abs_book b q)\<lparr>sb_last_sequence := st_last_sequence st\<rparr>"
  using book_rep_stats(3) [of st b q] by (simp add: abs_book_def)

lemma reject_refines:
  assumes "book_rep b q" "positive b q"
  shows "refines b evs (Some (reject b command evs reason)) (spec_reject (abs_book b q) command reason)"
proof -
  let ?st = "(ob_stats b)\<lparr>st_rejected := st_rejected (ob_stats b) + 1\<rparr>"
  have "abs_book (b\<lparr>ob_stats := ?st\<rparr>) q = abs_book b q"
    by (subst abs_book_stats) (simp_all add: abs_book_def)
  then have "simulates (b\<lparr>ob_stats := ?st\<rparr>) (abs_book b q)"
    unfolding simulates_def using assms book_rep_stats [of ?st b q] by (intro exI [of _ q]) simp
  then show ?thesis
    using simulates_stats [OF assms(1)]
    by (simp add: refines_def reject_def spec_reject_def emit_def stats_step_def make_event_def)
qed

subsection \<open>Identifiers\<close>

lemma spec_find_None: "spec_find A k = None \<longleftrightarrow> k \<notin> ro_order_id ` (set (sb_bids A) \<union> set (sb_asks A))"
  by (auto simp: spec_find_def find_None_iff)

lemma find_SomeD: "find P xs = Some x \<Longrightarrow> x \<in> set xs \<and> P x"
  by (induction xs) (auto split: if_splits)

lemma spec_find_abs:
  assumes "book_rep b q"
  shows "spec_find (abs_book b q) k = map_option (\<lambda>x. resting_of (ob_nodes b ! x)) (fi_map (ob_order_index b) k)"
proof (cases "fi_map (ob_order_index b) k")
  case None
  then show ?thesis using fi_map_abs [OF assms, of k] spec_find_None [of "abs_book b q" k] by (simp add: abs_book_def)
next
  case (Some x)
  then have x: "x \<in> live q" "on_id (ob_nodes b ! x) = k" using book_repD(7) [OF assms] by auto
  obtain s i where si: "x \<in> set (q s i)" using x(1) by (auto simp: live_def)
  have "spec_find (abs_book b q) k \<noteq> None"
    using Some fi_map_abs [OF assms, of k] spec_find_None [of "abs_book b q" k] by (simp add: abs_book_def)
  then obtain ro where ro: "spec_find (abs_book b q) k = Some ro" by auto
  then have "ro \<in> set (abs_side b q Buy) \<union> set (abs_side b q Sell)" "ro_order_id ro = k"
    using find_SomeD [OF ro [unfolded spec_find_def]] by (simp_all add: abs_book_def)
  then have "ro = resting_of (ob_nodes b ! x)" using id_in_side(2) [OF assms si] x(2) by auto
  then show ?thesis using Some ro by simp
qed

lemma spec_match_ids:
  "spec_match command limit r os = (es, r', os') \<Longrightarrow> ro_order_id ` set os' \<subseteq> ro_order_id ` set os"
proof (induction os arbitrary: r es)
  case (Cons ro os)
  then show ?case by (auto simp: Let_def split: if_splits prod.splits dest!: Cons.IH)
qed simp

lemma spec_match_trades:
  "spec_match command limit r os = (es, r', os') \<Longrightarrow> \<forall>e \<in> set es. e_type e = Trade"
proof (induction os arbitrary: r es)
  case (Cons ro os)
  then show ?case by (auto simp: Let_def split: if_splits prod.splits dest!: Cons.IH)
qed simp

lemma count_all: "\<forall>e \<in> set es. e_type e = t \<Longrightarrow> count_events u es = (if u = t then length es else 0)"
  by (induction es) auto

text \<open>An order that the book can fill at once leaves no remainder.\<close>

lemma spec_match_full:
  "unat r \<le> spec_available (c_side command) limit os \<Longrightarrow>
   spec_match command limit r os = (es, r', os') \<Longrightarrow> r' = 0"
proof (induction os arbitrary: r es)
  case Nil
  then show ?case by (simp add: spec_available_def unat_eq_0)
next
  case (Cons ro os)
  let ?t = "min r (ro_quantity ro)"
  show ?case
  proof (cases "r = 0 \<or> \<not> spec_crosses (c_side command) limit (ro_price ro)")
    case True
    then show ?thesis using Cons.prems by (auto simp: spec_available_def unat_eq_0)
  next
    case go: False
    show ?thesis
    proof (cases "?t = ro_quantity ro")
      case True
      then have le: "ro_quantity ro \<le> r" by (simp add: min_def split: if_splits)
      obtain es1 where "spec_match command limit (r - ?t) os = (es1, r', os')"
        using Cons.prems(2) go True by (auto simp: Let_def split: prod.splits)
      moreover have "unat (r - ?t) \<le> spec_available (c_side command) limit os"
        using Cons.prems(1) go True unat_sub [OF le] by (simp add: spec_available_def)
      ultimately show ?thesis using Cons.IH by blast
    next
      case False
      then show ?thesis using Cons.prems(2) go by (auto simp: Let_def)
    qed
  qed
qed

subsection \<open>Order entry\<close>

lemma abs_book_eqI:
  assumes "\<And>s. abs_side b q s = sb_side A s" "st_last_sequence (ob_stats b) = sb_last_sequence A"
  shows "abs_book b q = A"
  using assms(1) [of Buy] assms(1) [of Sell] assms(2) by (simp add: abs_book_def sb_side_def)

lemma sb_side_set [simp]: "sb_side (sb_set_side A s os) t = (if t = s then os else sb_side A t)"
  by (cases s; cases t) (simp_all add: sb_side_def sb_set_side_def)

lemma sb_last_set [simp]: "sb_last_sequence (sb_set_side A s os) = sb_last_sequence A"
  by (simp add: sb_set_side_def)

lemma free_iff_size:
  assumes "book_rep b q"
  shows "ob_free_nodes b = [] \<longleftrightarrow> spec_size (abs_book b q) = maximum_orders (ob_config b)"
  using card_live_free [OF assms] spec_size_abs [OF assms] by auto

lemma spec_size_sides: "spec_size A = length (sb_side A s) + length (sb_side A (opposite s))"
  by (cases s) (simp_all add: spec_size_def sb_side_def)

lemma spec_match_length:
  "spec_match command limit r os = (es, r', os') \<Longrightarrow> length os' \<le> length os"
proof (induction os arbitrary: r es)
  case (Cons ro os)
  then show ?case by (auto simp: Let_def le_Suc_eq split: if_splits prod.splits dest!: Cons.IH)
qed simp

lemma length_spec_insert [simp]: "length (spec_insert s ro os) = Suc (length os)"
  by (induction os) auto

lemma stats_step_append: "stats_step (stats_step st es A) es' A' = stats_step st (es @ es') A'"
  by (simp add: stats_step_def add.assoc)

lemma stats_step_same:
  "book_rep b q \<Longrightarrow> count_events Trade es = 0 \<Longrightarrow> count_events Rejected es = 0 \<Longrightarrow>
   stats_step (ob_stats b) es (abs_book b q) = ob_stats b"
  using simulates_stats [of b q] by (intro BookStats.equality) (simp_all add: stats_step_def)

lemma match_refines:
  assumes rep: "book_rep b q" and pos: "positive b q"
    and sm: "spec_match command limit r0 (abs_side b q (opposite (c_side command))) = (es, r, os)"
  shows "\<exists>b' q'. match_loop b command limit r0 evs = Some (b', r, evs @ es) \<and>
    book_rep b' q' \<and> positive b' q' \<and> abs_book b' q' = sb_set_side (abs_book b q) (opposite (c_side command)) os \<and>
    ob_config b' = ob_config b \<and> ob_stats b' = stats_step (ob_stats b) es (abs_book b' q')"
proof -
  let ?s = "c_side command"
  let ?A1 = "sb_set_side (abs_book b q) (opposite ?s) os"
  from match_loop_refines [OF rep pos sm, of evs] obtain b1 q1 where
    b1: "match_loop b command limit r0 evs = Some (b1, r, evs @ es)"
    "book_rep b1 q1" "positive b1 q1" "ob_config b1 = ob_config b" "abs_side b1 q1 (opposite ?s) = os"
    "abs_side b1 q1 ?s = abs_side b q ?s"
    "ob_stats b1 = (ob_stats b)\<lparr>st_trades := st_trades (ob_stats b) + of_nat (length es),
      st_resting_orders := st_resting_orders (ob_stats b1)\<rparr>"
    by blast
  have last: "st_last_sequence (ob_stats b1) = st_last_sequence (ob_stats b)"
    and sel: "st_commands (ob_stats b1) = st_commands (ob_stats b)"
      "st_trades (ob_stats b1) = st_trades (ob_stats b) + of_nat (length es)"
      "st_rejected (ob_stats b1) = st_rejected (ob_stats b)"
    by (subst b1(7), simp)+
  have A1: "abs_book b1 q1 = ?A1"
  proof (rule abs_book_eqI)
    show "abs_side b1 q1 t = sb_side ?A1 t" for t
      using b1(5,6) by (cases "t = opposite ?s") (auto simp: side_neq_iff)
    show "st_last_sequence (ob_stats b1) = sb_last_sequence ?A1" using last by (simp add: abs_book_def)
  qed
  note cnt = count_all [OF spec_match_trades [OF sm]]
  have "ob_stats b1 = stats_step (ob_stats b) es (abs_book b1 q1)"
    using sel last simulates_stats [OF b1(2)] cnt by (intro BookStats.equality) (simp_all add: stats_step_def)
  with b1(1-4) A1 show ?thesis by blast
qed

lemma add_resting_refines:
  fixes s :: Side and prio :: Sequence
  assumes rep: "book_rep b q" and pos: "positive b q" and p: "valid_price (ob_config b) p" and r: "r \<noteq> 0"
    and new: "spec_find (abs_book b q) oid = None"
    and room: "spec_size (abs_book b q) < maximum_orders (ob_config b)"
  defines "A' \<equiv> sb_set_side (abs_book b q) s (spec_insert s
      \<lparr>ro_order_id = oid, ro_side = s, ro_price = p, ro_quantity = r, ro_priority = prio\<rparr>
      (sb_side (abs_book b q) s))"
  shows "\<exists>b'. add_resting b oid s p r prio evs =
      Some (b', evs @ [\<lparr>e_sequence = prio, e_type = Rested, e_aggressor_side = s, e_reason = NoReason,
        e_reserved = 0, e_order_id = oid, e_contra_order_id = 0, e_price = p, e_quantity = r\<rparr>]) \<and>
    simulates b' A' \<and> ob_config b' = ob_config b \<and>
    ob_stats b' = (ob_stats b)\<lparr>st_resting_orders := spec_size A'\<rparr>"
proof -
  let ?A = "abs_book b q" and ?i = "price_index (ob_config b) p"
  let ?ro = "\<lparr>ro_order_id = oid, ro_side = s, ro_price = p, ro_quantity = r, ro_priority = prio\<rparr>"
  have free: "ob_free_nodes b \<noteq> []" using room free_iff_size [OF rep] by auto
  have "oid \<notin> ro_order_id ` (set (abs_side b q Buy) \<union> set (abs_side b q Sell))"
    using new unfolding spec_find_None by (simp add: abs_book_def)
  then have new1: "fi_map (ob_order_index b) oid = None" using fi_map_abs [OF rep] by blast
  from add_resting_rep [OF rep p new1 free, of s r prio evs]
  obtain b2 x where b2: "add_resting b oid s p r prio evs =
      Some (b2, evs @ [\<lparr>e_sequence = prio, e_type = Rested, e_aggressor_side = s, e_reason = NoReason,
        e_reserved = 0, e_order_id = oid, e_contra_order_id = 0, e_price = p, e_quantity = r\<rparr>])"
    "x \<notin> live q" "book_rep b2 (upd_q q s ?i (q s ?i @ [x]))" "ob_config b2 = ob_config b"
    "resting_of (ob_nodes b2 ! x) = ?ro"
    "\<And>y. y \<noteq> x \<Longrightarrow> resting_of (ob_nodes b2 ! y) = resting_of (ob_nodes b ! y)"
    "ob_stats b2 = (ob_stats b)\<lparr>st_resting_orders := card (live q) + 1\<rparr>"
    by blast
  let ?q2 = "upd_q q s ?i (q s ?i @ [x])"
  have i: "?i < ob_price_count b" using price_index_less [OF book_repD(1) [OF rep] p] .
  have A2: "abs_book b2 ?q2 = A'"
  proof (rule abs_book_eqI)
    show "abs_side b2 ?q2 t = sb_side A' t" for t
      using abs_side_add [OF rep b2(3) i b2(4) b2(2,6), of t] b2(5) by (simp add: A'_def)
    show "st_last_sequence (ob_stats b2) = sb_last_sequence A'"
      using b2(7) by (simp add: abs_book_def A'_def)
  qed
  have "positive b2 ?q2"
  proof -
    have "on_remaining (ob_nodes b2 ! y) \<noteq> 0" if "y \<in> live q" for y
    proof -
      have "y \<noteq> x" using b2(2) that by auto
      then show ?thesis using pos that on_fields_resting(4) [OF b2(6)] by (simp add: positive_def)
    qed
    moreover have "on_remaining (ob_nodes b2 ! x) \<noteq> 0" using b2(5) r by (simp add: resting_of_def)
    ultimately show ?thesis by (auto simp: positive_def live_upd_append)
  qed
  then have "simulates b2 A'" using b2(3) A2 by (auto simp: simulates_def)
  moreover have "card (live q) + 1 = spec_size A'"
    using spec_size_abs [OF rep] by (simp add: A'_def spec_size_sides [of _ s])
  ultimately show ?thesis using b2(1,4,7) by auto
qed

lemma execute_refines:
  assumes rep: "book_rep b q" and pos: "positive b q"
    and new: "spec_find (abs_book b q) (c_order_id command) = None"
    and price: "c_order_type command = Limit \<Longrightarrow> valid_price (ob_config b) (c_price command)"
    and room: "c_order_type command = Limit \<Longrightarrow> spec_size (abs_book b q) = maximum_orders (ob_config b) \<Longrightarrow>
      spec_fillable (ob_config b) (abs_book b q) command"
  shows "refines b evs (execute b command evs replacement)
    (spec_execute (ob_config b) (abs_book b q) command replacement)"
proof -
  let ?s = "c_side command" and ?limit = "effective_limit (ob_config b) command" and ?A = "abs_book b q"
  define acc where "acc = (if replacement then [] else [make_event Accepted command 0 0 0 NoReason])"
  have acc: "(if \<not> replacement then emit evs Accepted command 0 0 0 NoReason else evs) = evs @ acc"
    "count_events Trade acc = 0" "count_events Rejected acc = 0"
    by (simp_all add: acc_def emit_def)
  obtain es r os where sm: "spec_match command ?limit (c_quantity command) (abs_side b q (opposite ?s)) = (es, r, os)"
    by (cases "spec_match command ?limit (c_quantity command) (abs_side b q (opposite ?s))")
  let ?A1 = "sb_set_side ?A (opposite ?s) os"
  from match_refines [OF rep pos sm, of "evs @ acc"] obtain b1 q1 where
    b1: "match_loop b command ?limit (c_quantity command) (evs @ acc) = Some (b1, r, (evs @ acc) @ es)"
    "book_rep b1 q1" "positive b1 q1" "abs_book b1 q1 = ?A1" "ob_config b1 = ob_config b"
    "ob_stats b1 = stats_step (ob_stats b) es ?A1"
    by metis
  have sim1: "simulates b1 ?A1" using b1(2-4) by (auto simp: simulates_def)
  have st: "stats_step (ob_stats b) es ?A1 = stats_step (ob_stats b) (acc @ es) ?A1"
    using acc(2,3) by (simp add: stats_step_def)
  note spec = spec_execute_def [of "ob_config b" ?A command replacement, folded acc_def]
  consider (full) "r = 0" | (rest) "r \<noteq> 0" "c_order_type command = Limit"
    | (drop) "r \<noteq> 0" "c_order_type command \<noteq> Limit" by blast
  then show ?thesis
  proof cases
    case full
    then show ?thesis using b1(1,5,6) st sim1 acc(1) sm by (simp add: spec refines_def execute_def)
  next
    case drop
    then show ?thesis
      using b1(1,5,6) sim1 acc sm by (simp add: spec refines_def execute_def emit_def stats_step_def)
  next
    case rest
    have "spec_size ?A \<noteq> maximum_orders (ob_config b)"
      using room [OF rest(2)] spec_match_full [OF _ sm] rest(1) by (auto simp: spec_fillable_def)
    then have "spec_size ?A < maximum_orders (ob_config b)"
      using card_live_free [OF rep] spec_size_abs [OF rep] by simp
    then have room1: "spec_size (abs_book b1 q1) < maximum_orders (ob_config b1)"
      using spec_match_length [OF sm] b1(4,5) by (simp add: spec_size_sides [of _ ?s])
    have new1: "spec_find (abs_book b1 q1) (c_order_id command) = None"
      using new spec_match_ids [OF sm] unfolding spec_find_None b1(4)
      by (cases ?s) (auto simp: abs_book_def sb_set_side_def)
    have p: "valid_price (ob_config b1) (c_price command)" using price [OF rest(2)] b1(5) by simp
    let ?A2 = "sb_set_side ?A1 ?s (spec_insert ?s \<lparr>ro_order_id = c_order_id command, ro_side = ?s,
      ro_price = c_price command, ro_quantity = r, ro_priority = c_sequence command\<rparr> (sb_side ?A1 ?s))"
    from add_resting_refines [OF b1(2,3) p rest(1) new1 room1, of ?s "c_sequence command" "(evs @ acc) @ es"]
    obtain b2 where "add_resting b1 (c_order_id command) ?s (c_price command) r (c_sequence command) ((evs @ acc) @ es) =
        Some (b2, ((evs @ acc) @ es) @ [make_event Rested command 0 (c_price command) r NoReason])"
      "simulates b2 ?A2" "ob_config b2 = ob_config b1" "ob_stats b2 = (ob_stats b1)\<lparr>st_resting_orders := spec_size ?A2\<rparr>"
      unfolding b1(4) by (auto simp: make_event_def)
    then show ?thesis
      using rest b1(1,5,6) acc sm by (simp add: spec refines_def execute_def stats_step_def)
  qed
qed

text \<open>
  \<open>fill_decision b q command d\<close>: \<open>d\<close> is the engine's answer to whether the command can be
  filled at once.
\<close>

definition fill_decision :: "OrderBook \<Rightarrow> Command \<Rightarrow> bool \<Rightarrow> bool" where
  "fill_decision b command d \<longleftrightarrow>
     can_fully_fill b (c_side command) (effective_limit (ob_config b) command) (c_quantity command) = Some d"

lemma fill_decision_ex:
  assumes "book_rep b q" "c_quantity command \<noteq> 0"
  shows "\<exists>d. fill_decision b command d \<and> (d \<longrightarrow> spec_fillable (ob_config b) (abs_book b q) command) \<and>
    (no_wrap (abs_side b q (opposite (c_side command))) \<longrightarrow> d = spec_fillable (ob_config b) (abs_book b q) command)"
  using can_fully_fill_decides [OF assms, of "c_side command" "effective_limit (ob_config b) command"]
  by (auto simp: fill_decision_def spec_fillable_def)

lemma submit_refines:
  assumes rep: "book_rep b q" and pos: "positive b q"
    and new: "replacement \<Longrightarrow> spec_find (abs_book b q) (c_order_id command) = None"
    and d: "c_quantity command \<noteq> 0 \<Longrightarrow> fill_decision b command d \<and>
      (d \<longrightarrow> spec_fillable (ob_config b) (abs_book b q) command)"
  shows "refines b evs (submit b command evs replacement)
    (spec_submit (\<lambda>_ _. d) (ob_config b) (abs_book b q) command replacement)"
proof -
  let ?A = "abs_book b q" and ?cfg = "ob_config b"
  have find: "fi_find (ob_order_index b) (c_order_id command) = Some (fi_map (ob_order_index b) (c_order_id command))"
    using fi_find_dict [OF book_repD(8) [OF rep]] .
  have found: "spec_find ?A (c_order_id command) = None \<longleftrightarrow> fi_map (ob_order_index b) (c_order_id command) = None"
    using spec_find_abs [OF rep] by simp
  note rej = reject_refines [OF rep pos, of evs command]
  note size = free_iff_size [OF rep]
  show ?thesis
  proof (cases "c_quantity command = 0 \<or> (c_order_type command \<noteq> Market \<and> \<not> valid_price ?cfg (c_price command)) \<or>
      (\<not> replacement \<and> spec_find ?A (c_order_id command) \<noteq> None)")
    case True
    then show ?thesis using rej found by (auto simp: submit_def spec_submit_def find)
  next
    case ok: False
    then have d: "fill_decision b command d" "d \<longrightarrow> spec_fillable ?cfg ?A command" using d by auto
    have new: "spec_find ?A (c_order_id command) = None" using ok new by blast
    show ?thesis
    proof (cases "(c_order_type command = FillOrKill \<or> (ob_free_nodes b = [] \<and> c_order_type command = Limit)) \<and> \<not> d")
      case True
      then show ?thesis
        using rej ok d(1) size found new
        by (auto simp: submit_def spec_submit_def find fill_decision_def Let_def)
    next
      case False
      have "submit b command evs replacement = execute b command evs replacement"
        using False ok d(1) found new by (auto simp: submit_def find fill_decision_def Let_def)
      moreover have "spec_submit (\<lambda>_ _. d) ?cfg ?A command replacement = spec_execute ?cfg ?A command replacement"
        using False ok size by (auto simp: spec_submit_def)
      moreover have "refines b evs (execute b command evs replacement) (spec_execute ?cfg ?A command replacement)"
        using False ok d(2) size by (intro execute_refines [OF rep pos new]) auto
      ultimately show ?thesis by simp
    qed
  qed
qed

subsection \<open>Cancellation\<close>

lemma cancel_found:
  assumes rep: "book_rep b q" and pos: "positive b q"
    and found: "fi_map (ob_order_index b) (c_order_id command) = Some x"
  shows "\<exists>b' q'. cancel b command evs replacing = Some (b',
      if replacing then evs
      else evs @ [make_event Cancelled command 0 (on_price (ob_nodes b ! x)) (on_remaining (ob_nodes b ! x)) NoReason]) \<and>
    book_rep b' q' \<and> positive b' q' \<and> abs_book b' q' = spec_remove (abs_book b q) (c_order_id command) \<and>
    ob_config b' = ob_config b \<and> ob_stats b' = (ob_stats b)\<lparr>st_resting_orders := spec_size (abs_book b' q')\<rparr> \<and>
    spec_size (abs_book b' q') < maximum_orders (ob_config b)"
proof -
  have x: "x \<in> live q" "on_id (ob_nodes b ! x) = c_order_id command" using book_repD(7) [OF rep] found by auto
  then obtain s i where "x \<in> set (q s i)" by (auto simp: live_def)
  then obtain ys zs where qi: "q s i = ys @ x # zs" by (auto simp: in_set_conv_decomp)
  let ?q = "upd_q q s i (ys @ zs)"
  obtain b' where b': "remove_node b x = Some b'" "book_rep b' ?q" "ob_config b' = ob_config b"
    "\<And>y. y \<noteq> x \<Longrightarrow> resting_of (ob_nodes b' ! y) = resting_of (ob_nodes b ! y)"
    "ob_stats b' = (ob_stats b)\<lparr>st_resting_orders := card (live q) - 1\<rparr>"
    using remove_node_rep [OF rep qi] by blast
  have live': "live ?q = live q - {x}" using live_upd_remove [OF rep qi] .
  have "positive b' ?q"
    using pos on_fields_resting(4) [OF b'(4)] live' by (auto simp: positive_def)
  moreover have "abs_book b' ?q = spec_remove (abs_book b q) (c_order_id command)"
    using abs_side_remove [OF rep b'(2) qi b'(3,4)] b'(5) x(2) by (simp add: abs_book_def spec_remove_def)
  moreover have "cancel b command evs replacing = Some (b',
      if replacing then evs
      else evs @ [make_event Cancelled command 0 (on_price (ob_nodes b ! x)) (on_remaining (ob_nodes b ! x)) NoReason])"
    using fi_find_dict [OF book_repD(8) [OF rep]] found b'(1) live_less(1) [OF rep x(1)]
    by (simp add: cancel_def vec_simps emit_def)
  moreover have size: "spec_size (abs_book b' ?q) = card (live q) - 1"
    using spec_size_abs [OF b'(2)] live' x(1) finite_live [OF rep] by simp
  moreover have "card (live q) - 1 < maximum_orders (ob_config b)"
    using card_live_free [OF rep] x(1) finite_live [OF rep] card_gt_0_iff [of "live q"] by auto
  ultimately show ?thesis using b' by (intro exI [of _ b'] exI [of _ ?q]) simp
qed

lemma cancel_refines:
  assumes rep: "book_rep b q" and pos: "positive b q"
  shows "refines b evs (cancel b command evs False) (spec_cancel (abs_book b q) command)"
proof (cases "fi_map (ob_order_index b) (c_order_id command)")
  case None
  then show ?thesis
    using reject_refines [OF rep pos] fi_find_dict [OF book_repD(8) [OF rep]] spec_find_abs [OF rep]
    by (simp add: cancel_def spec_cancel_def)
next
  case (Some x)
  obtain b' q' where b': "cancel b command evs False = Some (b',
      evs @ [make_event Cancelled command 0 (on_price (ob_nodes b ! x)) (on_remaining (ob_nodes b ! x)) NoReason])"
    "book_rep b' q'" "positive b' q'" "abs_book b' q' = spec_remove (abs_book b q) (c_order_id command)"
    "ob_config b' = ob_config b" "ob_stats b' = (ob_stats b)\<lparr>st_resting_orders := spec_size (abs_book b' q')\<rparr>"
    using cancel_found [OF rep pos Some, of evs False] by auto
  have "ob_stats b' = stats_step (ob_stats b) [make_event Cancelled command 0 p r NoReason] (abs_book b' q')" for p r
    using b'(4,6) simulates_stats(2) [OF rep]
    by (intro BookStats.equality) (simp_all add: stats_step_def spec_remove_def)
  then show ?thesis
    using b' spec_find_abs [OF rep] Some by (auto simp: refines_def spec_cancel_def simulates_def)
qed

subsection \<open>Replacement\<close>

lemma spec_find_removed: "spec_find (spec_remove A k) k = None"
  unfolding spec_find_None by (auto simp: spec_remove_def)

text \<open>After a cancellation there is room, so the fill decision is not consulted.\<close>

lemma spec_submit_fill_irrelevant:
  assumes "spec_size A < maximum_orders config" "c_order_type command = Limit"
  shows "spec_submit fill config A command replacement = spec_submit fill' config A command replacement"
  using assms by (auto simp: spec_submit_def)

lemma replace_refines:
  assumes rep: "book_rep b q" and pos: "positive b q"
  shows "refines b evs (replace b command evs) (spec_replace fill (ob_config b) (abs_book b q) command)"
proof (cases "fi_map (ob_order_index b) (c_order_id command)")
  case None
  then show ?thesis
    using reject_refines [OF rep pos] fi_find_dict [OF book_repD(8) [OF rep]] spec_find_abs [OF rep]
    by (simp add: replace_def spec_replace_def)
next
  case (Some x)
  let ?A = "abs_book b q" and ?cfg = "ob_config b" and ?k = "c_order_id command"
  have find: "fi_find (ob_order_index b) ?k = Some (Some x)" using fi_find_dict [OF book_repD(8) [OF rep]] Some by simp
  have sf: "spec_find ?A ?k = Some (resting_of (ob_nodes b ! x))" using spec_find_abs [OF rep] Some by simp
  show ?thesis
  proof (cases "c_quantity command = 0 \<or> \<not> valid_price ?cfg (c_price command)")
    case True
    then show ?thesis
      using reject_refines [OF rep pos] find sf by (auto simp: replace_def spec_replace_def)
  next
    case False
    define cmd where "cmd = command\<lparr>c_side := on_side (ob_nodes b ! x), c_order_type := Limit\<rparr>"
    let ?ev = "make_event Replaced cmd 0 (c_price cmd) (c_quantity cmd) NoReason"
    obtain b1 q1 where b1: "cancel b command evs True = Some (b1, evs)"
      "book_rep b1 q1" "positive b1 q1" "abs_book b1 q1 = spec_remove ?A ?k" "ob_config b1 = ?cfg"
      "ob_stats b1 = (ob_stats b)\<lparr>st_resting_orders := spec_size (abs_book b1 q1)\<rparr>"
      "spec_size (abs_book b1 q1) < maximum_orders ?cfg"
      using cancel_found [OF rep pos Some, of evs True] by auto
    have new: "spec_find (abs_book b1 q1) (c_order_id cmd) = None"
      unfolding b1(4) using spec_find_removed by (simp add: cmd_def)
    obtain d where d: "fill_decision b1 cmd d" "d \<longrightarrow> spec_fillable (ob_config b1) (abs_book b1 q1) cmd"
      using fill_decision_ex [OF b1(2), of cmd] False by (auto simp: cmd_def)
    have "refines b1 (evs @ [?ev]) (submit b1 cmd (evs @ [?ev]) True)
        (spec_submit (\<lambda>_ _. d) ?cfg (spec_remove ?A ?k) cmd True)"
      using submit_refines [OF b1(2,3) new, where replacement = True and d = d and evs = "evs @ [?ev]"] d b1(4,5) by simp
    moreover have "spec_submit (\<lambda>_ _. d) ?cfg (spec_remove ?A ?k) cmd True = spec_submit fill ?cfg (spec_remove ?A ?k) cmd True"
      using b1(4,7) by (intro spec_submit_fill_irrelevant) (simp_all add: cmd_def)
    ultimately obtain b2 where b2: "submit b1 cmd (evs @ [?ev]) True =
        Some (b2, (evs @ [?ev]) @ snd (spec_submit fill ?cfg (spec_remove ?A ?k) cmd True))"
      "simulates b2 (fst (spec_submit fill ?cfg (spec_remove ?A ?k) cmd True))" "ob_config b2 = ?cfg"
      "ob_stats b2 = stats_step (ob_stats b1) (snd (spec_submit fill ?cfg (spec_remove ?A ?k) cmd True))
         (fst (spec_submit fill ?cfg (spec_remove ?A ?k) cmd True))"
      using b1(5) by (auto simp: refines_def)
    have x: "x < length (ob_nodes b)" using live_less(1) [OF rep] book_repD(7) [OF rep] Some by blast
    have "replace b command evs = submit b1 cmd (evs @ [?ev]) True"
      using False find b1(1) x by (simp add: replace_def vec_simps cmd_def emit_def Let_def)
    moreover have "spec_replace fill ?cfg ?A command =
        (fst (spec_submit fill ?cfg (spec_remove ?A ?k) cmd True), ?ev # snd (spec_submit fill ?cfg (spec_remove ?A ?k) cmd True))"
      using False sf by (simp add: spec_replace_def cmd_def Let_def split: prod.splits)
    ultimately show ?thesis using b2 b1(6) by (simp add: refines_def stats_step_def)
  qed
qed

subsection \<open>Processing a command\<close>

definition no_wrap_book :: "SpecBook \<Rightarrow> bool" where
  "no_wrap_book A \<longleftrightarrow> no_wrap (sb_bids A) \<and> no_wrap (sb_asks A)"

lemma no_wrap_side: "no_wrap_book A \<Longrightarrow> no_wrap (sb_side A s)"
  by (simp add: no_wrap_book_def sb_side_def)

lemma spec_fillable_seq [simp]: "spec_fillable cfg (A\<lparr>sb_last_sequence := n\<rparr>) = spec_fillable cfg A"
  by (simp add: fun_eq_iff spec_fillable_def sb_side_def)

definition process_stats :: "BookStats \<Rightarrow> Command \<Rightarrow> Event list \<Rightarrow> SpecBook \<Rightarrow> BookStats" where
  "process_stats st command es A =
     (stats_step st es A)\<lparr>st_commands :=
        st_commands st + (if c_sequence command = st_last_sequence st + 1 then 1 else 0)\<rparr>"

text \<open>The engine's step, with the fill decision \<open>d\<close> it took.\<close>

definition process_step :: "OrderBook \<Rightarrow> SpecBook \<Rightarrow> Command \<Rightarrow> Event list \<Rightarrow> bool \<Rightarrow> bool" where
  "process_step b A command evs d \<longleftrightarrow>
     (let (A', es) = spec_process_with (\<lambda>_ _. d) (ob_config b) A command in
      \<exists>b'. process b command evs = Some (b', evs @ es) \<and> simulates b' A' \<and> ob_config b' = ob_config b \<and>
        ob_stats b' = process_stats (ob_stats b) command es A')"

lemma refines_process:
  assumes "refines b1 evs (process b command evs) (spec_process_with (\<lambda>_ _. d) (ob_config b) A command)"
    and "b1 = b\<lparr>ob_stats := (ob_stats b)\<lparr>st_last_sequence := n, st_commands := st_commands (ob_stats b) +
      (if c_sequence command = st_last_sequence (ob_stats b) + 1 then 1 else 0)\<rparr>\<rparr>"
  shows "process_step b A command evs d"
  using assms by (auto simp: process_step_def refines_def process_stats_def stats_step_def split_beta)

lemma process_refines:
  assumes "simulates b A"
  shows "\<exists>d. process_step b A command evs d \<and>
    (d \<longrightarrow> spec_fillable (ob_config b) A command) \<and>
    (no_wrap_book A \<longrightarrow> d = spec_fillable (ob_config b) A command) \<and>
    (if c_quantity command = 0 then d else fill_decision b command d)"
proof -
  obtain q where rep: "book_rep b q" and pos: "positive b q" and A: "abs_book b q = A"
    using assms by (auto simp: simulates_def)
  have seq: "st_last_sequence (ob_stats b) = sb_last_sequence A" using simulates_stats(2) [OF rep] A by simp
  define b1 where "b1 = b\<lparr>ob_stats := (ob_stats b)\<lparr>st_last_sequence := c_sequence command,
      st_commands := st_commands (ob_stats b) + 1\<rparr>\<rparr>"
  let ?A1 = "A\<lparr>sb_last_sequence := c_sequence command\<rparr>"
  have rep1: "book_rep b1 q" and pos1: "positive b1 q" and cfg1: "ob_config b1 = ob_config b"
    using rep pos by (simp_all add: b1_def book_rep_stats)
  have A1: "abs_book b1 q = ?A1" unfolding b1_def by (subst abs_book_stats) (simp_all add: A)
  obtain d where d: "d \<longrightarrow> spec_fillable (ob_config b) A command"
    "no_wrap_book A \<longrightarrow> d = spec_fillable (ob_config b) A command"
    "if c_quantity command = 0 then d else fill_decision b command d"
  proof (cases "c_quantity command = 0")
    case True
    then show ?thesis by (intro that [of True]) (auto simp: spec_fillable_def)
  next
    case False
    have "abs_side b q s = sb_side A s" for s using A sb_side_abs by metis
    then show ?thesis
      using fill_decision_ex [OF rep False] no_wrap_side [of A "opposite (c_side command)"] that False A by auto
  qed
  have "fill_decision b1 command d \<longleftrightarrow> fill_decision b command d"
    using can_fully_fill_same [OF rep rep1 cfg1] cfg1
    by (simp add: fill_decision_def abs_side_def rs_def b1_def)
  then have d1: "fill_decision b1 command d" if "c_quantity command \<noteq> 0" using d(3) that by simp
  show ?thesis
  proof (cases "c_sequence command = sb_last_sequence A + 1")
    case False
    have "refines b evs (process b command evs) (spec_process_with (\<lambda>_ _. d) (ob_config b) A command)" for d
      using reject_refines [OF rep pos, of evs command SequenceGap] False seq A
      by (simp add: process_def spec_process_with_def)
    then have "process_step b A command evs d" for d
      using False seq by (intro refines_process [of b _ _ _ _ _ "st_last_sequence (ob_stats b)"]) auto
    then show ?thesis using d by blast
  next
    case True
    have step: "process_step b A command evs d"
      if "refines b1 evs (process b command evs) (spec_process_with (\<lambda>_ _. d) (ob_config b) A command)" for d
      using that True seq by (intro refines_process [of b1 _ _ _ _ _ "c_sequence command"]) (auto simp: b1_def)
    have run: "process b command evs = (case c_type command of
        New \<Rightarrow> submit b1 command evs False | Cancel \<Rightarrow> cancel b1 command evs False | Replace \<Rightarrow> replace b1 command evs)"
      using True seq by (simp add: process_def b1_def Let_def split: CommandType.split)
    have spec: "spec_process_with (\<lambda>_ _. d) (ob_config b) A command = (case c_type command of
        New \<Rightarrow> spec_submit (\<lambda>_ _. d) (ob_config b) ?A1 command False
      | Cancel \<Rightarrow> spec_cancel ?A1 command | Replace \<Rightarrow> spec_replace (\<lambda>_ _. d) (ob_config b) ?A1 command)" for d
      using True by (simp add: spec_process_with_def split: CommandType.split)
    have "refines b1 evs (process b command evs) (spec_process_with (\<lambda>_ _. d) (ob_config b) A command)"
    proof (cases "c_type command")
      case New
      then show ?thesis
        using submit_refines [OF rep1 pos1, of False command d evs] d1 d(1) A1 cfg1 run spec by simp
    next
      case Cancel
      then show ?thesis using cancel_refines [OF rep1 pos1, of evs command] A1 run spec by simp
    next
      case Replace
      then show ?thesis using replace_refines [OF rep1 pos1, of evs command] A1 cfg1 run spec by simp
    qed
    then show ?thesis using step d by blast
  qed
qed

text \<open>On books without 64-bit overflow at a price the specification proper is implemented.\<close>

lemma spec_process_fill:
  assumes "d = spec_fillable cfg A command" "spec_size A \<le> maximum_orders cfg"
    and "\<And>k. spec_find A k \<noteq> None \<Longrightarrow> spec_size (spec_remove A k) < spec_size A"
  shows "spec_process_with (\<lambda>_ _. d) cfg A command = spec_process cfg A command"
proof (cases "c_type command")
  case Replace
  let ?A1 = "A\<lparr>sb_last_sequence := c_sequence command\<rparr>"
  have "spec_replace (\<lambda>_ _. d) cfg ?A1 command = spec_replace (spec_fillable cfg) cfg ?A1 command"
  proof (cases "spec_find ?A1 (c_order_id command)")
    case (Some ro)
    have "spec_find A (c_order_id command) \<noteq> None" using Some by (simp add: spec_find_def)
    moreover have "spec_size (spec_remove ?A1 k) = spec_size (spec_remove A k)" for k
      by (simp add: spec_size_def spec_remove_def)
    ultimately have "spec_size (spec_remove ?A1 (c_order_id command)) < maximum_orders cfg"
      using assms(2,3) by (metis order_less_le_trans)
    then have "spec_submit (\<lambda>_ _. d) cfg (spec_remove ?A1 (c_order_id command)) (command\<lparr>c_side := s, c_order_type := Limit\<rparr>) True =
        spec_submit (spec_fillable cfg) cfg (spec_remove ?A1 (c_order_id command)) (command\<lparr>c_side := s, c_order_type := Limit\<rparr>) True" for s
      by (intro spec_submit_fill_irrelevant) simp_all
    then show ?thesis using Some by (simp add: spec_replace_def)
  qed (simp add: spec_replace_def)
  then show ?thesis using Replace by (auto simp: spec_process_def spec_process_with_def)
qed (use assms(1) in \<open>simp_all add: spec_process_def spec_process_with_def spec_submit_def Let_def\<close>)

lemma simulates_size:
  assumes "simulates b A"
  shows "spec_size A \<le> maximum_orders (ob_config b)"
    and "spec_find A k \<noteq> None \<Longrightarrow> spec_size (spec_remove A k) < spec_size A"
proof -
  obtain q where rep: "book_rep b q" and A: "abs_book b q = A" using assms by (auto simp: simulates_def)
  show "spec_size A \<le> maximum_orders (ob_config b)" using card_live_free [OF rep] spec_size_abs [OF rep] A by simp
  assume "spec_find A k \<noteq> None"
  then obtain ro where ro: "ro \<in> set (sb_bids A @ sb_asks A)" "ro_order_id ro = k"
    using find_SomeD unfolding spec_find_def by fastforce
  then have "length (filter (\<lambda>ro. ro_order_id ro \<noteq> k) (sb_bids A @ sb_asks A)) < length (sb_bids A @ sb_asks A)"
    by (intro length_filter_less [OF ro(1)]) simp
  then show "spec_size (spec_remove A k) < spec_size A" by (simp add: spec_size_def spec_remove_def)
qed

lemma process_implements_spec:
  assumes "simulates b A" "no_wrap_book A"
  shows "\<exists>b'. process b command evs = Some (b', evs @ snd (spec_process (ob_config b) A command)) \<and>
    simulates b' (fst (spec_process (ob_config b) A command)) \<and> ob_config b' = ob_config b"
proof -
  obtain d where "process_step b A command evs d" "d = spec_fillable (ob_config b) A command"
    using process_refines [OF assms(1)] assms(2) by blast
  then show ?thesis
    using spec_process_fill [of d "ob_config b" A command] simulates_size [OF assms(1)]
    by (auto simp: process_step_def split_beta)
qed

lemma order_book_simulates:
  assumes "order_book cfg = Inr b"
  shows "simulates b \<lparr>sb_bids = [], sb_asks = [], sb_last_sequence = 0\<rparr>" "ob_config b = cfg"
proof -
  note r = order_book_rep [OF assms]
  have "abs_side b (\<lambda>_ _. []) s = []" for s by (simp add: abs_side_def)
  then show "simulates b \<lparr>sb_bids = [], sb_asks = [], sb_last_sequence = 0\<rparr>"
    unfolding simulates_def using r
    by (intro exI [of _ "\<lambda>_ _. []"]) (auto simp: positive_def live_def abs_book_def default_stats_def)
qed (rule order_book_rep(2) [OF assms])

end
