(* ===== verification/Book_Laws.thy ===== *)
theory Book_Laws
  imports Book_Refine
begin

text \<open>
  Laws of the abstract book and, through the refinement, of the engine: both sides are
  kept in price-time order, the book is never crossed, executions take the best prices
  first and conserve quantity, rejected commands change nothing, and fill-or-kill
  orders execute completely or not at all.
\<close>

subsection \<open>What matching does to the opposite side\<close>

text \<open>An order without its open quantity: what matching never changes.\<close>

definition ident :: "RestingOrder \<Rightarrow> RestingOrder" where
  "ident ro = ro\<lparr>ro_quantity := 0\<rparr>"

lemma ident_sel [simp]:
  "ro_order_id (ident ro) = ro_order_id ro" "ro_side (ident ro) = ro_side ro"
  "ro_price (ident ro) = ro_price ro" "ro_priority (ident ro) = ro_priority ro"
  "ident (ro\<lparr>ro_quantity := n\<rparr>) = ident ro"
  by (simp_all add: ident_def)

lemma ident_eqD:
  assumes "ident x = ident y"
  shows "ro_order_id x = ro_order_id y" "ro_side x = ro_side y" "ro_price x = ro_price y" "ro_priority x = ro_priority y"
  using assms by (metis ident_sel(1-4))+

lemma spec_match_drop:
  "spec_match command limit r os = (es, r', os') \<Longrightarrow>
   map ident os' = drop (length os - length os') (map ident os) \<and> length os' \<le> length os"
proof (induction os arbitrary: r es)
  case (Cons ro os)
  then show ?case by (auto simp: Let_def Suc_diff_le split: if_splits prod.splits dest!: Cons.IH)
qed simp

lemma spec_match_ident:
  assumes "spec_match command limit r os = (es, r', os')" "x \<in> set os'"
  obtains y where "y \<in> set os" "ident y = ident x"
proof -
  have "ident x \<in> set (map ident os')" using assms(2) by simp
  also have "set (map ident os') \<subseteq> set (map ident os)"
    using spec_match_drop [OF assms(1)] by (metis set_drop_subset)
  finally show thesis using that by auto
qed

lemma spec_match_positive:
  "spec_match command limit r os = (es, r', os') \<Longrightarrow> \<forall>x \<in> set os. ro_quantity x \<noteq> 0 \<Longrightarrow>
   \<forall>x \<in> set os'. ro_quantity x \<noteq> 0"
proof (induction os arbitrary: r es)
  case (Cons ro os)
  then show ?case by (auto simp: Let_def split: if_splits prod.splits dest!: Cons.IH)
qed simp

text \<open>If something remains of the aggressor then the best resting order no longer crosses.\<close>

lemma spec_match_uncrossed:
  "spec_match command limit r os = (es, r', os') \<Longrightarrow> r' \<noteq> 0 \<Longrightarrow> os' \<noteq> [] \<Longrightarrow>
   \<not> spec_crosses (c_side command) limit (ro_price (hd os'))"
proof (induction os arbitrary: r es)
  case (Cons ro os)
  then show ?case by (auto simp: Let_def split: if_splits prod.splits dest!: Cons.IH)
qed simp

subsection \<open>The well-formed abstract book\<close>

definition price_sorted :: "Side \<Rightarrow> RestingOrder list \<Rightarrow> bool" where
  "price_sorted s os \<longleftrightarrow> sorted_wrt (\<lambda>x y. as_good s (ro_price x) (ro_price y)) os"

definition uncrossed :: "SpecBook \<Rightarrow> bool" where
  "uncrossed A \<longleftrightarrow> (\<forall>bid \<in> set (sb_bids A). \<forall>ask \<in> set (sb_asks A). sint (ro_price bid) < sint (ro_price ask))"

definition order_ok :: "BookConfig \<Rightarrow> Side \<Rightarrow> RestingOrder \<Rightarrow> bool" where
  "order_ok cfg s ro \<longleftrightarrow> ro_side ro = s \<and> valid_price cfg (ro_price ro) \<and> ro_quantity ro \<noteq> 0"

definition spec_wf :: "BookConfig \<Rightarrow> SpecBook \<Rightarrow> bool" where
  "spec_wf cfg A \<longleftrightarrow>
     (\<forall>s. price_sorted s (sb_side A s)) \<and> (\<forall>s. \<forall>ro \<in> set (sb_side A s). order_ok cfg s ro) \<and>
     distinct (map ro_order_id (sb_bids A @ sb_asks A)) \<and> uncrossed A"

text \<open>Time priority: at equal prices the order with the smaller sequence number comes first.\<close>

definition before :: "Side \<Rightarrow> RestingOrder \<Rightarrow> RestingOrder \<Rightarrow> bool" where
  "before s x y \<longleftrightarrow> as_good s (ro_price x) (ro_price y) \<and>
     (ro_price x = ro_price y \<longrightarrow> ro_priority x < ro_priority y)"

definition timed :: "SpecBook \<Rightarrow> bool" where
  "timed A \<longleftrightarrow> (\<forall>s. sorted_wrt (before s) (sb_side A s)) \<and>
     (\<forall>s. \<forall>ro \<in> set (sb_side A s). ro_priority ro \<le> sb_last_sequence A) \<and>
     distinct (map ro_priority (sb_bids A @ sb_asks A))"

lemma as_good_refl [simp]: "as_good s p p"
  by (simp add: as_good_def)

lemma as_good_trans: "as_good s p q \<Longrightarrow> as_good s q r \<Longrightarrow> as_good s p r"
  by (auto simp: as_good_def split: if_splits)

lemma as_good_total: "\<not> as_good s p q \<Longrightarrow> as_good s q p"
  by (auto simp: as_good_def split: if_splits)

lemma as_good_antisym: "as_good s p q \<Longrightarrow> as_good s q p \<Longrightarrow> p = q"
  by (rule signed_word_eqI) (auto simp: as_good_def split: if_splits)

lemma sorted_wrt_ident:
  assumes "\<And>x y x' y'. ident x = ident x' \<Longrightarrow> ident y = ident y' \<Longrightarrow> R x y = R x' y'"
    and "map ident os' = drop n (map ident os)" "sorted_wrt R os"
  shows "sorted_wrt R os'"
proof -
  have eq: "map ident os' = map ident (drop n os)" using assms(2) by (simp add: drop_map)
  have len: "length os' = length (drop n os)" using map_eq_imp_length_eq [OF eq] .
  have id: "ident (os' ! i) = ident (drop n os ! i)" if "i < length os'" for i
    using arg_cong [OF eq, of "\<lambda>xs. xs ! i"] that len by simp
  have "sorted_wrt R (drop n os)" using assms(3) by (rule sorted_wrt_drop)
  then have "R (os' ! i) (os' ! j)" if "i < j" "j < length os'" for i j
    using assms(1) [OF id id, of i j] that len by (simp add: sorted_wrt_iff_nth_less)
  then show ?thesis by (simp add: sorted_wrt_iff_nth_less)
qed

subsection \<open>The two sides uniformly\<close>

definition clear :: "Side \<Rightarrow> Price \<Rightarrow> Price \<Rightarrow> bool" where
  "clear s p p' \<longleftrightarrow> (if s = Buy then sint p < sint p' else sint p' < sint p)"

lemma clear_iff: "clear s limit p \<longleftrightarrow> \<not> spec_crosses s limit p"
  by (auto simp: clear_def spec_crosses_def)

lemma clear_worse: "clear s p p' \<Longrightarrow> as_good (opposite s) p' p'' \<Longrightarrow> clear s p p''"
  by (cases s) (auto simp: clear_def as_good_def)

lemma uncrossed_side:
  "uncrossed A \<longleftrightarrow> (\<forall>x \<in> set (sb_side A s). \<forall>y \<in> set (sb_side A (opposite s)). clear s (ro_price x) (ro_price y))"
  by (cases s) (auto simp: uncrossed_def sb_side_def clear_def)

lemma distinct_sides:
  "distinct (map f (sb_bids A @ sb_asks A)) \<longleftrightarrow> distinct (map f (sb_side A s) @ map f (sb_side A (opposite s)))"
  by (cases s) (auto simp: sb_side_def)

lemma all_sides: "(\<forall>t. P t) \<longleftrightarrow> P s \<and> P (opposite s)" for s :: Side
  by (cases s) (metis (full_types) Side.exhaust opposite.simps)+

lemma opposite_neq2 [simp]: "s \<noteq> opposite s"
  by (cases s) auto

subsection \<open>Sorted insertion\<close>

lemma set_spec_insert [simp]: "set (spec_insert s ro os) = insert ro (set os)"
  by (induction os) auto

lemma distinct_spec_insert [simp]:
  "distinct (map f (spec_insert s ro os)) \<longleftrightarrow> f ro \<notin> f ` set os \<and> distinct (map f os)"
  by (induction os) auto

lemma price_sorted_insert: "price_sorted s os \<Longrightarrow> price_sorted s (spec_insert s ro os)"
proof (induction os)
  case (Cons x os)
  then show ?case
    by (auto simp: price_sorted_def intro: as_good_trans dest: as_good_total)
qed (simp add: price_sorted_def)

lemma before_insert:
  "sorted_wrt (before s) os \<Longrightarrow> \<forall>x \<in> set os. ro_priority x < ro_priority ro \<Longrightarrow>
   sorted_wrt (before s) (spec_insert s ro os)"
proof (induction os)
  case (Cons x os)
  show ?case
  proof (cases "as_good s (ro_price x) (ro_price ro)")
    case True
    then show ?thesis using Cons by (auto simp: before_def)
  next
    case False
    have "before s ro y" if "y \<in> set (x # os)" for y
    proof -
      have "as_good s (ro_price x) (ro_price y)" using that Cons.prems(1) by (auto simp: before_def)
      moreover have "as_good s (ro_price ro) (ro_price x)" using False by (rule as_good_total)
      moreover have "ro_price ro \<noteq> ro_price y" using False calculation by auto
      ultimately show ?thesis by (auto simp: before_def intro: as_good_trans)
    qed
    then show ?thesis using False Cons.prems by simp
  qed
qed simp

subsection \<open>Preservation by the building blocks\<close>

lemma as_good_ident:
  assumes "ident x = ident x'" "ident y = ident y'"
  shows "as_good s (ro_price x) (ro_price y) = as_good s (ro_price x') (ro_price y')"
  using ident_eqD(3) [OF assms(1)] ident_eqD(3) [OF assms(2)] by simp

lemma before_ident:
  assumes "ident x = ident x'" "ident y = ident y'"
  shows "before s x y = before s x' y'"
  using ident_eqD(3,4) [OF assms(1)] ident_eqD(3,4) [OF assms(2)] by (simp add: before_def)

lemma spec_wf_match:
  assumes wf: "spec_wf cfg A" and sm: "spec_match command limit r (sb_side A s) = (es, r', os')"
  shows "spec_wf cfg (sb_set_side A s os')"
proof -
  let ?os = "sb_side A s"
  note drop = spec_match_drop [OF sm, THEN conjunct1]
  have f: "map ro_order_id os' = drop (length ?os - length os') (map ro_order_id ?os)"
    using arg_cong [OF drop, of "map ro_order_id"] by (simp add: drop_map comp_def)
  have "price_sorted s os'"
    unfolding price_sorted_def
    by (rule sorted_wrt_ident [OF as_good_ident drop]) (use wf in \<open>auto simp: spec_wf_def price_sorted_def\<close>)
  moreover have "order_ok cfg s x" if x: "x \<in> set os'" for x
  proof -
    obtain y where y: "y \<in> set ?os" "ident y = ident x" using spec_match_ident [OF sm x] .
    then have "order_ok cfg s y" using wf by (simp add: spec_wf_def)
    moreover have "\<forall>x \<in> set ?os. ro_quantity x \<noteq> 0" using wf by (auto simp: spec_wf_def order_ok_def)
    ultimately show ?thesis
      using spec_match_positive [OF sm] x ident_eqD [OF y(2)] by (simp add: order_ok_def)
  qed
  moreover have "distinct (map ro_order_id ?os)" using wf unfolding spec_wf_def distinct_sides [of _ A s] by simp
  then have "distinct (map ro_order_id os')" unfolding f by (rule distinct_drop)
  moreover have "ro_order_id ` set ?os \<inter> ro_order_id ` set (sb_side A (opposite s)) = {}"
    using wf unfolding spec_wf_def distinct_sides [of _ A s] by simp
  then have "ro_order_id ` set os' \<inter> ro_order_id ` set (sb_side A (opposite s)) = {}"
    using set_drop_subset [of "length ?os - length os'" "map ro_order_id ?os"] f [symmetric] by (simp only: set_map) blast
  moreover have "clear s (ro_price x) (ro_price y)" if x: "x \<in> set os'" "y \<in> set (sb_side A (opposite s))" for x y
  proof -
    obtain z where "z \<in> set ?os" "ident z = ident x" using spec_match_ident [OF sm x(1)] .
    then show ?thesis using wf x(2) ident_eqD(3) [of z x] unfolding spec_wf_def uncrossed_side [of A s] by auto
  qed
  ultimately show ?thesis
    using wf unfolding spec_wf_def distinct_sides [of _ _ s] uncrossed_side [of _ s] all_sides [of _ s]
    by auto
qed

lemma timed_match:
  assumes tm: "timed A" and sm: "spec_match command limit r (sb_side A s) = (es, r', os')"
  shows "timed (sb_set_side A s os')"
proof -
  let ?os = "sb_side A s"
  note drop = spec_match_drop [OF sm, THEN conjunct1]
  have f: "map ro_priority os' = drop (length ?os - length os') (map ro_priority ?os)"
    using arg_cong [OF drop, of "map ro_priority"] by (simp add: drop_map comp_def)
  have "sorted_wrt (before s) os'"
    by (rule sorted_wrt_ident [OF before_ident drop]) (use tm in \<open>auto simp: timed_def\<close>)
  moreover have "ro_priority x \<le> sb_last_sequence A" if x: "x \<in> set os'" for x
  proof -
    obtain y where "y \<in> set ?os" "ident y = ident x" using spec_match_ident [OF sm x] .
    then show ?thesis using tm ident_eqD(4) [of y x] unfolding timed_def by metis
  qed
  moreover have "distinct (map ro_priority ?os)" using tm unfolding timed_def distinct_sides [of _ A s] by simp
  then have "distinct (map ro_priority os')" unfolding f by (rule distinct_drop)
  moreover have "ro_priority ` set ?os \<inter> ro_priority ` set (sb_side A (opposite s)) = {}"
    using tm unfolding timed_def distinct_sides [of _ A s] by simp
  then have "ro_priority ` set os' \<inter> ro_priority ` set (sb_side A (opposite s)) = {}"
    using set_drop_subset [of "length ?os - length os'" "map ro_priority ?os"] f [symmetric] by (simp only: set_map) blast
  ultimately show ?thesis
    using tm unfolding timed_def distinct_sides [of _ _ s] all_sides [of _ s] by auto
qed

lemma spec_wf_insert:
  assumes wf: "spec_wf cfg A" and ok: "order_ok cfg s ro" and new: "spec_find A (ro_order_id ro) = None"
    and clear: "\<And>y. y \<in> set (sb_side A (opposite s)) \<Longrightarrow> clear s (ro_price ro) (ro_price y)"
  shows "spec_wf cfg (sb_set_side A s (spec_insert s ro (sb_side A s)))"
proof -
  have "ro_order_id ro \<notin> ro_order_id ` set (sb_side A s)" "ro_order_id ro \<notin> ro_order_id ` set (sb_side A (opposite s))"
    using new unfolding spec_find_None by (cases s; auto simp: sb_side_def)+
  then show ?thesis
    using wf ok clear price_sorted_insert
    unfolding spec_wf_def distinct_sides [of _ _ s] uncrossed_side [of _ s] all_sides [of _ s]
    by auto
qed

lemma timed_insert:
  assumes tm: "timed A" and p: "ro_priority ro \<le> sb_last_sequence A"
    and late: "\<And>t x. x \<in> set (sb_side A t) \<Longrightarrow> ro_priority x < ro_priority ro"
  shows "timed (sb_set_side A s (spec_insert s ro (sb_side A s)))"
proof -
  have "ro_priority ro \<notin> ro_priority ` set (sb_side A t)" for t using late by force
  then show ?thesis
    using tm p late before_insert [of s "sb_side A s" ro]
    unfolding timed_def distinct_sides [of _ _ s] all_sides [of _ s] by auto
qed

lemma sb_side_remove: "sb_side (spec_remove A k) s = filter (\<lambda>ro. ro_order_id ro \<noteq> k) (sb_side A s)"
  by (simp add: sb_side_def spec_remove_def)

lemma spec_wf_remove: "spec_wf cfg A \<Longrightarrow> spec_wf cfg (spec_remove A k)"
  unfolding spec_wf_def distinct_sides [of _ _ Buy] uncrossed_side [of _ Buy] all_sides [of _ Buy]
  by (auto simp: sb_side_remove price_sorted_def sorted_wrt_filter distinct_map_filter)

lemma timed_remove: "timed A \<Longrightarrow> timed (spec_remove A k)"
  unfolding timed_def distinct_sides [of _ _ Buy] all_sides [of _ Buy]
  by (auto simp: sb_side_remove sorted_wrt_filter distinct_map_filter) (simp add: spec_remove_def)+

lemma sb_side_seq [simp]: "sb_side (A\<lparr>sb_last_sequence := n\<rparr>) s = sb_side A s"
  by (simp add: sb_side_def)

lemma spec_wf_seq [simp]: "spec_wf cfg (A\<lparr>sb_last_sequence := n\<rparr>) = spec_wf cfg A"
  by (simp add: spec_wf_def uncrossed_def)

lemma timed_seq: "timed A \<Longrightarrow> sb_last_sequence A \<le> n \<Longrightarrow> timed (A\<lparr>sb_last_sequence := n\<rparr>)"
  by (auto simp: timed_def intro: order_trans)

subsection \<open>Preservation by the commands\<close>

lemma spec_find_match:
  assumes "spec_find A k = None" "spec_match command limit r (sb_side A s) = (es, r', os')"
  shows "spec_find (sb_set_side A s os') k = None"
  using assms(1) spec_match_ids [OF assms(2)] unfolding spec_find_None
  by (cases s) (auto simp: sb_set_side_def sb_side_def)

lemma spec_execute_cases:
  obtains (matched) es r os where
    "spec_match command (effective_limit cfg command) (c_quantity command) (sb_side A (opposite (c_side command))) = (es, r, os)"
    "fst (spec_execute cfg A command replacement) =
      (let A1 = sb_set_side A (opposite (c_side command)) os in
       if r = 0 \<or> c_order_type command \<noteq> Limit then A1
       else sb_set_side A1 (c_side command) (spec_insert (c_side command)
         \<lparr>ro_order_id = c_order_id command, ro_side = c_side command, ro_price = c_price command,
          ro_quantity = r, ro_priority = c_sequence command\<rparr> (sb_side A1 (c_side command))))"
    "snd (spec_execute cfg A command replacement) =
      (if replacement then [] else [make_event Accepted command 0 0 0 NoReason]) @ es @
      (if r = 0 then []
       else [make_event (if c_order_type command = Limit then Rested else Cancelled) command 0 (c_price command) r NoReason])"
proof -
  obtain es r os where sm:
    "spec_match command (effective_limit cfg command) (c_quantity command) (sb_side A (opposite (c_side command))) = (es, r, os)"
    by (cases "spec_match command (effective_limit cfg command) (c_quantity command) (sb_side A (opposite (c_side command)))")
  show thesis by (rule that [OF sm]) (simp_all add: spec_execute_def sm Let_def)
qed

lemma spec_execute_wf:
  assumes wf: "spec_wf cfg A" and new: "spec_find A (c_order_id command) = None"
    and price: "c_order_type command = Limit \<Longrightarrow> valid_price cfg (c_price command)"
  shows "spec_wf cfg (fst (spec_execute cfg A command replacement))"
proof -
  let ?s = "c_side command"
  obtain es r os where sm: "spec_match command (effective_limit cfg command) (c_quantity command)
      (sb_side A (opposite ?s)) = (es, r, os)"
    and res: "fst (spec_execute cfg A command replacement) =
      (let A1 = sb_set_side A (opposite ?s) os in
       if r = 0 \<or> c_order_type command \<noteq> Limit then A1
       else sb_set_side A1 ?s (spec_insert ?s
         \<lparr>ro_order_id = c_order_id command, ro_side = ?s, ro_price = c_price command,
          ro_quantity = r, ro_priority = c_sequence command\<rparr> (sb_side A1 ?s)))"
    using spec_execute_cases [of command cfg A replacement] by metis
  let ?A1 = "sb_set_side A (opposite ?s) os"
  have wf1: "spec_wf cfg ?A1" by (rule spec_wf_match [OF wf sm])
  show ?thesis
  proof (cases "r = 0 \<or> c_order_type command \<noteq> Limit")
    case True
    then show ?thesis using res wf1 by (simp add: Let_def)
  next
    case False
    then have lim: "effective_limit cfg command = c_price command" by (simp add: effective_limit_def)
    have "clear ?s (c_price command) (ro_price y)" if "y \<in> set (sb_side ?A1 (opposite ?s))" for y
    proof -
      have y: "y \<in> set os" "os \<noteq> []" using that by auto
      then have "clear ?s (c_price command) (ro_price (hd os))"
        using spec_match_uncrossed [OF sm] False lim by (simp add: clear_iff)
      moreover have "as_good (opposite ?s) (ro_price (hd os)) (ro_price y)"
      proof -
        have "price_sorted (opposite ?s) (sb_side ?A1 (opposite ?s))" using wf1 unfolding spec_wf_def by blast
        then show ?thesis using y by (cases os) (auto simp: price_sorted_def)
      qed
      ultimately show ?thesis by (rule clear_worse)
    qed
    then show ?thesis
      unfolding res using False spec_find_match [OF new sm] price
      by (auto simp: Let_def order_ok_def simp del: sb_side_set intro!: spec_wf_insert [OF wf1])
  qed
qed

definition fresh :: "SpecBook \<Rightarrow> Sequence \<Rightarrow> bool" where
  "fresh A n \<longleftrightarrow> (\<forall>t. \<forall>x \<in> set (sb_side A t). ro_priority x < n) \<and> sb_last_sequence A = n"

lemma fresh_match:
  assumes "fresh A n" and sm: "spec_match command limit r (sb_side A s) = (es, r', os')"
  shows "fresh (sb_set_side A s os') n"
proof -
  have "ro_priority x < n" if x: "x \<in> set os'" for x
  proof -
    obtain y where "y \<in> set (sb_side A s)" "ident y = ident x" using spec_match_ident [OF sm x] .
    then show ?thesis using assms(1) ident_eqD(4) [of y x] unfolding fresh_def by metis
  qed
  then show ?thesis using assms(1) by (auto simp: fresh_def)
qed

lemma spec_execute_timed:
  assumes tm: "timed A" and fresh: "fresh A (c_sequence command)"
  shows "timed (fst (spec_execute cfg A command replacement))"
proof -
  let ?s = "c_side command"
  obtain es r os where sm: "spec_match command (effective_limit cfg command) (c_quantity command)
      (sb_side A (opposite ?s)) = (es, r, os)"
    and res: "fst (spec_execute cfg A command replacement) =
      (let A1 = sb_set_side A (opposite ?s) os in
       if r = 0 \<or> c_order_type command \<noteq> Limit then A1
       else sb_set_side A1 ?s (spec_insert ?s
         \<lparr>ro_order_id = c_order_id command, ro_side = ?s, ro_price = c_price command,
          ro_quantity = r, ro_priority = c_sequence command\<rparr> (sb_side A1 ?s)))"
    using spec_execute_cases [of command cfg A replacement] by metis
  have "timed (sb_set_side A (opposite ?s) os)" "fresh (sb_set_side A (opposite ?s) os) (c_sequence command)"
    using timed_match [OF tm sm] fresh_match [OF fresh sm] .
  then show ?thesis
    unfolding res Let_def using timed_insert [of "sb_set_side A (opposite ?s) os" _ ?s]
    by (auto simp: fresh_def simp del: sb_side_set)
qed

lemma spec_submit_result:
  "(\<exists>reason. spec_submit fill cfg A command replacement = spec_reject A command reason) \<or>
   spec_submit fill cfg A command replacement = spec_execute cfg A command replacement \<and>
     c_quantity command \<noteq> 0 \<and> (c_order_type command \<noteq> Market \<longrightarrow> valid_price cfg (c_price command)) \<and>
     (replacement \<or> spec_find A (c_order_id command) = None) \<and>
     (c_order_type command = FillOrKill \<longrightarrow> fill A command)"
  by (auto simp: spec_submit_def)

lemma spec_submit_wf:
  assumes "spec_wf cfg A" "replacement \<Longrightarrow> spec_find A (c_order_id command) = None"
  shows "spec_wf cfg (fst (spec_submit fill cfg A command replacement))"
  using spec_submit_result [of fill cfg A command replacement] assms spec_execute_wf [OF assms(1), of command replacement]
  by (auto simp: spec_reject_def)

lemma spec_submit_timed:
  assumes "timed A" "fresh A (c_sequence command)"
  shows "timed (fst (spec_submit fill cfg A command replacement))"
  using spec_submit_result [of fill cfg A command replacement] assms spec_execute_timed [OF assms]
  by (auto simp: spec_reject_def)

lemma spec_cancel_fst: "fst (spec_cancel A command) \<in> {A, spec_remove A (c_order_id command)}"
  by (simp add: spec_cancel_def spec_reject_def split: option.split)

lemma spec_replace_fst:
  "fst (spec_replace fill cfg A command) = A \<or>
   (\<exists>s. fst (spec_replace fill cfg A command) =
     fst (spec_submit fill cfg (spec_remove A (c_order_id command)) (command\<lparr>c_side := s, c_order_type := Limit\<rparr>) True))"
proof (cases "spec_find A (c_order_id command)")
  case (Some ro)
  then have "fst (spec_replace fill cfg A command) =
      (if c_quantity command = 0 \<or> \<not> valid_price cfg (c_price command) then A
       else fst (spec_submit fill cfg (spec_remove A (c_order_id command))
         (command\<lparr>c_side := ro_side ro, c_order_type := Limit\<rparr>) True))"
    by (simp add: spec_replace_def spec_reject_def split_beta Let_def)
  then show ?thesis by auto
qed (simp add: spec_replace_def spec_reject_def)

lemma spec_process_wf:
  assumes "spec_wf cfg A"
  shows "spec_wf cfg (fst (spec_process_with fill cfg A command))"
proof -
  let ?A1 = "A\<lparr>sb_last_sequence := c_sequence command\<rparr>"
  have wf1: "spec_wf cfg ?A1" using assms by simp
  have "spec_wf cfg (fst (spec_submit fill cfg ?A1 command False))" by (rule spec_submit_wf [OF wf1]) simp
  moreover have "spec_wf cfg (fst (spec_cancel ?A1 command))"
    using spec_cancel_fst [of ?A1 command] wf1 spec_wf_remove [OF wf1] by auto
  moreover have "spec_wf cfg (fst (spec_replace fill cfg ?A1 command))"
    using spec_replace_fst [of fill cfg ?A1 command] wf1
      spec_submit_wf [OF spec_wf_remove [OF wf1], of True] spec_find_removed by fastforce
  ultimately show ?thesis
    using assms by (auto simp: spec_process_with_def spec_reject_def Let_def split: CommandType.split)
qed

lemma spec_process_last:
  "sb_last_sequence (fst (spec_process_with fill cfg A command)) =
    (if c_sequence command = sb_last_sequence A + 1 then c_sequence command else sb_last_sequence A)"
proof -
  have execute: "sb_last_sequence (fst (spec_execute cfg A c r)) = sb_last_sequence A" for A c r
    by (rule spec_execute_cases [of c cfg A r]) (simp add: Let_def)
  have submit: "sb_last_sequence (fst (spec_submit f cfg A c r)) = sb_last_sequence A" for f A c r
    using spec_submit_result [of f cfg A c r] execute by (auto simp: spec_reject_def)
  have "sb_last_sequence (fst (spec_cancel A c)) = sb_last_sequence A" for A c
    using spec_cancel_fst [of A c] by (auto simp: spec_remove_def)
  moreover have "sb_last_sequence (fst (spec_replace f cfg A c)) = sb_last_sequence A" for f A c
    using spec_replace_fst [of f cfg A c] submit by (auto simp: spec_remove_def)
  ultimately show ?thesis using submit
    by (simp add: spec_process_with_def spec_reject_def Let_def split: CommandType.split)
qed

lemma next_sequence: "n + 1 \<noteq> 0 \<Longrightarrow> n < n + 1" for n :: Sequence
  using unatSuc [of n] by (simp add: word_less_nat_alt add.commute)

lemma spec_process_timed:
  assumes tm: "timed A" and nw: "sb_last_sequence A + 1 \<noteq> 0"
  shows "timed (fst (spec_process_with fill cfg A command))"
proof (cases "c_sequence command = sb_last_sequence A + 1")
  case True
  let ?A1 = "A\<lparr>sb_last_sequence := c_sequence command\<rparr>"
  have lt: "sb_last_sequence A < c_sequence command" using next_sequence [OF nw] True by simp
  then have tm1: "timed ?A1" using timed_seq [OF tm] by simp
  have fr: "fresh ?A1 (c_sequence command)" using tm lt by (auto simp: timed_def fresh_def intro: order_le_less_trans)
  then have fr2: "fresh (spec_remove ?A1 k) (c_sequence command)" for k
    by (auto simp: fresh_def sb_side_remove) (simp add: spec_remove_def)
  have "timed (fst (spec_submit fill cfg ?A1 command False))" by (rule spec_submit_timed [OF tm1 fr])
  moreover have "timed (fst (spec_cancel ?A1 command))"
    using spec_cancel_fst [of ?A1 command] tm1 timed_remove [OF tm1] by auto
  moreover have "timed (fst (spec_replace fill cfg ?A1 command))"
    using spec_replace_fst [of fill cfg ?A1 command] tm1 spec_submit_timed [OF timed_remove [OF tm1]] fr2 by fastforce
  ultimately show ?thesis
    using True by (auto simp: spec_process_with_def Let_def split: CommandType.split)
qed (use tm in \<open>simp add: spec_process_with_def spec_reject_def\<close>)

subsection \<open>Reading the book\<close>

lemma walk_dseg:
  "dseg ns p f xs l invalid_node \<Longrightarrow> walk ns f acc = Some (acc @ map (\<lambda>x. resting_of (ns ! x)) xs)"
proof (induction xs arbitrary: p f acc)
  case Nil
  then show ?case by (subst walk.simps) simp
next
  case (Cons x xs)
  then have f: "f = x" "x < length ns" "x \<noteq> invalid_node" "dseg ns x (on_next (ns ! x)) xs l invalid_node" by auto
  have "walk ns (on_next (ns ! x)) (acc @ [resting_of (ns ! x)]) =
      Some (acc @ map (\<lambda>x. resting_of (ns ! x)) (x # xs))"
    using Cons.IH [OF f(4)] by simp
  then show ?case using f by (subst walk.simps) (simp add: vec_simps)
qed

lemma walk_level:
  assumes "book_rep b q" "i < ob_price_count b"
  shows "walk (ob_nodes b) (pl_head (levels b s ! i)) acc = Some (acc @ rs b (q s i))"
  using level_repD(2) [OF assms(1) disjI2 [OF assms(2)], of s] walk_dseg
  by (auto simp: level_rep_def fifo_def rs_def)

text \<open>
  The content of a book as the abstract book, read off the data structures with the
  engine's own traversal of a level.
\<close>

definition view_level :: "OrderBook \<Rightarrow> Side \<Rightarrow> nat \<Rightarrow> RestingOrder list" where
  "view_level b s i = (case walk (ob_nodes b) (pl_head (levels b s ! i)) [] of None \<Rightarrow> [] | Some os \<Rightarrow> os)"

definition view_side :: "OrderBook \<Rightarrow> Side \<Rightarrow> RestingOrder list" where
  "view_side b s = concat (map (view_level b s) (scan s (ob_price_count b)))"

definition view :: "OrderBook \<Rightarrow> SpecBook" where
  "view b = \<lparr>sb_bids = view_side b Buy, sb_asks = view_side b Sell,
     sb_last_sequence = st_last_sequence (ob_stats b)\<rparr>"

lemma view_abs:
  assumes "book_rep b q"
  shows "view b = abs_book b q"
proof -
  have "view_side b s = abs_side b q s" for s
    unfolding view_side_def abs_side_def
    by (intro arg_cong [of _ _ concat] map_cong refl) (simp add: view_level_def walk_level [OF assms])
  then show ?thesis by (simp add: view_def abs_book_def)
qed

lemma simulates_view: "simulates b A \<Longrightarrow> A = view b"
  using view_abs by (auto simp: simulates_def)

lemma sb_side_view [simp]: "sb_side (view b) s = view_side b s"
  by (cases s) (simp_all add: view_def sb_side_def)

subsection \<open>The invariant of a book\<close>

lemma spec_wf_empty: "spec_wf cfg \<lparr>sb_bids = [], sb_asks = [], sb_last_sequence = n\<rparr>"
  by (simp add: spec_wf_def sb_side_def price_sorted_def uncrossed_def)

definition book_invar :: "BookConfig \<Rightarrow> OrderBook \<Rightarrow> bool" where
  "book_invar cfg b \<longleftrightarrow> simulates b (view b) \<and> spec_wf cfg (view b) \<and> ob_config b = cfg"

lemma book_invar_step:
  assumes "book_invar cfg b"
  obtains d b' where
    "process b command evs = Some (b', evs @ snd (spec_process_with (\<lambda>_ _. d) cfg (view b) command))"
    "view b' = fst (spec_process_with (\<lambda>_ _. d) cfg (view b) command)" "book_invar cfg b'"
    "ob_stats b' = process_stats (ob_stats b) command (snd (spec_process_with (\<lambda>_ _. d) cfg (view b) command)) (view b')"
    "d \<Longrightarrow> spec_fillable cfg (view b) command"
    "no_wrap_book (view b) \<Longrightarrow> d = spec_fillable cfg (view b) command"
proof -
  note inv = assms [unfolded book_invar_def]
  obtain d where d: "process_step b (view b) command evs d"
    "d \<longrightarrow> spec_fillable cfg (view b) command" "no_wrap_book (view b) \<longrightarrow> d = spec_fillable cfg (view b) command"
    using process_refines [of b "view b" command evs] inv by auto
  let ?S = "spec_process_with (\<lambda>_ _. d) cfg (view b) command"
  obtain b' where b': "process b command evs = Some (b', evs @ snd ?S)" "simulates b' (fst ?S)"
    "ob_config b' = cfg" "ob_stats b' = process_stats (ob_stats b) command (snd ?S) (fst ?S)"
    using d(1) inv by (auto simp: process_step_def split_beta)
  have v: "view b' = fst ?S" using simulates_view [OF b'(2)] by simp
  then have "book_invar cfg b'" using b' spec_process_wf [of cfg "view b"] inv by (simp add: book_invar_def)
  then show thesis using that [of b' d] b' d(2,3) v by simp
qed

text \<open>Books with the same contents behave alike, whatever their level totals have wrapped to.\<close>

lemma process_same_view:
  assumes "book_invar cfg b" "book_invar cfg b'" "view b' = view b"
  obtains b1 b1' es where "process b command evs = Some (b1, evs @ es)" "process b' command evs' = Some (b1', evs' @ es)"
    "book_invar cfg b1" "book_invar cfg b1'" "view b1' = view b1"
proof -
  have sim: "simulates b (view b)" "simulates b' (view b)" and cfg: "ob_config b = cfg" "ob_config b' = cfg"
    using assms by (simp_all add: book_invar_def)
  obtain d where d: "process_step b (view b) command evs d" "if c_quantity command = 0 then d else fill_decision b command d"
    using process_refines [OF sim(1), of command evs] by blast
  obtain d' where d': "process_step b' (view b) command evs' d'" "if c_quantity command = 0 then d' else fill_decision b' command d'"
    using process_refines [OF sim(2), of command evs'] by blast
  obtain q q' where rep: "book_rep b q" "book_rep b' q'" "abs_book b q = view b" "abs_book b' q' = view b"
    using sim by (auto simp: simulates_def)
  have "can_fully_fill b' side limit quantity = can_fully_fill b side limit quantity" for side limit quantity
    using rep(3,4) sb_side_abs cfg by (intro can_fully_fill_same [OF rep(1,2)]) metis+
  then have "d' = d" using d(2) d'(2) cfg by (auto simp: fill_decision_def split: if_splits)
  let ?S = "spec_process_with (\<lambda>_ _. d) cfg (view b) command"
  have wf: "spec_wf cfg (fst ?S)" using spec_process_wf [of cfg "view b"] assms(1) by (simp add: book_invar_def)
  obtain b1 where b1: "process b command evs = Some (b1, evs @ snd ?S)" "simulates b1 (fst ?S)" "ob_config b1 = cfg"
    using d(1) cfg by (auto simp: process_step_def split_beta)
  obtain b1' where b1': "process b' command evs' = Some (b1', evs' @ snd ?S)" "simulates b1' (fst ?S)" "ob_config b1' = cfg"
    using d'(1) cfg \<open>d' = d\<close> by (auto simp: process_step_def split_beta)
  show thesis
    using that [OF b1(1) b1'(1)] b1(2,3) b1'(2,3) wf simulates_view [OF b1(2)] simulates_view [OF b1'(2)]
    by (simp add: book_invar_def)
qed

subsection \<open>What the events of a match say\<close>

abbreviation trades :: "Event list \<Rightarrow> Event list" where
  "trades es \<equiv> filter (\<lambda>e. e_type e = Trade) es"

definition event_quantity :: "Event list \<Rightarrow> nat" where
  "event_quantity es = sum_list (map (\<lambda>e. unat (e_quantity e)) es)"

definition resting_quantity :: "RestingOrder list \<Rightarrow> nat" where
  "resting_quantity os = sum_list (map (\<lambda>ro. unat (ro_quantity ro)) os)"

lemma event_quantity_simps [simp]:
  "event_quantity [] = 0" "event_quantity (e # es) = unat (e_quantity e) + event_quantity es"
  "event_quantity (es @ es') = event_quantity es + event_quantity es'"
  by (simp_all add: event_quantity_def)

lemma resting_quantity_simps [simp]:
  "resting_quantity [] = 0" "resting_quantity (ro # os) = unat (ro_quantity ro) + resting_quantity os"
  by (simp_all add: resting_quantity_def)

lemma make_event_sel [simp]:
  "e_quantity (make_event type command contra price quantity reason) = quantity"
  "e_price (make_event type command contra price quantity reason) = price"
  "e_contra_order_id (make_event type command contra price quantity reason) = contra"
  "e_order_id (make_event type command contra price quantity reason) = c_order_id command"
  "e_sequence (make_event type command contra price quantity reason) = c_sequence command"
  "e_aggressor_side (make_event type command contra price quantity reason) = c_side command"
  "e_reason (make_event type command contra price quantity reason) = reason"
  by (simp_all add: make_event_def)

text \<open>
  The trades of a match name the resting orders from the front of the list, at their own
  prices, all within the limit; each but the last takes the whole order.
\<close>

definition takes_front :: "Command \<Rightarrow> Price \<Rightarrow> Event list \<Rightarrow> RestingOrder list \<Rightarrow> bool" where
  "takes_front command limit es os \<longleftrightarrow>
     length es \<le> length os \<and>
     (\<forall>i < length es. e_type (es ! i) = Trade \<and> e_order_id (es ! i) = c_order_id command \<and>
        e_contra_order_id (es ! i) = ro_order_id (os ! i) \<and> e_price (es ! i) = ro_price (os ! i) \<and>
        spec_crosses (c_side command) limit (e_price (es ! i)) \<and>
        (if Suc i < length es then e_quantity (es ! i) = ro_quantity (os ! i)
         else e_quantity (es ! i) \<le> ro_quantity (os ! i)))"

lemma takes_front_Nil [simp]: "takes_front command limit [] os"
  by (simp add: takes_front_def)

lemma takes_front_Cons:
  "takes_front command limit (e # es) (ro # os) \<longleftrightarrow>
     e_type e = Trade \<and> e_order_id e = c_order_id command \<and> e_contra_order_id e = ro_order_id ro \<and>
     e_price e = ro_price ro \<and> spec_crosses (c_side command) limit (e_price e) \<and>
     (if es \<noteq> [] then e_quantity e = ro_quantity ro else e_quantity e \<le> ro_quantity ro) \<and>
     takes_front command limit es os"
  unfolding takes_front_def by (auto simp: All_less_Suc2)

lemma spec_match_front:
  "spec_match command limit r os = (es, r', os') \<Longrightarrow> takes_front command limit es os"
proof (induction os arbitrary: r es)
  case (Cons ro os)
  then show ?case
    by (auto simp: Let_def takes_front_Cons split: if_splits prod.splits dest!: Cons.IH)
qed simp

lemma spec_match_conserves:
  "spec_match command limit r os = (es, r', os') \<Longrightarrow>
   unat r = event_quantity es + unat r' \<and> resting_quantity os = event_quantity es + resting_quantity os'"
proof (induction os arbitrary: r es)
  case (Cons ro os)
  let ?t = "min r (ro_quantity ro)"
  show ?case
  proof (cases "r = 0 \<or> \<not> spec_crosses (c_side command) limit (ro_price ro)")
    case True
    then show ?thesis using Cons.prems by auto
  next
    case go: False
    show ?thesis
    proof (cases "?t = ro_quantity ro")
      case True
      then have le: "ro_quantity ro \<le> r" by (simp add: min_def split: if_splits)
      then have "unat r = unat (ro_quantity ro) + unat (r - ro_quantity ro)"
        by (simp add: unat_sub word_le_nat_alt)
      moreover obtain es1 where sm1: "spec_match command limit (r - ro_quantity ro) os = (es1, r', os')"
        and es: "es = make_event Trade command (ro_order_id ro) (ro_price ro) (ro_quantity ro) NoReason # es1"
        using Cons.prems go True by (auto simp: Let_def split: prod.splits)
      ultimately show ?thesis using Cons.IH [OF sm1] by (simp add: es)
    next
      case False
      then have "?t = r" "r \<le> ro_quantity ro" by (auto simp: min_def split: if_splits)
      then have "unat (ro_quantity ro) = unat r + unat (ro_quantity ro - r)"
        by (simp add: unat_sub word_le_nat_alt)
      then show ?thesis using Cons.prems go False \<open>?t = r\<close> by (auto simp: Let_def)
    qed
  qed
qed simp

subsection \<open>The shape of a command's result\<close>

definition seq_ok :: "SpecBook \<Rightarrow> Command \<Rightarrow> bool" where
  "seq_ok A command \<longleftrightarrow> c_sequence command = sb_last_sequence A + 1"

definition with_seq :: "SpecBook \<Rightarrow> Command \<Rightarrow> SpecBook" where
  "with_seq A command = (if seq_ok A command then A\<lparr>sb_last_sequence := c_sequence command\<rparr> else A)"

lemma with_seq_side [simp]: "sb_side (with_seq A command) s = sb_side A s"
  by (simp add: with_seq_def sb_side_def)

lemma spec_new_cases:
  assumes "c_type command = New"
  obtains
    (rejected) reason where "spec_process_with fill cfg A command =
      (with_seq A command, [make_event Rejected command 0 0 0 reason])"
  | (executed) "spec_process_with fill cfg A command = spec_execute cfg (with_seq A command) command False"
      "seq_ok A command" "c_quantity command \<noteq> 0" "c_order_type command \<noteq> Market \<longrightarrow> valid_price cfg (c_price command)"
      "spec_find A (c_order_id command) = None" "c_order_type command = FillOrKill \<longrightarrow> fill (with_seq A command) command"
proof (cases "seq_ok A command")
  case False
  then show thesis
    using rejected [of SequenceGap] by (simp add: spec_process_with_def spec_reject_def seq_ok_def with_seq_def)
next
  case True
  then have "spec_process_with fill cfg A command = spec_submit fill cfg (with_seq A command) command False"
    using assms by (simp add: spec_process_with_def seq_ok_def with_seq_def Let_def)
  moreover have "spec_find (with_seq A command) k = spec_find A k" for k by (simp add: spec_find_def with_seq_def)
  ultimately show thesis
    using spec_submit_result [of fill cfg "with_seq A command" command False] rejected executed True
    by (auto simp: spec_reject_def)
qed

lemma spec_replace_cases:
  assumes "c_type command = Replace" "spec_size A \<le> maximum_orders cfg"
    and "\<forall>k. spec_find A k \<noteq> None \<longrightarrow> spec_size (spec_remove A k) < spec_size A"
  obtains
    (rejected) reason where "spec_process_with fill cfg A command =
      (with_seq A command, [make_event Rejected command 0 0 0 reason])"
  | (executed) ro cmd where "spec_find A (c_order_id command) = Some ro" "seq_ok A command"
      "cmd = command\<lparr>c_side := ro_side ro, c_order_type := Limit\<rparr>"
      "spec_process_with fill cfg A command =
        (fst (spec_execute cfg (spec_remove (with_seq A command) (c_order_id command)) cmd True),
         make_event Replaced cmd 0 (c_price cmd) (c_quantity cmd) NoReason #
         snd (spec_execute cfg (spec_remove (with_seq A command) (c_order_id command)) cmd True))"
      "c_quantity cmd \<noteq> 0" "valid_price cfg (c_price cmd)"
proof (cases "seq_ok A command")
  case False
  then show thesis
    using rejected [of SequenceGap] by (simp add: spec_process_with_def spec_reject_def seq_ok_def with_seq_def)
next
  case True
  let ?A1 = "with_seq A command" and ?k = "c_order_id command"
  have sp: "spec_process_with fill cfg A command = spec_replace fill cfg ?A1 command"
    using assms(1) True by (simp add: spec_process_with_def seq_ok_def with_seq_def Let_def)
  have find: "spec_find ?A1 k = spec_find A k" "spec_size (spec_remove ?A1 k) = spec_size (spec_remove A k)" for k
    by (simp_all add: spec_find_def with_seq_def spec_size_def spec_remove_def)
  show thesis
  proof (cases "spec_find A ?k")
    case None
    then show thesis using rejected [of UnknownOrderId] sp find(1) by (simp add: spec_replace_def spec_reject_def)
  next
    case (Some ro)
    show thesis
    proof (cases "c_quantity command = 0 \<or> \<not> valid_price cfg (c_price command)")
      case True
      then show thesis
        using rejected [of "if c_quantity command = 0 then InvalidQuantity else InvalidPrice"] sp find(1) Some
        by (simp add: spec_replace_def spec_reject_def split: if_splits)
    next
      case False
      let ?cmd = "command\<lparr>c_side := ro_side ro, c_order_type := Limit\<rparr>"
      have "spec_size (spec_remove ?A1 ?k) < maximum_orders cfg"
        using assms(2,3) Some find(2) by (metis option.distinct(1) order_less_le_trans)
      then have "spec_submit fill cfg (spec_remove ?A1 ?k) ?cmd True = spec_execute cfg (spec_remove ?A1 ?k) ?cmd True"
        using False by (simp add: spec_submit_def)
      then show thesis
        using executed [of ro ?cmd] Some False True sp find(1) by (simp add: spec_replace_def Let_def split_beta)
    qed
  qed
qed

end
