(* ===== verification/Book_Restore.thy ===== *)
theory Book_Restore
  imports Book_Laws "HOL-Library.Multiset"
begin

text \<open>
  Snapshot support of the book: \<open>resting_orders\<close> enumerates the content, \<open>restore\<close> loads orders
  into a new book by priority.  Restoring what was enumerated rebuilds the same book; any
  other list of orders is loaded or refused with an exception.  The theory ends with the
  reachable books: constructed, after a command, or restored.
\<close>

subsection \<open>Enumerating the resting orders\<close>

lemma collect_levels:
  assumes "book_rep b q" "\<forall>(i, s) \<in> set ps. i < ob_price_count b"
  shows "collect b ps acc = Some (acc @ concat (map (\<lambda>(i, s). rs b (q s i)) ps))"
  using assms(2)
proof (induction ps arbitrary: acc)
  case (Cons p ps)
  obtain i s where p: "p = (i, s)" by fastforce
  then have i: "i < ob_price_count b" using Cons.prems by simp
  then have "vec_at (levels b s) i = Some (levels b s ! i)" using book_repD(2) [OF assms(1), of s] by (simp add: vec_simps)
  then show ?case using Cons walk_level [OF assms(1) i, of s acc] by (simp add: p)
qed simp

lemma mset_concat_levels:
  "mset (concat (map f (concat (map (\<lambda>i. [(i, Buy), (i, Sell)]) is)))) =
     mset (concat (map (\<lambda>i. f (i, Buy)) is)) + mset (concat (map (\<lambda>i. f (i, Sell)) is))"
  by (induction "is") (simp_all add: ac_simps)

lemma resting_orders_view:
  assumes "simulates b A"
  obtains orders where "resting_orders b = Some orders" "mset orders = mset (view_side b Buy) + mset (view_side b Sell)"
proof -
  obtain q where q: "book_rep b q" "abs_book b q = A" using assms by (auto simp: simulates_def)
  have v: "view_side b s = abs_side b q s" for s
    using view_abs [OF q(1)] sb_side_view [of b s] sb_side_abs [of b q s] by simp
  let ?ps = "concat (map (\<lambda>i. [(i, Buy), (i, Sell)]) [0..<ob_price_count b])"
  have "\<forall>(i, s) \<in> set ?ps. i < ob_price_count b" by auto
  then have "resting_orders b = Some (concat (map (\<lambda>(i, s). rs b (q s i)) ?ps))"
    using collect_levels [OF q(1)] by (simp add: resting_orders_def)
  moreover have "mset (concat (map (\<lambda>(i, s). rs b (q s i)) ?ps)) = mset (view_side b Buy) + mset (view_side b Sell)"
  proof -
    have "mset (abs_side b q s) = mset (concat (map (\<lambda>i. rs b (q s i)) [0..<ob_price_count b]))" for s
      by (simp add: abs_side_def scan_def mset_concat rev_map [symmetric])
    then show ?thesis by (simp add: mset_concat_levels v)
  qed
  ultimately show thesis by (rule that)
qed

subsection \<open>Loading orders into a book\<close>

definition spec_add :: "SpecBook \<Rightarrow> RestingOrder \<Rightarrow> SpecBook" where
  "spec_add A ro = sb_set_side A (ro_side ro) (spec_insert (ro_side ro) ro (sb_side A (ro_side ro)))"

fun spec_load :: "BookConfig \<Rightarrow> Sequence \<Rightarrow> SpecBook \<Rightarrow> RestingOrder list \<Rightarrow> SpecBook option" where
  "spec_load cfg last_sequence A [] = Some A"
| "spec_load cfg last_sequence A (ro # orders) =
     (if \<not> valid_price cfg (ro_price ro) \<or> ro_quantity ro = 0 \<or> ro_priority ro > last_sequence \<or>
         spec_find A (ro_order_id ro) \<noteq> None
      then None else spec_load cfg last_sequence (spec_add A ro) orders)"

lemma spec_size_add: "spec_size (spec_add A ro) = Suc (spec_size A)"
proof -
  have "length (spec_insert s ro os) = Suc (length os)" for s os by (induction os) simp_all
  then show ?thesis by (cases "ro_side ro") (simp_all add: spec_add_def spec_size_def sb_set_side_def sb_side_def)
qed

lemma restore_loop_refines:
  assumes "simulates b A" "spec_size A + length orders \<le> maximum_orders (ob_config b)"
  shows "case spec_load (ob_config b) last_sequence A orders of
      None \<Rightarrow> restore_loop b last_sequence orders ignored = Inl RuntimeError
    | Some A' \<Rightarrow> (\<exists>b'. restore_loop b last_sequence orders ignored = Inr b' \<and> simulates b' A' \<and> ob_config b' = ob_config b \<and>
        ob_stats b' = (ob_stats b)\<lparr>st_resting_orders := spec_size A'\<rparr>)"
  using assms
proof (induction orders arbitrary: b A ignored)
  case Nil
  then obtain q where "book_rep b q" "abs_book b q = A" by (auto simp: simulates_def)
  then have "st_resting_orders (ob_stats b) = spec_size A" using simulates_stats(1) by simp
  then show ?case using Nil by simp
next
  case (Cons ro orders)
  obtain q where q: "book_rep b q" "positive b q" "abs_book b q = A" using Cons.prems(1) by (auto simp: simulates_def)
  have find: "fi_find (ob_order_index b) (ro_order_id ro) = Some (fi_map (ob_order_index b) (ro_order_id ro))"
    using fi_find_dict [OF book_repD(8) [OF q(1)]] .
  have found: "fi_map (ob_order_index b) (ro_order_id ro) \<noteq> None \<longleftrightarrow> spec_find A (ro_order_id ro) \<noteq> None"
    using spec_find_abs [OF q(1)] q(3) by simp
  show ?case
  proof (cases "\<not> valid_price (ob_config b) (ro_price ro) \<or> ro_quantity ro = 0 \<or> ro_priority ro > last_sequence \<or>
      spec_find A (ro_order_id ro) \<noteq> None")
    case True
    then show ?thesis using find found by auto
  next
    case False
    have eta: "\<lparr>ro_order_id = ro_order_id ro, ro_side = ro_side ro, ro_price = ro_price ro,
        ro_quantity = ro_quantity ro, ro_priority = ro_priority ro\<rparr> = ro" by simp
    obtain b1 ign where b1: "add_resting b (ro_order_id ro) (ro_side ro) (ro_price ro) (ro_quantity ro)
        (ro_priority ro) ignored = Some (b1, ign)" "simulates b1 (spec_add A ro)" "ob_config b1 = ob_config b"
      "ob_stats b1 = (ob_stats b)\<lparr>st_resting_orders := spec_size (spec_add A ro)\<rparr>"
      using add_resting_refines [OF q(1,2), of "ro_price ro" "ro_quantity ro" "ro_order_id ro" "ro_side ro" "ro_priority ro" ignored,
          unfolded eta] False Cons.prems(2) q(3) by (auto simp: spec_add_def)
    have "restore_loop b last_sequence (ro # orders) ignored = restore_loop b1 last_sequence orders ign"
      using False find found b1(1) by auto
    moreover have "spec_load (ob_config b) last_sequence A (ro # orders) = spec_load (ob_config b1) last_sequence (spec_add A ro) orders"
      using False b1(3) by auto
    ultimately show ?thesis
      using Cons.IH [OF b1(2), of ign] Cons.prems(2) b1(3,4) by (simp add: spec_size_add split: option.splits)
  qed
qed

lemma spec_load_side:
  "spec_load cfg last_sequence A orders = Some A' \<Longrightarrow>
    sb_side A' s = fold (spec_insert s) (filter (\<lambda>ro. ro_side ro = s) orders) (sb_side A s) \<and>
    sb_last_sequence A' = sb_last_sequence A"
  by (induction orders arbitrary: A) (auto simp: spec_add_def split: if_splits)

lemma mset_insert_all: "mset (fold (spec_insert s) orders os) = mset orders + mset os"
proof -
  have "mset (spec_insert s ro os) = add_mset ro (mset os)" for ro os by (induction os) auto
  then show ?thesis by (induction orders arbitrary: os) auto
qed

lemma price_sorted_insert_all: "price_sorted s os \<Longrightarrow> price_sorted s (fold (spec_insert s) orders os)"
  by (induction orders arbitrary: os) (simp_all add: price_sorted_insert)

lemma before_insert_all:
  "sorted_wrt (before s) os \<Longrightarrow> sorted_wrt (<) (map ro_priority orders) \<Longrightarrow>
   \<forall>x \<in> set os. \<forall>y \<in> set orders. ro_priority x < ro_priority y \<Longrightarrow> sorted_wrt (before s) (fold (spec_insert s) orders os)"
proof (induction orders arbitrary: os)
  case (Cons ro orders)
  have "sorted_wrt (before s) (spec_insert s ro os)" using Cons.prems(1,3) by (intro before_insert) auto
  then show ?case using Cons.IH [of "spec_insert s ro os"] Cons.prems by simp
qed simp

lemma sorted_wrt_unique:
  assumes "sorted_wrt R xs" "sorted_wrt R ys" "mset xs = mset ys" "\<And>x y. R x y \<Longrightarrow> \<not> R y x"
  shows "xs = ys"
  using assms(1-3)
proof (induction xs arbitrary: ys)
  case (Cons x xs)
  then obtain y zs where ys: "ys = y # zs" by (cases ys) auto
  have "x = y"
  proof (rule ccontr)
    assume "x \<noteq> y"
    moreover have "set (x # xs) = set (y # zs)" using Cons.prems(3) ys by (metis set_mset_mset)
    ultimately have "y \<in> set xs" "x \<in> set zs" by auto
    then show False using Cons.prems(1,2) ys assms(4) by auto
  qed
  then show ?case using Cons.IH [of zs] Cons.prems ys by simp
qed simp

lemma before_asym: "before s x y \<Longrightarrow> \<not> before s y x"
  using as_good_antisym by (fastforce simp: before_def)

lemma spec_load_accepts:
  assumes "\<forall>ro \<in> set orders. valid_price cfg (ro_price ro) \<and> ro_quantity ro \<noteq> 0 \<and> ro_priority ro \<le> last_sequence"
    and "distinct (map ro_order_id (orders @ sb_bids A @ sb_asks A))"
  shows "\<exists>A'. spec_load cfg last_sequence A orders = Some A'"
  using assms
proof (induction orders arbitrary: A)
  case (Cons ro orders)
  have none: "spec_find A (ro_order_id ro) = None"
    using Cons.prems(2) by (auto simp: spec_find_None)
  have "distinct (map ro_order_id (orders @ sb_bids (spec_add A ro) @ sb_asks (spec_add A ro)))"
    using Cons.prems(2) by (cases "ro_side ro") (auto simp: spec_add_def sb_set_side_def sb_side_def)
  then show ?case using Cons.IH [of "spec_add A ro"] Cons.prems(1) none by (auto simp: not_less)
qed simp

subsection \<open>Restoring\<close>

lemma restore_new:
  assumes "order_book cfg = Inr b0"
  shows "restore b0 last_sequence orders =
     (if length orders > maximum_orders cfg then Inl LogicError
      else case restore_loop b0 last_sequence (sort_key ro_priority orders) [] of
        Inl e \<Rightarrow> Inl e
      | Inr b1 \<Rightarrow> Inr (b1\<lparr>ob_stats := (ob_stats b1)\<lparr>st_last_sequence := last_sequence\<rparr>\<rparr>))"
  using order_book_rep(2,3) [OF assms] by (simp add: restore_def default_stats_def)

abbreviation (input) empty_book :: SpecBook where
  "empty_book \<equiv> \<lparr>sb_bids = [], sb_asks = [], sb_last_sequence = 0\<rparr>"

text \<open>
  Restoring into a new book never leaves the defined behaviour: the orders in sequence of their
  priorities are loaded, or the call throws.
\<close>

lemma restore_refines:
  assumes b0: "order_book cfg = Inr b0" and fits: "length orders \<le> maximum_orders cfg"
  shows "case spec_load cfg last_sequence empty_book (sort_key ro_priority orders) of
      None \<Rightarrow> restore b0 last_sequence orders = Inl RuntimeError
    | Some A \<Rightarrow> (\<exists>b'. restore b0 last_sequence orders = Inr b' \<and> ob_config b' = cfg \<and>
        simulates b' (A\<lparr>sb_last_sequence := last_sequence\<rparr>) \<and>
        ob_stats b' = default_stats\<lparr>st_last_sequence := last_sequence, st_resting_orders := spec_size A\<rparr>)"
proof -
  note new = order_book_simulates [OF b0] order_book_rep(3) [OF b0]
  have loop: "case spec_load cfg last_sequence empty_book (sort_key ro_priority orders) of
      None \<Rightarrow> restore_loop b0 last_sequence (sort_key ro_priority orders) [] = Inl RuntimeError
    | Some A \<Rightarrow> (\<exists>b'. restore_loop b0 last_sequence (sort_key ro_priority orders) [] = Inr b' \<and> simulates b' A \<and>
        ob_config b' = ob_config b0 \<and> ob_stats b' = (ob_stats b0)\<lparr>st_resting_orders := spec_size A\<rparr>)"
    using restore_loop_refines [OF new(1), of "sort_key ro_priority orders" last_sequence "[]"] fits new(2)
    by (simp add: spec_size_def)
  show ?thesis
  proof (cases "spec_load cfg last_sequence empty_book (sort_key ro_priority orders)")
    case None
    then show ?thesis using loop fits by (simp add: restore_new [OF b0])
  next
    case (Some A)
    obtain b1 where b1: "restore_loop b0 last_sequence (sort_key ro_priority orders) [] = Inr b1" "simulates b1 A"
      "ob_config b1 = cfg" "ob_stats b1 = default_stats\<lparr>st_resting_orders := spec_size A\<rparr>"
      using loop Some new(2,3) by auto
    let ?b = "b1\<lparr>ob_stats := (ob_stats b1)\<lparr>st_last_sequence := last_sequence\<rparr>\<rparr>"
    obtain q where q: "book_rep b1 q" "positive b1 q" "abs_book b1 q = A" using b1(2) by (auto simp: simulates_def)
    let ?st = "(ob_stats b1)\<lparr>st_last_sequence := last_sequence\<rparr>"
    have "simulates ?b (A\<lparr>sb_last_sequence := last_sequence\<rparr>)"
      unfolding simulates_def using q book_rep_stats [of ?st b1 q] abs_book_stats [of ?st b1 q]
      by (intro exI [of _ q]) simp
    moreover have "restore b0 last_sequence orders = Inr ?b" using b1(1) fits by (simp add: restore_new [OF b0])
    moreover have "ob_stats ?b = default_stats\<lparr>st_last_sequence := last_sequence, st_resting_orders := spec_size A\<rparr>"
      by (simp add: b1(4) default_stats_def)
    ultimately show ?thesis using Some b1(3) by (intro option.case_eq_if [THEN iffD2] exI [of _ ?b]) simp
  qed
qed

text \<open>A snapshot taken from a book and restored holds the same orders.\<close>

lemma restored_sides:
  assumes inv: "book_invar cfg b" and orders: "resting_orders b = Some orders"
    and load: "spec_load cfg last_sequence empty_book (sort_key ro_priority orders) = Some A"
  shows "mset (sb_side A s) = mset (view_side b s)" "price_sorted s (sb_side A s)"
    "timed (view b) \<Longrightarrow> sb_side A s = view_side b s"
proof -
  have sim: "simulates b (view b)" and wf: "spec_wf cfg (view b)" using inv by (auto simp: book_invar_def)
  have ms: "mset orders = mset (view_side b Buy) + mset (view_side b Sell)"
    by (rule resting_orders_view [OF sim]) (use orders in simp)
  have side: "ro_side ro = s" if "ro \<in> set (view_side b s)" for ro s
    using wf that by (auto simp: spec_wf_def order_ok_def)
  let ?os = "filter (\<lambda>ro. ro_side ro = s) (sort_key ro_priority orders)"
  have A: "sb_side A s = fold (spec_insert s) ?os []"
    using spec_load_side [OF load, of s] by (simp add: sb_side_def)
  have "mset ?os = filter_mset (\<lambda>ro. ro_side ro = s) (mset orders)" by (simp add: mset_filter)
  also have "\<dots> = mset (view_side b s)"
  proof -
    have "filter (\<lambda>ro. ro_side ro = s) (view_side b t) = (if t = s then view_side b s else [])" for t
      using side [of _ t] by (auto simp: filter_id_conv filter_empty_conv)
    then show ?thesis unfolding ms by (cases s) (simp_all flip: mset_filter)
  qed
  finally have mos: "mset ?os = mset (view_side b s)" .
  then show msA: "mset (sb_side A s) = mset (view_side b s)" by (simp add: A mset_insert_all)
  show "price_sorted s (sb_side A s)" unfolding A by (rule price_sorted_insert_all) (simp add: price_sorted_def)
  show "sb_side A s = view_side b s" if tm: "timed (view b)"
  proof -
    have "distinct (map ro_priority (view_side b Buy @ view_side b Sell))"
      using tm by (simp add: timed_def view_def)
    then have "distinct (map ro_priority orders)"
      by (metis mset_append mset_map ms mset_eq_imp_distinct_iff)
    then have "sorted_wrt (<) (map ro_priority (sort_key ro_priority orders))"
      by (simp add: strict_sorted_iff mset_eq_imp_distinct_iff [of "map ro_priority (sort_key ro_priority orders)" "map ro_priority orders"])
    then have "sorted_wrt (<) (map ro_priority ?os)" by (simp add: sorted_wrt_map sorted_wrt_filter)
    then have "sorted_wrt (before s) (sb_side A s)" unfolding A by (intro before_insert_all) simp_all
    moreover have "sorted_wrt (before s) (view_side b s)" using tm sb_side_view by (metis timed_def)
    ultimately show ?thesis using msA before_asym by (rule sorted_wrt_unique)
  qed
qed

lemma length_resting_orders:
  assumes "book_invar cfg b" "resting_orders b = Some orders"
  shows "length orders \<le> maximum_orders cfg"
proof -
  have sim: "simulates b (view b)" "ob_config b = cfg" using assms(1) by (auto simp: book_invar_def)
  have "mset orders = mset (view_side b Buy) + mset (view_side b Sell)"
    by (rule resting_orders_view [OF sim(1)]) (use assms(2) in simp)
  then have "length orders = spec_size (view b)"
    by (metis mset_append size_mset length_append spec_size_def view_def SpecBook.select_convs(1,2))
  then show ?thesis using simulates_size [OF sim(1)] sim(2) by simp
qed

lemma book_invar_restored:
  assumes inv: "book_invar cfg b" and orders: "resting_orders b = Some orders" and b0: "order_book cfg = Inr b0"
    and b': "restore b0 last_sequence orders = Inr b'"
  shows "book_invar cfg b'" "mset (view_side b' s) = mset (view_side b s)" "sb_last_sequence (view b') = last_sequence"
    "timed (view b) \<Longrightarrow> view_side b' s = view_side b s"
    "ob_stats b' = default_stats\<lparr>st_last_sequence := last_sequence, st_resting_orders := spec_size (view b)\<rparr>"
proof -
  note r = restore_refines [OF b0 length_resting_orders [OF inv orders], of last_sequence]
  obtain A where A: "spec_load cfg last_sequence empty_book (sort_key ro_priority orders) = Some A"
    "ob_config b' = cfg" "simulates b' (A\<lparr>sb_last_sequence := last_sequence\<rparr>)"
    "ob_stats b' = default_stats\<lparr>st_last_sequence := last_sequence, st_resting_orders := spec_size A\<rparr>"
    using r b' by (auto split: option.splits)
  note side = restored_sides [OF inv orders A(1)]
  have v: "view b' = A\<lparr>sb_last_sequence := last_sequence\<rparr>" using simulates_view [OF A(3)] by simp
  then have vs: "view_side b' s = sb_side A s" for s using sb_side_view [of b' s] by simp
  show "mset (view_side b' s) = mset (view_side b s)" "timed (view b) \<Longrightarrow> view_side b' s = view_side b s"
    using side(1,3) vs by simp_all
  show "sb_last_sequence (view b') = last_sequence" by (simp add: v)
  have set: "set (sb_side A s) = set (view_side b s)" for s using side(1) by (metis set_mset_mset)
  have "distinct (map ro_order_id (sb_side A Buy @ sb_side A Sell)) \<longleftrightarrow>
      distinct (map ro_order_id (view_side b Buy @ view_side b Sell))"
    using side(1) by (intro mset_eq_imp_distinct_iff) simp
  then have "spec_wf cfg A"
    using inv side(2) [of Buy] side(2) [of Sell] set [of Buy] set [of Sell] unfolding book_invar_def spec_wf_def uncrossed_side [of _ Buy] all_sides [of _ Buy]
    by (simp add: view_def sb_side_def)
  then show "book_invar cfg b'" using A(2,3) v by (simp add: book_invar_def)
  have "length (sb_side A s) = length (view_side b s)" for s using side(1) by (metis size_mset)
  from this [of Buy] this [of Sell] have "spec_size A = spec_size (view b)"
    by (simp add: spec_size_def sb_side_def view_def)
  then show "ob_stats b' = default_stats\<lparr>st_last_sequence := last_sequence, st_resting_orders := spec_size (view b)\<rparr>"
    using A(4) by simp
qed

lemma restore_succeeds:
  assumes inv: "book_invar cfg b" and tm: "timed (view b)" and b0: "order_book cfg = Inr b0"
  obtains orders b' where "resting_orders b = Some orders"
    "restore b0 (st_last_sequence (ob_stats b)) orders = Inr b'" "book_invar cfg b'" "view b' = view b"
    "ob_stats b' = default_stats\<lparr>st_last_sequence := st_last_sequence (ob_stats b), st_resting_orders := spec_size (view b)\<rparr>"
proof -
  have sim: "simulates b (view b)" and wf: "spec_wf cfg (view b)" using inv by (auto simp: book_invar_def)
  obtain orders where o: "resting_orders b = Some orders" "mset orders = mset (view_side b Buy) + mset (view_side b Sell)"
    using resting_orders_view [OF sim] by blast
  let ?last = "st_last_sequence (ob_stats b)" and ?os = "sort_key ro_priority orders"
  have set: "set orders = set (view_side b Buy) \<union> set (view_side b Sell)"
    using arg_cong [OF o(2), of set_mset] by simp
  have "distinct (map ro_order_id (view_side b Buy @ view_side b Sell))" using wf by (simp add: spec_wf_def view_def)
  then have "distinct (map ro_order_id ?os)"
    using mset_eq_imp_distinct_iff [of "map ro_order_id ?os" "map ro_order_id (view_side b Buy @ view_side b Sell)"] o(2) by simp
  moreover have ok: "valid_price cfg (ro_price ro) \<and> ro_quantity ro \<noteq> 0 \<and> ro_priority ro \<le> ?last"
    if "ro \<in> set (view_side b s)" for ro s
  proof -
    have "order_ok cfg s ro" using wf that by (simp add: spec_wf_def)
    moreover have "ro_priority ro \<le> sb_last_sequence (view b)" using tm that by (simp add: timed_def)
    ultimately show ?thesis by (simp add: order_ok_def view_def)
  qed
  ultimately have "\<exists>A. spec_load cfg ?last empty_book ?os = Some A"
    using set by (intro spec_load_accepts) auto
  then obtain b' where b': "restore b0 ?last orders = Inr b'"
    using restore_refines [OF b0 length_resting_orders [OF inv o(1)], of ?last] by auto
  note r = book_invar_restored [OF inv o(1) b0 b']
  have "view b' = view b" using r(3) r(4) [OF tm] by (simp add: view_def)
  then show thesis using that [OF o(1) b' r(1) _ r(5)] by simp
qed

subsection \<open>Reachable books\<close>

text \<open>The books a process can hold: newly constructed, after a command, or restored from a snapshot of such a book.\<close>

inductive reachable :: "BookConfig \<Rightarrow> OrderBook \<Rightarrow> bool" for cfg where
  start: "order_book cfg = Inr b \<Longrightarrow> reachable cfg b"
| step: "reachable cfg b \<Longrightarrow> process b command evs = Some (b', evs') \<Longrightarrow> reachable cfg b'"
| restored: "reachable cfg b \<Longrightarrow> resting_orders b = Some orders \<Longrightarrow> order_book cfg = Inr b0 \<Longrightarrow>
    restore b0 (st_last_sequence (ob_stats b)) orders = Inr b' \<Longrightarrow> reachable cfg b'"

inductive_cases reachableE: "reachable cfg b"

lemma reachable_invar: "reachable cfg b \<Longrightarrow> book_invar cfg b"
proof (induction rule: reachable.induct)
  case (start b)
  then show ?case
    using order_book_simulates [OF start] simulates_view spec_wf_empty by (metis book_invar_def)
next
  case (step b command evs b' evs')
  then show ?case using book_invar_step [OF step.IH, of command evs] by (metis option.inject prod.inject)
next
  case (restored b orders b0 b')
  then show ?case using book_invar_restored(1) by blast
qed

end
