(* ===== verification/Engine_Theorems.thy ===== *)
theory Engine_Theorems
  imports Book_Restore
begin

text \<open>
  The properties of the matching engine, stated about the translated operations and every
  book that a sequence of commands can produce, with concrete witnesses.
\<close>

subsection \<open>A reachable book\<close>

text \<open>
  A small configuration and the book after three limit orders, which the witnesses of the
  properties below use: asks 10 at 5 and 20 at 6, a bid of 7 at 4.
\<close>

definition demo_config :: BookConfig where
  "demo_config = \<lparr>minimum_price = 1, maximum_price = 10, tick_size = 1, maximum_orders = 4\<rparr>"

definition limit_order :: "Sequence \<Rightarrow> Side \<Rightarrow> OrderId \<Rightarrow> Price \<Rightarrow> Quantity \<Rightarrow> Command" where
  "limit_order n s k p r = \<lparr>c_sequence = n, c_type = New, c_side = s, c_order_type = Limit, c_reserved = 0,
     c_order_id = k, c_price = p, c_quantity = r\<rparr>"

definition demo_view :: SpecBook where
  "demo_view = \<lparr>
     sb_bids = [\<lparr>ro_order_id = 3, ro_side = Buy, ro_price = 4, ro_quantity = 7, ro_priority = 3\<rparr>],
     sb_asks = [\<lparr>ro_order_id = 1, ro_side = Sell, ro_price = 5, ro_quantity = 10, ro_priority = 1\<rparr>,
                \<lparr>ro_order_id = 2, ro_side = Sell, ro_price = 6, ro_quantity = 20, ro_priority = 2\<rparr>],
     sb_last_sequence = 3\<rparr>"

lemma no_wrapI: "resting_quantity os < 2 ^ 64 \<Longrightarrow> no_wrap os"
proof -
  assume lt: "resting_quantity os < 2 ^ 64"
  have "level_quantity os p \<le> resting_quantity os" for p
    unfolding level_quantity_def resting_quantity_def by (induction os) auto
  then show ?thesis unfolding no_wrap_def using lt by (meson le_less_trans)
qed

lemma run_spec_step:
  assumes "reachable cfg b" "view b = A" "spec_process cfg A command = (A', es)"
    and "resting_quantity (sb_bids A) < 2 ^ 64" "resting_quantity (sb_asks A) < 2 ^ 64"
  shows "\<exists>b'. process b command evs = Some (b', evs @ es) \<and> reachable cfg b' \<and> view b' = A'"
proof -
  have "simulates b A" "ob_config b = cfg" using reachable_invar [OF assms(1)] assms(2) by (auto simp: book_invar_def)
  moreover have "no_wrap_book A" using assms(4,5) no_wrapI by (simp add: no_wrap_book_def)
  ultimately obtain b' where b': "process b command evs = Some (b', evs @ es)" "simulates b' A'"
    using process_implements_spec [of b A command evs] assms(3) by auto
  then show ?thesis using reachable.step [OF assms(1) b'(1)] simulates_view by auto
qed

lemma demo_start: "\<exists>b. reachable demo_config b \<and> view b = \<lparr>sb_bids = [], sb_asks = [], sb_last_sequence = 0\<rparr>"
proof -
  have "checked_price_count demo_config = Inr 10" by code_simp
  then obtain b where b: "order_book demo_config = Inr b" using order_book_accepts by blast
  then show ?thesis
    using reachable.start [OF b] simulates_view [OF order_book_simulates(1) [OF b]] by metis
qed

lemma demo_steps:
  "spec_process demo_config \<lparr>sb_bids = [], sb_asks = [], sb_last_sequence = 0\<rparr> (limit_order 1 Sell 1 5 10) =
    (\<lparr>sb_bids = [], sb_asks = [\<lparr>ro_order_id = 1, ro_side = Sell, ro_price = 5, ro_quantity = 10, ro_priority = 1\<rparr>],
      sb_last_sequence = 1\<rparr>,
     [make_event Accepted (limit_order 1 Sell 1 5 10) 0 0 0 NoReason,
      make_event Rested (limit_order 1 Sell 1 5 10) 0 5 10 NoReason])"
  "spec_process demo_config \<lparr>sb_bids = [],
      sb_asks = [\<lparr>ro_order_id = 1, ro_side = Sell, ro_price = 5, ro_quantity = 10, ro_priority = 1\<rparr>],
      sb_last_sequence = 1\<rparr> (limit_order 2 Sell 2 6 20) =
    (\<lparr>sb_bids = [], sb_asks = [\<lparr>ro_order_id = 1, ro_side = Sell, ro_price = 5, ro_quantity = 10, ro_priority = 1\<rparr>,
       \<lparr>ro_order_id = 2, ro_side = Sell, ro_price = 6, ro_quantity = 20, ro_priority = 2\<rparr>], sb_last_sequence = 2\<rparr>,
     [make_event Accepted (limit_order 2 Sell 2 6 20) 0 0 0 NoReason,
      make_event Rested (limit_order 2 Sell 2 6 20) 0 6 20 NoReason])"
  "spec_process demo_config \<lparr>sb_bids = [],
      sb_asks = [\<lparr>ro_order_id = 1, ro_side = Sell, ro_price = 5, ro_quantity = 10, ro_priority = 1\<rparr>,
       \<lparr>ro_order_id = 2, ro_side = Sell, ro_price = 6, ro_quantity = 20, ro_priority = 2\<rparr>],
      sb_last_sequence = 2\<rparr> (limit_order 3 Buy 3 4 7) =
    (demo_view,
     [make_event Accepted (limit_order 3 Buy 3 4 7) 0 0 0 NoReason,
      make_event Rested (limit_order 3 Buy 3 4 7) 0 4 7 NoReason])"
  by code_simp+

lemma demo_book: "\<exists>b. reachable demo_config b \<and> view b = demo_view"
proof -
  obtain b0 where b0: "reachable demo_config b0" "view b0 = \<lparr>sb_bids = [], sb_asks = [], sb_last_sequence = 0\<rparr>"
    using demo_start by blast
  obtain b1 where b1: "reachable demo_config b1" "view b1 = fst (spec_process demo_config (view b0) (limit_order 1 Sell 1 5 10))"
    using run_spec_step [OF b0 demo_steps(1), of "[]"] b0(2) demo_steps(1) by auto
  obtain b2 where b2: "reachable demo_config b2" "view b2 = fst (spec_process demo_config (view b1) (limit_order 2 Sell 2 6 20))"
    using run_spec_step [OF b1(1) _ demo_steps(2), of "[]"] b1(2) b0(2) demo_steps(1,2) by auto
  show ?thesis
    using run_spec_step [OF b2(1) _ demo_steps(3), of "[]"] b2(2) b1(2) b0(2) demo_steps by auto
qed

text \<open>An aggressive order on that book: it takes the whole ask at 5 and part of the one at 6.\<close>

lemma demo_aggress:
  "spec_process demo_config demo_view (limit_order 4 Buy 9 6 15) =
    (\<lparr>sb_bids = sb_bids demo_view,
      sb_asks = [\<lparr>ro_order_id = 2, ro_side = Sell, ro_price = 6, ro_quantity = 15, ro_priority = 2\<rparr>],
      sb_last_sequence = 4\<rparr>,
     [make_event Accepted (limit_order 4 Buy 9 6 15) 0 0 0 NoReason,
      make_event Trade (limit_order 4 Buy 9 6 15) 1 5 10 NoReason,
      make_event Trade (limit_order 4 Buy 9 6 15) 2 6 5 NoReason])"
  by code_simp

lemma demo_run:
  assumes "spec_process demo_config demo_view command = (A', es)"
  shows "\<exists>b b'. reachable demo_config b \<and> view b = demo_view \<and> process b command [] = Some (b', [] @ es) \<and>
    reachable demo_config b' \<and> view b' = A'"
proof -
  obtain b where b: "reachable demo_config b" "view b = demo_view" using demo_book by blast
  have "resting_quantity (sb_bids demo_view) < 2 ^ 64" "resting_quantity (sb_asks demo_view) < 2 ^ 64"
    by (simp_all add: demo_view_def)
  then show ?thesis using run_spec_step [OF b assms, of "[]"] b by blast
qed

subsection \<open>Refinement and safety\<close>

text \<open>
  C3.  The engine never faults and always returns.  For every book a sequence of commands
  can produce and for every command, \<open>process\<close> terminates normally: no access outside an
  arena, ladder, bitmap or free list, no failing index insertion, no endless matching or
  scanning loop.  It only appends to the event vector, and the resulting book is again
  one of these.
\<close>

theorem process_total:
  assumes "reachable cfg b"
  shows "\<exists>b' es. process b command evs = Some (b', evs @ es) \<and> reachable cfg b'"
  using book_invar_step [OF reachable_invar [OF assms], of command evs] reachable.step [OF assms] by metis

theorem process_total_witness:
  "\<exists>b b' es. view b = demo_view \<and> process b (limit_order 4 Buy 9 6 15) [] = Some (b', [] @ es)"
  using demo_book process_total by blast

text \<open>
  C2.  Refinement.  As long as no price level holds \<open>2 ^ 64\<close> or more in total, every command
  changes the content of the book and emits events exactly as the abstract price-time
  book does: \<open>view (process b c) = spec_process (view b) c\<close>.
\<close>

theorem process_refines_spec:
  assumes "reachable cfg b" "no_wrap_book (view b)"
  shows "\<exists>b'. process b command evs = Some (b', evs @ snd (spec_process cfg (view b) command)) \<and>
    view b' = fst (spec_process cfg (view b) command)"
proof -
  have inv: "simulates b (view b)" "ob_config b = cfg" using reachable_invar [OF assms(1)] by (auto simp: book_invar_def)
  obtain b' where "process b command evs = Some (b', evs @ snd (spec_process cfg (view b) command))"
    "simulates b' (fst (spec_process cfg (view b) command))"
    using process_implements_spec [OF inv(1) assms(2), of command evs] inv(2) by blast
  then show ?thesis using simulates_view by auto
qed

theorem process_refines_spec_witness:
  "\<exists>b b'. view b = demo_view \<and> process b (limit_order 4 Buy 9 6 15) [] = Some (b', [] @
     [make_event Accepted (limit_order 4 Buy 9 6 15) 0 0 0 NoReason,
      make_event Trade (limit_order 4 Buy 9 6 15) 1 5 10 NoReason,
      make_event Trade (limit_order 4 Buy 9 6 15) 2 6 5 NoReason])"
proof -
  obtain b where b: "reachable demo_config b" "view b = demo_view" using demo_book by blast
  have "no_wrap_book (view b)" unfolding b(2) no_wrap_book_def by (simp add: no_wrapI demo_view_def)
  from process_refines_spec [OF b(1) this, of "limit_order 4 Buy 9 6 15" "[]"] show ?thesis
    unfolding b(2) demo_aggress using b(2) by auto
qed

text \<open>
  Without any hypothesis on quantities the engine is still the abstract book, except
  that its fill decision may be the negative one: a positive decision always means that
  the acceptable orders hold the quantity, and without 64-bit overflow at a price the
  decision is exact.
\<close>

theorem process_refines_with_decision:
  assumes "reachable cfg b"
  shows "\<exists>d b'. process b command evs =
      Some (b', evs @ snd (spec_process_with (\<lambda>_ _. d) cfg (view b) command)) \<and>
    view b' = fst (spec_process_with (\<lambda>_ _. d) cfg (view b) command) \<and>
    (d \<longrightarrow> spec_fillable cfg (view b) command) \<and>
    (no_wrap_book (view b) \<longrightarrow> d = spec_fillable cfg (view b) command)"
  using book_invar_step [OF reachable_invar [OF assms], of command evs] by metis

theorem process_refines_with_decision_witness:
  "\<exists>b d b'. view b = demo_view \<and> process b (limit_order 4 Buy 9 6 15) [] =
     Some (b', [] @ snd (spec_process_with (\<lambda>_ _. d) demo_config demo_view (limit_order 4 Buy 9 6 15)))"
proof -
  obtain b where "reachable demo_config b" "view b = demo_view" using demo_book by blast
  then show ?thesis using process_refines_with_decision [of demo_config b "limit_order 4 Buy 9 6 15" "[]"] by auto
qed

subsection \<open>Invariants of the book\<close>

text \<open>
  C7.  The book is well formed at all times: both sides are sorted from the best to the worst
  price, every resting order lies on its own side at a valid price with a positive
  quantity, identifiers are unique across the book, every bid is below every ask, and the
  number of resting orders is what the statistics say and within the capacity.
\<close>

theorem book_well_formed:
  assumes "reachable cfg b"
  shows "spec_wf cfg (view b) \<and> st_resting_orders (ob_stats b) = spec_size (view b) \<and>
    spec_size (view b) \<le> maximum_orders cfg"
proof -
  have inv: "simulates b (view b)" "spec_wf cfg (view b)" "ob_config b = cfg"
    using reachable_invar [OF assms] by (auto simp: book_invar_def)
  then obtain q where q: "book_rep b q" "abs_book b q = view b" by (auto simp: simulates_def)
  then show ?thesis using inv simulates_stats(1) [OF q(1)] simulates_size(1) [OF inv(1)] by simp
qed

theorem book_well_formed_witness: "\<exists>b. view b = demo_view \<and> spec_wf demo_config (view b)"
  using demo_book book_well_formed by blast

lemma best_index_view:
  assumes "reachable cfg b"
  shows "(if best_index b s = no_price then 0 else index_price cfg (best_index b s)) =
      (case view_side b s of [] \<Rightarrow> 0 | ro # _ \<Rightarrow> ro_price ro)"
    "best_index b s = no_price \<longleftrightarrow> view_side b s = []"
proof -
  have inv: "simulates b (view b)" "ob_config b = cfg" using reachable_invar [OF assms] by (auto simp: book_invar_def)
  then obtain q where q: "book_rep b q" "abs_book b q = view b" by (auto simp: simulates_def)
  have vs: "view_side b s = abs_side b q s" using q(2) sb_side_abs [of b q s] by simp
  have "(if best_index b s = no_price then 0 else index_price cfg (best_index b s)) =
      (case view_side b s of [] \<Rightarrow> 0 | ro # _ \<Rightarrow> ro_price ro) \<and>
    (best_index b s = no_price \<longleftrightarrow> view_side b s = [])"
  proof (cases "abs_side b q s = []")
    case True
    then show ?thesis using best_index_none [OF q(1) True] vs by simp
  next
    case False
    obtain x zs rest where f: "q s (best_index b s) = x # zs"
      "abs_side b q s = rs b (x # zs) @ concat (map (\<lambda>j. rs b (q s j)) rest)" "best_index b s \<noteq> no_price"
      using best_index_first [OF q(1) False] by metis
    then show ?thesis using vs book_repD(6) [OF q(1), of x s "best_index b s"] inv(2) by simp
  qed
  then show "(if best_index b s = no_price then 0 else index_price cfg (best_index b s)) =
      (case view_side b s of [] \<Rightarrow> 0 | ro # _ \<Rightarrow> ro_price ro)"
    "best_index b s = no_price \<longleftrightarrow> view_side b s = []" by auto
qed

text \<open>
  C6.  The engine never shows a crossed or locked market: whenever both sides hold an order,
  the reported best bid is strictly below the reported best ask.
\<close>

theorem never_crossed:
  assumes "reachable cfg b" "best_index b Buy \<noteq> no_price" "best_index b Sell \<noteq> no_price"
  shows "sint (best_bid b) < sint (best_ask b)"
proof -
  have cfg: "ob_config b = cfg" and wf: "uncrossed (view b)"
    using reachable_invar [OF assms(1)] by (auto simp: book_invar_def spec_wf_def)
  have ne: "view_side b Buy \<noteq> []" "view_side b Sell \<noteq> []"
    using best_index_view(2) [OF assms(1)] assms(2,3) by auto
  then have "best_bid b = ro_price (hd (view_side b Buy))" "best_ask b = ro_price (hd (view_side b Sell))"
    using best_index_view(1) [OF assms(1), of Buy] best_index_view(1) [OF assms(1), of Sell] assms(2,3) cfg
    by (auto simp: best_bid_def best_ask_def neq_Nil_conv)
  moreover have "sb_bids (view b) = view_side b Buy" "sb_asks (view b) = view_side b Sell" by (simp_all add: view_def)
  ultimately show ?thesis using wf ne by (simp add: uncrossed_def)
qed

theorem never_crossed_witness: "\<exists>b. view b = demo_view \<and> sint (best_bid b) < sint (best_ask b)"
proof -
  obtain b where b: "reachable demo_config b" "view b = demo_view" using demo_book by blast
  have "view_side b Buy \<noteq> []" "view_side b Sell \<noteq> []"
    using b(2) sb_side_view [of b Buy] sb_side_view [of b Sell] by (auto simp: demo_view_def sb_side_def simp del: sb_side_view)
  then have "best_index b Buy \<noteq> no_price" "best_index b Sell \<noteq> no_price"
    using best_index_view(2) [OF b(1)] by auto
  then show ?thesis using never_crossed [OF b(1)] b(2) by blast
qed

subsection \<open>Executions\<close>

text \<open>The events of one accepted order, as the specification gives them.\<close>

lemma execute_events:
  fixes command :: Command
  defines "s \<equiv> c_side command"
  obtains es r os where
    "snd (spec_execute cfg A command replacement) =
      (if replacement then [] else [make_event Accepted command 0 0 0 NoReason]) @ es @
      (if r = 0 then []
       else [make_event (if c_order_type command = Limit then Rested else Cancelled) command 0 (c_price command) r NoReason])"
    "takes_front command (effective_limit cfg command) es (sb_side A (opposite s))"
    "trades (snd (spec_execute cfg A command replacement)) = es"
    "unat (c_quantity command) = event_quantity es + unat r"
    "resting_quantity (sb_side A (opposite s)) = event_quantity es + resting_quantity os"
    "sb_side (fst (spec_execute cfg A command replacement)) (opposite s) = os"
    "r = 0 \<or> c_order_type command \<noteq> Limit \<Longrightarrow> sb_side (fst (spec_execute cfg A command replacement)) s = sb_side A s"
    "r \<noteq> 0 \<Longrightarrow> c_order_type command = Limit \<Longrightarrow> sb_side (fst (spec_execute cfg A command replacement)) s =
       spec_insert s \<lparr>ro_order_id = c_order_id command, ro_side = s, ro_price = c_price command,
          ro_quantity = r, ro_priority = c_sequence command\<rparr> (sb_side A s)"
    "spec_fillable cfg A command \<Longrightarrow> r = 0"
proof -
  obtain es r os where sm: "spec_match command (effective_limit cfg command) (c_quantity command)
      (sb_side A (opposite s)) = (es, r, os)"
    and f: "fst (spec_execute cfg A command replacement) =
      (let A1 = sb_set_side A (opposite s) os in
       if r = 0 \<or> c_order_type command \<noteq> Limit then A1
       else sb_set_side A1 s (spec_insert s
         \<lparr>ro_order_id = c_order_id command, ro_side = s, ro_price = c_price command,
          ro_quantity = r, ro_priority = c_sequence command\<rparr> (sb_side A1 s)))"
    and e: "snd (spec_execute cfg A command replacement) =
      (if replacement then [] else [make_event Accepted command 0 0 0 NoReason]) @ es @
      (if r = 0 then []
       else [make_event (if c_order_type command = Limit then Rested else Cancelled) command 0 (c_price command) r NoReason])"
    using spec_execute_cases [of command cfg A replacement] unfolding s_def by metis
  have tr: "trades es = es" using spec_match_trades [OF sm] by (simp add: filter_id_conv)
  show thesis
  proof (rule that [of es r os])
    show "trades (snd (spec_execute cfg A command replacement)) = es" by (simp add: e tr)
    show "r = 0" if "spec_fillable cfg A command"
      using that spec_match_full [OF _ sm] by (simp add: spec_fillable_def s_def)
  qed (use e f spec_match_front [OF sm] spec_match_conserves [OF sm] in \<open>auto simp: Let_def\<close>)
qed

lemma new_result:
  assumes "reachable cfg b" "c_type command = New" "process b command evs = Some (b', evs @ es)"
  obtains
    (rejected) reason where "es = [make_event Rejected command 0 0 0 reason]" "\<And>s. view_side b' s = view_side b s"
  | (executed) A where "es = snd (spec_execute cfg A command False)" "view b' = fst (spec_execute cfg A command False)"
      "\<And>s. sb_side A s = view_side b s" "c_quantity command \<noteq> 0"
      "c_order_type command = FillOrKill \<longrightarrow> spec_fillable cfg A command"
proof -
  obtain d where d: "es = snd (spec_process_with (\<lambda>_ _. d) cfg (view b) command)"
    "view b' = fst (spec_process_with (\<lambda>_ _. d) cfg (view b) command)"
    "d \<Longrightarrow> spec_fillable cfg (view b) command"
    using book_invar_step [OF reachable_invar [OF assms(1)], of command evs] assms(3) by auto
  have fl: "spec_fillable cfg (with_seq (view b) command) command = spec_fillable cfg (view b) command"
    by (simp add: spec_fillable_def)
  from assms(2) show thesis
  proof (cases rule: spec_new_cases [of command "\<lambda>_ _. d" cfg "view b"])
    case (rejected reason)
    show thesis
    proof (rule that(1))
      show "es = [make_event Rejected command 0 0 0 reason]" using d(1) rejected by simp
      show "view_side b' s = view_side b s" for s
        using d(2) rejected sb_side_view [of b' s] with_seq_side [of "view b" command s] by simp
    qed
  next
    case executed
    show thesis
      using that(2) [of "with_seq (view b) command"] d executed fl by simp
  qed
qed

text \<open>
  C4.  Price-time priority.  The trades of a new order name the resting orders of the
  opposite side from the front of the queue, best price first and oldest first within a
  price, each at the resting order's own price and within the aggressor's limit; every
  trade but the last takes the whole resting order.
\<close>

theorem price_time_priority:
  assumes "reachable cfg b" "c_type command = New" "process b command evs = Some (b', evs @ es)"
  shows "takes_front command (effective_limit cfg command) (trades es) (view_side b (opposite (c_side command)))"
  using assms
proof (cases rule: new_result)
  case (executed A)
  then show ?thesis using execute_events [of cfg A command False] by metis
qed simp

theorem price_time_priority_witness:
  "takes_front (limit_order 4 Buy 9 6 15) 6
     [make_event Trade (limit_order 4 Buy 9 6 15) 1 5 10 NoReason,
      make_event Trade (limit_order 4 Buy 9 6 15) 2 6 5 NoReason] (sb_asks demo_view)"
proof -
  obtain b b' where b: "reachable demo_config b" "view b = demo_view"
    "process b (limit_order 4 Buy 9 6 15) [] = Some (b', [] @
       [make_event Accepted (limit_order 4 Buy 9 6 15) 0 0 0 NoReason,
        make_event Trade (limit_order 4 Buy 9 6 15) 1 5 10 NoReason,
        make_event Trade (limit_order 4 Buy 9 6 15) 2 6 5 NoReason])"
    using demo_run [OF demo_aggress] by blast
  have "view_side b Sell = sb_asks demo_view" using arg_cong [OF b(2), of sb_asks] by (simp add: view_def)
  moreover have "effective_limit demo_config (limit_order 4 Buy 9 6 15) = 6" by (simp add: effective_limit_def limit_order_def)
  moreover have "c_type (limit_order 4 Buy 9 6 15) = New" "c_side (limit_order 4 Buy 9 6 15) = Buy"
    by (simp_all add: limit_order_def)
  ultimately show ?thesis using price_time_priority [OF b(1) _ b(3)] by simp
qed

text \<open>
  C5.  Conservation of quantity.  An accepted order is accounted for completely: its quantity is
  the sum of its trades and of what rests or is cancelled, and the opposite side loses
  exactly what was traded.
\<close>

theorem quantity_conserved:
  assumes "reachable cfg b" "c_type command = New" "process b command evs = Some (b', evs @ es)"
    and "\<forall>e \<in> set es. e_type e \<noteq> Rejected"
  shows "unat (c_quantity command) =
      event_quantity (trades es) + event_quantity (filter (\<lambda>e. e_type e \<in> {Rested, Cancelled}) es) \<and>
    resting_quantity (view_side b (opposite (c_side command))) =
      event_quantity (trades es) + resting_quantity (view_side b' (opposite (c_side command)))"
  using assms(1-3)
proof (cases rule: new_result)
  case (rejected reason)
  then show ?thesis using assms(4) by simp
next
  case (executed A)
  obtain ts r os where ts: "es = [make_event Accepted command 0 0 0 NoReason] @ ts @
      (if r = 0 then []
       else [make_event (if c_order_type command = Limit then Rested else Cancelled) command 0 (c_price command) r NoReason])"
    "trades es = ts" "unat (c_quantity command) = event_quantity ts + unat r"
    "resting_quantity (view_side b (opposite (c_side command))) = event_quantity ts + resting_quantity os"
    "view_side b' (opposite (c_side command)) = os"
    using execute_events [of cfg A command False] executed(1,3)
      sb_side_view [of b' "opposite (c_side command)", unfolded executed(2)] by metis
  have "filter (\<lambda>e. e_type e \<in> {Rested, Cancelled}) ts = []"
  proof -
    have "\<forall>e \<in> set ts. e_type e = Trade" unfolding ts(2) [symmetric] by simp
    then show ?thesis by (auto simp: filter_empty_conv)
  qed
  then have "event_quantity (filter (\<lambda>e. e_type e \<in> {Rested, Cancelled}) es) = unat r"
    unfolding ts(1) by (auto simp: unat_eq_0)
  then show ?thesis using ts(2-5) by simp
qed

theorem quantity_conserved_witness:
  "event_quantity [make_event Trade (limit_order 4 Buy 9 6 15) 1 5 10 NoReason,
      make_event Trade (limit_order 4 Buy 9 6 15) 2 6 5 NoReason] = 15"
proof -
  obtain b b' where b: "reachable demo_config b"
    "process b (limit_order 4 Buy 9 6 15) [] = Some (b', [] @
       [make_event Accepted (limit_order 4 Buy 9 6 15) 0 0 0 NoReason,
        make_event Trade (limit_order 4 Buy 9 6 15) 1 5 10 NoReason,
        make_event Trade (limit_order 4 Buy 9 6 15) 2 6 5 NoReason])"
    using demo_run [OF demo_aggress] by blast
  have "c_type (limit_order 4 Buy 9 6 15) = New" "c_quantity (limit_order 4 Buy 9 6 15) = 15"
    by (simp_all add: limit_order_def)
  then show ?thesis using quantity_conserved [OF b(1) _ b(2)] by simp
qed

text \<open>
  C8.  Fill-or-kill is all or nothing, whatever the quantities in the book: either the order is
  rejected, with one event and no change to any queue, or its trades add up to its whole
  quantity and nothing of it rests or is cancelled.
\<close>

theorem fill_or_kill_all_or_nothing:
  assumes "reachable cfg b" "c_type command = New" "c_order_type command = FillOrKill"
    and "process b command evs = Some (b', evs @ es)"
  shows "(\<exists>reason. es = [make_event Rejected command 0 0 0 reason] \<and> (\<forall>s. view_side b' s = view_side b s)) \<or>
    (es = make_event Accepted command 0 0 0 NoReason # trades es \<and>
     event_quantity (trades es) = unat (c_quantity command))"
  using assms(1,2,4)
proof (cases rule: new_result)
  case (rejected reason)
  then show ?thesis by blast
next
  case (executed A)
  have fill: "spec_fillable cfg A command" using executed(5) assms(3) by simp
  obtain ts where "es = [make_event Accepted command 0 0 0 NoReason] @ ts" "trades es = ts"
    "unat (c_quantity command) = event_quantity ts"
  proof (rule execute_events [of cfg A command False])
    fix ts r os
    assume "snd (spec_execute cfg A command False) =
        (if False then [] else [make_event Accepted command 0 0 0 NoReason]) @ ts @
        (if r = 0 then [] else [make_event (if c_order_type command = Limit then Rested else Cancelled) command 0
          (c_price command) r NoReason])"
      "trades (snd (spec_execute cfg A command False)) = ts"
      "unat (c_quantity command) = event_quantity ts + unat r" "spec_fillable cfg A command \<Longrightarrow> r = 0"
    then show thesis using that [of ts] executed(1) fill by simp
  qed
  then show ?thesis by simp
qed

definition fok_order :: "Sequence \<Rightarrow> Side \<Rightarrow> OrderId \<Rightarrow> Price \<Rightarrow> Quantity \<Rightarrow> Command" where
  "fok_order n s k p r = (limit_order n s k p r)\<lparr>c_order_type := FillOrKill\<rparr>"

lemma demo_fok:
  "spec_process demo_config demo_view (fok_order 4 Buy 9 6 31) =
    (demo_view\<lparr>sb_last_sequence := 4\<rparr>, [make_event Rejected (fok_order 4 Buy 9 6 31) 0 0 0 WouldNotFill])"
  "spec_process demo_config demo_view (fok_order 4 Buy 9 6 30) =
    (\<lparr>sb_bids = sb_bids demo_view, sb_asks = [], sb_last_sequence = 4\<rparr>,
     [make_event Accepted (fok_order 4 Buy 9 6 30) 0 0 0 NoReason,
      make_event Trade (fok_order 4 Buy 9 6 30) 1 5 10 NoReason,
      make_event Trade (fok_order 4 Buy 9 6 30) 2 6 20 NoReason])"
  by code_simp+

theorem fill_or_kill_all_or_nothing_witness:
  "event_quantity [make_event Trade (fok_order 4 Buy 9 6 30) 1 5 10 NoReason,
      make_event Trade (fok_order 4 Buy 9 6 30) 2 6 20 NoReason] = 30"
proof -
  obtain b b' where b: "reachable demo_config b"
    "process b (fok_order 4 Buy 9 6 30) [] = Some (b', [] @
       [make_event Accepted (fok_order 4 Buy 9 6 30) 0 0 0 NoReason,
        make_event Trade (fok_order 4 Buy 9 6 30) 1 5 10 NoReason,
        make_event Trade (fok_order 4 Buy 9 6 30) 2 6 20 NoReason])"
    using demo_run [OF demo_fok(2)] by blast
  have "c_type (fok_order 4 Buy 9 6 30) = New" "c_order_type (fok_order 4 Buy 9 6 30) = FillOrKill"
    "c_quantity (fok_order 4 Buy 9 6 30) = 30"
    by (simp_all add: fok_order_def limit_order_def)
  then show ?thesis using fill_or_kill_all_or_nothing [OF b(1) _ _ b(2)] by simp
qed

lemma execute_accepts:
  "\<exists>rest. snd (spec_execute cfg A command False) = make_event Accepted command 0 0 0 NoReason # rest"
  by (rule execute_events [of cfg A command False]) simp

text \<open>
  C9.  A fill-or-kill order that passes the other checks is turned down exactly when the
  orders within its limit hold less than its quantity, as long as no price level holds
  \<open>2 ^ 64\<close> or more.
\<close>

theorem fill_or_kill_exact:
  assumes "reachable cfg b" "no_wrap_book (view b)"
    and "c_type command = New" "c_order_type command = FillOrKill"
    and "c_sequence command = st_last_sequence (ob_stats b) + 1" "c_quantity command \<noteq> 0"
    and "valid_price cfg (c_price command)" "spec_find (view b) (c_order_id command) = None"
    and "process b command evs = Some (b', evs @ es)"
  shows "es = [make_event Rejected command 0 0 0 WouldNotFill] \<longleftrightarrow>
    spec_available (c_side command) (c_price command) (view_side b (opposite (c_side command))) <
      unat (c_quantity command)"
proof -
  obtain d where d: "es = snd (spec_process_with (\<lambda>_ _. d) cfg (view b) command)"
    "d = spec_fillable cfg (view b) command"
    using book_invar_step [OF reachable_invar [OF assms(1)], of command evs] assms(2,9) by auto
  have lim: "effective_limit cfg command = c_price command" using assms(4) by (simp add: effective_limit_def)
  have "spec_process_with (\<lambda>_ _. d) cfg (view b) command =
      (let A = (view b)\<lparr>sb_last_sequence := c_sequence command\<rparr> in
       if d then spec_execute cfg A command False else spec_reject A command WouldNotFill)"
    using assms(3-8) by (simp add: spec_process_with_def spec_submit_def view_def Let_def spec_find_def)
  moreover have "snd (spec_execute cfg A command False) \<noteq> [make_event Rejected command 0 0 0 WouldNotFill]" for A
    using execute_accepts [of cfg A command] by (auto simp: make_event_def)
  ultimately have "es = [make_event Rejected command 0 0 0 WouldNotFill] \<longleftrightarrow> \<not> d"
    using d(1) by (simp add: spec_reject_def Let_def)
  then show ?thesis using d(2) lim by (simp add: spec_fillable_def not_le)
qed

theorem fill_or_kill_exact_witness:
  "spec_available Buy 6 (sb_asks demo_view) < 31"
proof -
  obtain b b' where b: "reachable demo_config b" "view b = demo_view" "process b (fok_order 4 Buy 9 6 31) [] =
      Some (b', [] @ [make_event Rejected (fok_order 4 Buy 9 6 31) 0 0 0 WouldNotFill])"
    using demo_run [OF demo_fok(1)] by blast
  have nw: "no_wrap_book (view b)" unfolding b(2) no_wrap_book_def by (simp add: no_wrapI demo_view_def)
  have seq: "st_last_sequence (ob_stats b) = 3" using arg_cong [OF b(2), of sb_last_sequence] by (simp add: view_def demo_view_def)
  have p: "valid_price demo_config 6" by code_simp
  have vs: "view_side b Sell = sb_asks demo_view" using arg_cong [OF b(2), of sb_asks] by (simp add: view_def)
  show ?thesis
    using fill_or_kill_exact [OF b(1) nw _ _ _ _ _ _ b(3)] seq p vs
    by (simp add: fok_order_def limit_order_def b(2) spec_find_def demo_view_def)
qed

text \<open>
  Market, immediate-or-cancel and fill-or-kill orders never rest: the aggressor's own side
  of the book is untouched and no resting event is emitted.
\<close>

theorem immediate_orders_never_rest:
  assumes "reachable cfg b" "c_type command = New" "c_order_type command \<noteq> Limit"
    and "process b command evs = Some (b', evs @ es)"
  shows "view_side b' (c_side command) = view_side b (c_side command) \<and> (\<forall>e \<in> set es. e_type e \<noteq> Rested)"
  using assms(1,2,4)
proof (cases rule: new_result)
  case (rejected reason)
  then show ?thesis by simp
next
  case (executed A)
  show ?thesis
  proof (rule execute_events [of cfg A command False])
    fix ts r os
    assume e: "snd (spec_execute cfg A command False) =
        (if False then [] else [make_event Accepted command 0 0 0 NoReason]) @ ts @
        (if r = 0 then [] else [make_event (if c_order_type command = Limit then Rested else Cancelled) command 0
          (c_price command) r NoReason])"
      "trades (snd (spec_execute cfg A command False)) = ts"
      "r = 0 \<or> c_order_type command \<noteq> Limit \<Longrightarrow>
        sb_side (fst (spec_execute cfg A command False)) (c_side command) = sb_side A (c_side command)"
    have "\<forall>e \<in> set ts. e_type e = Trade" unfolding e(2) [symmetric] by simp
    then have "\<forall>e \<in> set es. e_type e \<noteq> Rested" using executed(1) e(1) assms(3) by auto
    moreover have "view_side b' (c_side command) = view_side b (c_side command)"
      using e(3) executed(3) assms(3) sb_side_view [of b' "c_side command", unfolded executed(2)] by simp
    ultimately show ?thesis by blast
  qed
qed

theorem immediate_orders_never_rest_witness:
  "\<exists>b b'. view b = demo_view \<and> process b (fok_order 4 Buy 9 6 30) [] = Some (b', [] @
       [make_event Accepted (fok_order 4 Buy 9 6 30) 0 0 0 NoReason,
        make_event Trade (fok_order 4 Buy 9 6 30) 1 5 10 NoReason,
        make_event Trade (fok_order 4 Buy 9 6 30) 2 6 20 NoReason]) \<and>
     view_side b' Buy = view_side b Buy"
proof -
  obtain b b' where b: "reachable demo_config b" "view b = demo_view"
    "process b (fok_order 4 Buy 9 6 30) [] = Some (b', [] @
       [make_event Accepted (fok_order 4 Buy 9 6 30) 0 0 0 NoReason,
        make_event Trade (fok_order 4 Buy 9 6 30) 1 5 10 NoReason,
        make_event Trade (fok_order 4 Buy 9 6 30) 2 6 20 NoReason])"
    using demo_run [OF demo_fok(2)] by blast
  have "c_type (fok_order 4 Buy 9 6 30) = New" "c_order_type (fok_order 4 Buy 9 6 30) \<noteq> Limit"
    "c_side (fok_order 4 Buy 9 6 30) = Buy"
    by (simp_all add: fok_order_def limit_order_def)
  then show ?thesis using immediate_orders_never_rest [OF b(1) _ _ b(3)] b by metis
qed

subsection \<open>Rejections, cancellations and replacements\<close>

lemma execute_no_reject:
  "\<forall>e \<in> set (snd (spec_execute cfg A command replacement)). e_type e \<noteq> Rejected"
proof (rule execute_events [of cfg A command replacement])
  fix ts r os
  assume e: "snd (spec_execute cfg A command replacement) =
      (if replacement then [] else [make_event Accepted command 0 0 0 NoReason]) @ ts @
      (if r = 0 then [] else [make_event (if c_order_type command = Limit then Rested else Cancelled) command 0
        (c_price command) r NoReason])"
    "trades (snd (spec_execute cfg A command replacement)) = ts"
  have "\<forall>e \<in> set ts. e_type e = Trade" unfolding e(2) [symmetric] by simp
  then show ?thesis using e(1) by auto
qed

text \<open>
  Every command of a reachable book is rejected, cancels an order, or executes one, with
  what that means for events and content.
\<close>

lemma process_cases:
  assumes "reachable cfg b" "process b command evs = Some (b', evs @ es)"
  obtains
    (rejected) reason where "es = [make_event Rejected command 0 0 0 reason]" "\<And>s. view_side b' s = view_side b s"
  | (cancelled) ro where "c_type command = Cancel" "spec_find (view b) (c_order_id command) = Some ro"
      "es = [make_event Cancelled command 0 (ro_price ro) (ro_quantity ro) NoReason]"
      "\<And>s. view_side b' s = filter (\<lambda>ro. ro_order_id ro \<noteq> c_order_id command) (view_side b s)"
  | (executed) pre cmd A replacement where "c_type command \<noteq> Cancel"
      "es = pre @ snd (spec_execute cfg A cmd replacement)" "view b' = fst (spec_execute cfg A cmd replacement)"
      "\<forall>e \<in> set pre. e_type e = Replaced" "c_sequence cmd = c_sequence command" "c_order_id cmd = c_order_id command"
      "c_price cmd = c_price command" "c_quantity cmd = c_quantity command"
      "\<And>s. sb_side A s = filter (\<lambda>ro. c_type command = New \<or> ro_order_id ro \<noteq> c_order_id command) (view_side b s)"
proof -
  obtain d where d: "es = snd (spec_process_with (\<lambda>_ _. d) cfg (view b) command)"
    "view b' = fst (spec_process_with (\<lambda>_ _. d) cfg (view b) command)"
    using book_invar_step [OF reachable_invar [OF assms(1)], of command evs] assms(2) by auto
  have inv: "simulates b (view b)" "ob_config b = cfg" using reachable_invar [OF assms(1)] by (auto simp: book_invar_def)
  note side' = sb_side_view [of b', unfolded d(2)] with_seq_side [of "view b" command]
  have rej: thesis if "spec_process_with (\<lambda>_ _. d) cfg (view b) command =
      (with_seq (view b) command, [make_event Rejected command 0 0 0 reason])" for reason
    using rejected [of reason] that d(1) side' by simp
  show thesis
  proof (cases "c_type command")
    case New
    then show thesis
    proof (cases rule: spec_new_cases [of command "\<lambda>_ _. d" cfg "view b"])
      case (rejected reason)
      then show thesis by (rule rej)
    next
      case ex: executed
      show thesis
        by (rule executed [of "[]" "with_seq (view b) command" command False]) (use New ex(1) d in simp_all)
    qed
  next
    case Cancel
    have sp: "spec_process_with (\<lambda>_ _. d) cfg (view b) command =
        (if seq_ok (view b) command then spec_cancel (with_seq (view b) command) command
         else spec_reject (view b) command SequenceGap)"
      using Cancel by (simp add: spec_process_with_def seq_ok_def with_seq_def Let_def)
    have find: "spec_find (with_seq (view b) command) k = spec_find (view b) k" for k
      by (simp add: spec_find_def with_seq_def)
    show thesis
    proof (cases "seq_ok (view b) command \<and> spec_find (view b) (c_order_id command) \<noteq> None")
      case False
      then have "spec_process_with (\<lambda>_ _. d) cfg (view b) command = (with_seq (view b) command,
          [make_event Rejected command 0 0 0 (if seq_ok (view b) command then UnknownOrderId else SequenceGap)])"
        using sp find [of "c_order_id command"]
        by (cases "seq_ok (view b) command") (simp_all add: spec_cancel_def spec_reject_def, simp add: with_seq_def)
      then show thesis by (rule rej)
    next
      case True
      then obtain ro where ro: "spec_find (view b) (c_order_id command) = Some ro" by auto
      show thesis
        using cancelled [OF Cancel ro] True ro sp find d side'
        by (simp add: spec_cancel_def sb_side_remove)
    qed
  next
    case Replace
    have size: "spec_size (view b) \<le> maximum_orders cfg" using simulates_size(1) [OF inv(1)] inv(2) by simp
    have smaller: "\<forall>k. spec_find (view b) k \<noteq> None \<longrightarrow> spec_size (spec_remove (view b) k) < spec_size (view b)"
      using simulates_size(2) [OF inv(1)] by blast
    from Replace size smaller show thesis
    proof (cases rule: spec_replace_cases [where fill = "\<lambda>_ _. d"])
      case (rejected reason)
      then show thesis by (rule rej)
    next
      case ex: (executed ro cmd)
      show thesis
        by (rule executed [of "[make_event Replaced cmd 0 (c_price cmd) (c_quantity cmd) NoReason]"
              "spec_remove (with_seq (view b) command) (c_order_id command)" cmd True])
          (use Replace ex(3,4) d in \<open>simp_all add: sb_side_remove\<close>)
    qed
  qed
qed

text \<open>
  C33.  A rejected command changes nothing: a rejection is the only event of its command, no
  queue on either side changes, and no trade is counted.  In particular a replacement
  that is rejected leaves the original order with its priority.
\<close>

theorem rejection_changes_nothing:
  assumes "reachable cfg b" "process b command evs = Some (b', evs @ es)"
    and "e \<in> set es" "e_type e = Rejected"
  shows "es = [e] \<and> (\<forall>s. view_side b' s = view_side b s) \<and> st_trades (ob_stats b') = st_trades (ob_stats b)"
  using assms(1,2)
proof (cases rule: process_cases)
  case (rejected reason)
  have "ob_stats b' = process_stats (ob_stats b) command es (view b')"
    using book_invar_step [OF reachable_invar [OF assms(1)], of command evs] assms(2)
    by (metis option.inject prod.inject same_append_eq)
  then have "st_trades (ob_stats b') = st_trades (ob_stats b)"
    using rejected(1) by (simp add: process_stats_def stats_step_def)
  then show ?thesis using rejected assms(3) by simp
next
  case (cancelled ro)
  then show ?thesis using assms(3,4) by simp
next
  case (executed pre cmd A replacement)
  then show ?thesis using assms(3,4) execute_no_reject [of cfg A cmd replacement] by auto
qed

theorem rejection_changes_nothing_witness:
  "\<exists>b b'. view b = demo_view \<and> process b (fok_order 4 Buy 9 6 31) [] =
      Some (b', [] @ [make_event Rejected (fok_order 4 Buy 9 6 31) 0 0 0 WouldNotFill]) \<and>
    view_side b' Sell = view_side b Sell"
proof -
  obtain b b' where b: "reachable demo_config b" "view b = demo_view" "process b (fok_order 4 Buy 9 6 31) [] =
      Some (b', [] @ [make_event Rejected (fok_order 4 Buy 9 6 31) 0 0 0 WouldNotFill])"
    using demo_run [OF demo_fok(1)] by blast
  have "view_side b' Sell = view_side b Sell"
    using rejection_changes_nothing [OF b(1,3), of "make_event Rejected (fok_order 4 Buy 9 6 31) 0 0 0 WouldNotFill"]
    by simp
  then show ?thesis using b(2,3) by blast
qed

lemma spec_insert_split:
  assumes "price_sorted s os"
  shows "\<exists>xs ys. spec_insert s ro os = xs @ ro # ys \<and> (\<forall>x \<in> set xs. as_good s (ro_price x) (ro_price ro)) \<and>
      (\<forall>y \<in> set ys. \<not> as_good s (ro_price y) (ro_price ro))"
proof -
  let ?g = "\<lambda>x. as_good s (ro_price x) (ro_price ro)"
  have "\<not> ?g y" if y: "y \<in> set (dropWhile ?g os)" for y
  proof -
    obtain z zs where z: "dropWhile ?g os = z # zs" using y by (cases "dropWhile ?g os") auto
    then have "\<not> ?g z" by (metis hd_dropWhile list.distinct(1) list.sel(1))
    moreover have "sorted_wrt (\<lambda>x y. as_good s (ro_price x) (ro_price y)) (z # zs)"
      using sorted_wrt_drop [OF assms [unfolded price_sorted_def]] unfolding z [symmetric] dropWhile_eq_drop .
    then have "as_good s (ro_price z) (ro_price y)" using y z by auto
    ultimately show ?thesis using as_good_trans by blast
  qed
  moreover have "spec_insert s ro os = takeWhile ?g os @ ro # dropWhile ?g os" by (induction os) auto
  ultimately show ?thesis by (blast dest: set_takeWhileD)
qed

text \<open>
  A resting order queues behind every order of an equal or better price and ahead of
  every worse one, with the remaining quantity and the command's sequence number as its
  priority.  This holds for new orders and for replacements, which therefore lose their
  time priority.
\<close>

theorem rested_behind_equal_prices:
  assumes "reachable cfg b" "process b command evs = Some (b', evs @ es)"
    and "e \<in> set es" "e_type e = Rested"
  shows "\<exists>xs ys. view_side b' (e_aggressor_side e) = xs @ \<lparr>ro_order_id = c_order_id command,
        ro_side = e_aggressor_side e, ro_price = c_price command, ro_quantity = e_quantity e,
        ro_priority = c_sequence command\<rparr> # ys \<and>
    (\<forall>x \<in> set xs. as_good (e_aggressor_side e) (ro_price x) (c_price command)) \<and>
    (\<forall>y \<in> set ys. \<not> as_good (e_aggressor_side e) (ro_price y) (c_price command))"
  using assms(1,2)
proof (cases rule: process_cases)
  case (rejected reason)
  then show ?thesis using assms(3,4) by simp
next
  case (cancelled ro)
  then show ?thesis using assms(3,4) by simp
next
  case (executed pre cmd A replacement)
  have sorted: "price_sorted s (sb_side A s)" for s
    using reachable_invar [OF assms(1)] executed(9) [of s] unfolding book_invar_def spec_wf_def
    by (metis price_sorted_def sb_side_view sorted_wrt_filter)
  show ?thesis
  proof (rule execute_events [of cfg A cmd replacement])
    fix ts r os
    assume x: "snd (spec_execute cfg A cmd replacement) =
        (if replacement then [] else [make_event Accepted cmd 0 0 0 NoReason]) @ ts @
        (if r = 0 then [] else [make_event (if c_order_type cmd = Limit then Rested else Cancelled) cmd 0
          (c_price cmd) r NoReason])"
      "trades (snd (spec_execute cfg A cmd replacement)) = ts"
      "r \<noteq> 0 \<Longrightarrow> c_order_type cmd = Limit \<Longrightarrow> sb_side (fst (spec_execute cfg A cmd replacement)) (c_side cmd) =
         spec_insert (c_side cmd) \<lparr>ro_order_id = c_order_id cmd, ro_side = c_side cmd, ro_price = c_price cmd,
          ro_quantity = r, ro_priority = c_sequence cmd\<rparr> (sb_side A (c_side cmd))"
    have "\<forall>e \<in> set ts. e_type e = Trade" unfolding x(2) [symmetric] by simp
    then have r: "r \<noteq> 0" "c_order_type cmd = Limit" "e = make_event Rested cmd 0 (c_price cmd) r NoReason"
      using assms(3,4) executed(2,4) x(1) by (auto split: if_splits)
    have "view_side b' (c_side cmd) = spec_insert (c_side cmd) \<lparr>ro_order_id = c_order_id command, ro_side = c_side cmd,
        ro_price = c_price command, ro_quantity = r, ro_priority = c_sequence command\<rparr> (sb_side A (c_side cmd))"
      using x(3) [OF r(1,2)] executed(5-7) sb_side_view [of b' "c_side cmd", unfolded executed(3)] by simp
    then show ?thesis
      using spec_insert_split [OF sorted, of "c_side cmd"] r(3) by (metis RestingOrder.select_convs(3) make_event_sel(1,6))
  qed
qed

lemma demo_rest:
  "spec_process demo_config demo_view (limit_order 4 Sell 9 5 3) =
    (\<lparr>sb_bids = sb_bids demo_view,
      sb_asks = [\<lparr>ro_order_id = 1, ro_side = Sell, ro_price = 5, ro_quantity = 10, ro_priority = 1\<rparr>,
        \<lparr>ro_order_id = 9, ro_side = Sell, ro_price = 5, ro_quantity = 3, ro_priority = 4\<rparr>,
        \<lparr>ro_order_id = 2, ro_side = Sell, ro_price = 6, ro_quantity = 20, ro_priority = 2\<rparr>], sb_last_sequence = 4\<rparr>,
     [make_event Accepted (limit_order 4 Sell 9 5 3) 0 0 0 NoReason,
      make_event Rested (limit_order 4 Sell 9 5 3) 0 5 3 NoReason])"
  by code_simp

theorem rested_behind_equal_prices_witness:
  "\<exists>b' xs ys. view_side b' Sell = xs @ \<lparr>ro_order_id = 9, ro_side = Sell, ro_price = 5, ro_quantity = 3,
      ro_priority = 4\<rparr> # ys \<and> length (view_side b' Sell) = 3 \<and>
    (\<forall>x \<in> set xs. as_good Sell (ro_price x) 5) \<and> (\<forall>y \<in> set ys. \<not> as_good Sell (ro_price y) 5)"
proof -
  let ?c = "limit_order 4 Sell 9 5 3"
  obtain b b' where b: "reachable demo_config b"
    "process b ?c [] = Some (b', [] @ [make_event Accepted ?c 0 0 0 NoReason, make_event Rested ?c 0 5 3 NoReason])"
    "view b' = fst (spec_process demo_config demo_view ?c)"
    using demo_run [OF demo_rest] demo_rest by auto
  have "length (view_side b' Sell) = 3" using arg_cong [OF b(3), of sb_asks] by (simp add: view_def demo_rest)
  moreover have "c_order_id ?c = 9" "c_side ?c = Sell" "c_price ?c = 5" "c_sequence ?c = 4"
    by (simp_all add: limit_order_def)
  ultimately show ?thesis
    using rested_behind_equal_prices [OF b(1,2), of "make_event Rested ?c 0 5 3 NoReason"] by auto
qed

text \<open>
  C34.  Cancelling a known order in sequence removes exactly that order, reports its price and its
  open quantity, and leaves all other orders in their places; an unknown identifier is
  rejected as such.
\<close>

theorem cancel_exact:
  assumes "reachable cfg b" "c_type command = Cancel" "c_sequence command = st_last_sequence (ob_stats b) + 1"
  shows "\<exists>b'. process b command evs = Some (b', evs @
      (case spec_find (view b) (c_order_id command) of
         None \<Rightarrow> [make_event Rejected command 0 0 0 UnknownOrderId]
       | Some ro \<Rightarrow> [make_event Cancelled command 0 (ro_price ro) (ro_quantity ro) NoReason])) \<and>
    (\<forall>s. view_side b' s = filter (\<lambda>ro. ro_order_id ro \<noteq> c_order_id command) (view_side b s))"
proof -
  obtain d b' where d: "process b command evs = Some (b', evs @ snd (spec_process_with (\<lambda>_ _. d) cfg (view b) command))"
    "view b' = fst (spec_process_with (\<lambda>_ _. d) cfg (view b) command)"
    using book_invar_step [OF reachable_invar [OF assms(1)], of command evs] by metis
  let ?A1 = "(view b)\<lparr>sb_last_sequence := c_sequence command\<rparr>"
  have sp: "spec_process_with (\<lambda>_ _. d) cfg (view b) command = spec_cancel ?A1 command"
    using assms(2,3) by (simp add: spec_process_with_def view_def Let_def)
  have find: "spec_find ?A1 (c_order_id command) = spec_find (view b) (c_order_id command)" by (simp add: spec_find_def)
  show ?thesis
  proof (cases "spec_find (view b) (c_order_id command)")
    case None
    have "ro_order_id ro \<noteq> c_order_id command" if "ro \<in> set (view_side b s)" for ro s
      using None that unfolding spec_find_None by (cases s) (force simp: view_def)+
    then have "filter (\<lambda>ro. ro_order_id ro \<noteq> c_order_id command) (view_side b s) = view_side b s" for s
      by (simp add: filter_id_conv)
    moreover have "view_side b' s = view_side b s" for s
      using sb_side_view [of b' s] None find unfolding d(2) sp by (simp add: spec_cancel_def spec_reject_def)
    ultimately show ?thesis using d(1) sp None find by (simp add: spec_cancel_def spec_reject_def)
  next
    case (Some ro)
    have "view_side b' s = filter (\<lambda>ro. ro_order_id ro \<noteq> c_order_id command) (view_side b s)" for s
      using sb_side_view [of b' s] Some find unfolding d(2) sp by (simp add: spec_cancel_def sb_side_remove)
    then show ?thesis using d(1) sp Some find by (simp add: spec_cancel_def)
  qed
qed

theorem cancel_exact_witness:
  "\<exists>b b'. process b ((limit_order 4 Buy 2 0 0)\<lparr>c_type := Cancel\<rparr>) [] = Some (b', [] @
      [make_event Cancelled ((limit_order 4 Buy 2 0 0)\<lparr>c_type := Cancel\<rparr>) 0 6 20 NoReason]) \<and>
    view_side b' Sell = [\<lparr>ro_order_id = 1, ro_side = Sell, ro_price = 5, ro_quantity = 10, ro_priority = 1\<rparr>]"
proof -
  let ?c = "(limit_order 4 Buy 2 0 0)\<lparr>c_type := Cancel\<rparr>"
  obtain b where b: "reachable demo_config b" "view b = demo_view" using demo_book by blast
  have seq: "c_sequence ?c = st_last_sequence (ob_stats b) + 1"
    using arg_cong [OF b(2), of sb_last_sequence] by (simp add: view_def demo_view_def limit_order_def)
  have vs: "view_side b Sell = sb_asks demo_view" using arg_cong [OF b(2), of sb_asks] by (simp add: view_def)
  obtain b' where "process b ?c [] = Some (b', [] @
      (case spec_find (view b) (c_order_id ?c) of
         None \<Rightarrow> [make_event Rejected ?c 0 0 0 UnknownOrderId]
       | Some ro \<Rightarrow> [make_event Cancelled ?c 0 (ro_price ro) (ro_quantity ro) NoReason]))"
    "view_side b' Sell = filter (\<lambda>ro. ro_order_id ro \<noteq> c_order_id ?c) (view_side b Sell)"
    using cancel_exact [OF b(1) _ seq, of "[]"] by auto
  moreover have "spec_find demo_view 2 =
      Some \<lparr>ro_order_id = 2, ro_side = Sell, ro_price = 6, ro_quantity = 20, ro_priority = 2\<rparr>"
    by (simp add: demo_view_def spec_find_def)
  moreover have "c_order_id ?c = 2" by (simp add: limit_order_def)
  ultimately show ?thesis using b(2) vs by (intro exI [of _ b] exI [of _ b']) (simp add: demo_view_def)
qed

text \<open>
  The statistics count what happened: the trade and rejection counters grow by the number of
  such events (modulo \<open>2 ^ 64\<close>), the command counter by one for every command in
  sequence, and the resting counter is the number of orders in the book.
\<close>

theorem statistics_count_events:
  assumes "reachable cfg b" "process b command evs = Some (b', evs @ es)"
  shows "st_trades (ob_stats b') = st_trades (ob_stats b) + of_nat (count_events Trade es) \<and>
    st_rejected (ob_stats b') = st_rejected (ob_stats b) + of_nat (count_events Rejected es) \<and>
    st_commands (ob_stats b') = st_commands (ob_stats b) +
      (if c_sequence command = st_last_sequence (ob_stats b) + 1 then 1 else 0) \<and>
    st_last_sequence (ob_stats b') =
      (if c_sequence command = st_last_sequence (ob_stats b) + 1 then c_sequence command
       else st_last_sequence (ob_stats b)) \<and>
    st_resting_orders (ob_stats b') = length (view_side b' Buy) + length (view_side b' Sell)"
proof -
  obtain d where d: "es = snd (spec_process_with (\<lambda>_ _. d) cfg (view b) command)"
    "view b' = fst (spec_process_with (\<lambda>_ _. d) cfg (view b) command)"
    "ob_stats b' = process_stats (ob_stats b) command es (view b')"
    using book_invar_step [OF reachable_invar [OF assms(1)], of command evs] assms(2) by auto
  have "sb_last_sequence (view b') = (if c_sequence command = sb_last_sequence (view b) + 1
      then c_sequence command else sb_last_sequence (view b))"
    unfolding d(2) by (rule spec_process_last)
  then show ?thesis
    by (simp add: d(3) process_stats_def stats_step_def spec_size_def) (simp add: view_def)
qed

theorem statistics_count_events_witness:
  "\<exists>b (b' :: OrderBook). view b = demo_view \<and> st_trades (ob_stats b') = st_trades (ob_stats b) + 2 \<and>
    st_resting_orders (ob_stats b') = 2"
proof -
  let ?c = "limit_order 4 Buy 9 6 15"
  obtain b b' where b: "reachable demo_config b" "view b = demo_view"
    "process b ?c [] = Some (b', [] @ [make_event Accepted ?c 0 0 0 NoReason,
        make_event Trade ?c 1 5 10 NoReason, make_event Trade ?c 2 6 5 NoReason])"
    "view b' = \<lparr>sb_bids = sb_bids demo_view,
      sb_asks = [\<lparr>ro_order_id = 2, ro_side = Sell, ro_price = 6, ro_quantity = 15, ro_priority = 2\<rparr>],
      sb_last_sequence = 4\<rparr>"
    using demo_run [OF demo_aggress] by blast
  have "length (view_side b' Buy) = 1" "length (view_side b' Sell) = 1"
    using arg_cong [OF b(4), of sb_asks] arg_cong [OF b(4), of sb_bids] by (simp_all add: view_def demo_view_def)
  then have "st_trades (ob_stats b') = st_trades (ob_stats b) + 2 \<and> st_resting_orders (ob_stats b') = 2"
    using statistics_count_events [OF b(1,3)] by simp
  then show ?thesis using b(2) by blast
qed

subsection \<open>Queries\<close>

lemma quantity_at_view:
  assumes "reachable cfg b"
  shows "quantity_at b s p = Some (of_nat (level_quantity (view_side b s) p))"
proof -
  have inv: "simulates b (view b)" "spec_wf cfg (view b)" "ob_config b = cfg"
    using reachable_invar [OF assms] by (auto simp: book_invar_def)
  obtain q where q: "book_rep b q" "abs_book b q = view b" using inv(1) by (auto simp: simulates_def)
  have vs: "view_side b s = abs_side b q s" using q(2) sb_side_abs [of b q s] by simp
  show ?thesis
  proof (cases "valid_price cfg p")
    case False
    have "\<forall>ro \<in> set (view_side b s). ro_price ro \<noteq> p"
      using inv(2) False sb_side_view [of b s] unfolding spec_wf_def order_ok_def by metis
    then have "filter (\<lambda>ro. ro_price ro = p) (view_side b s) = []" by (simp add: filter_empty_conv)
    then show ?thesis using False inv(3) by (simp add: quantity_at_def level_quantity_def)
  next
    case True
    let ?i = "price_index cfg p"
    have cnt: "checked_price_count cfg = Inr (ob_price_count b)" using book_repD(1) [OF q(1)] inv(3) by simp
    have i: "?i < ob_price_count b" "index_price cfg ?i = p"
      using price_index_less [OF cnt True] index_price_price_index [OF cnt True] .
    have "level_quantity (view_side b s) p = queue_quantity b (q s ?i)"
      using filter_level [OF q(1) i(1), of s] inv(3) i(2) vs
      by (simp add: level_quantity_def queue_quantity_def rs_def comp_def)
    then have "pl_total_quantity (levels b s ! ?i) = of_nat (level_quantity (view_side b s) p)"
      using level_total [OF q(1) i(1), of s] by (intro unsigned_word_eqI [where ?'a = nat]) (simp add: unsigned_of_nat take_bit_eq_mod)
    then show ?thesis using True inv(3) i(1) book_repD(2) [OF q(1), of s] by (simp add: quantity_at_def vec_simps)
  qed
qed

text \<open>
  The read interface reports the content of the book: the best bid and ask are the prices of
  the first orders of their sides (0 on an empty side), and the quantity at a price is the
  sum of the orders resting there, modulo \<open>2 ^ 64\<close>, and 0 at an invalid price.
\<close>

theorem queries_report_book:
  assumes "reachable cfg b"
  shows "best_bid b = (case view_side b Buy of [] \<Rightarrow> 0 | ro # _ \<Rightarrow> ro_price ro) \<and>
    best_ask b = (case view_side b Sell of [] \<Rightarrow> 0 | ro # _ \<Rightarrow> ro_price ro) \<and>
    quantity_at b s p = Some (of_nat (level_quantity (view_side b s) p))"
  using quantity_at_view [OF assms] best_index_view(1) [OF assms, of Buy] best_index_view(1) [OF assms, of Sell]
    reachable_invar [OF assms]
  by (simp only: best_bid_def best_ask_def Let_def simp_thms book_invar_def)

theorem queries_report_book_witness:
  "\<exists>b. view b = demo_view \<and> best_bid b = 4 \<and> best_ask b = 5 \<and> quantity_at b Sell 6 = Some 20"
proof -
  obtain b where b: "reachable demo_config b" "view b = demo_view" using demo_book by blast
  have vs: "view_side b Sell = sb_asks demo_view" "view_side b Buy = sb_bids demo_view"
    using arg_cong [OF b(2), of sb_asks] arg_cong [OF b(2), of sb_bids] by (simp_all add: view_def)
  show ?thesis
    using queries_report_book [OF b(1), of Sell 6] b(2) vs
    by (intro exI [of _ b]) (simp add: demo_view_def level_quantity_def)
qed

end
