(* ===== verification/Engine_Runs.thy ===== *)
theory Engine_Runs
  imports Engine_Theorems
begin

text \<open>
  The constructor, whole runs of commands from a new book, and the wrap-around of the level
  aggregates.
\<close>

subsection \<open>Construction\<close>

lemma checked_price_count_iff:
  "(\<exists>n. checked_price_count cfg = Inr n) \<longleftrightarrow>
    0 < sint (tick_size cfg) \<and> sint (minimum_price cfg) \<le> sint (maximum_price cfg) \<and>
    sint (maximum_price cfg) - sint (minimum_price cfg) < 2 ^ 63 \<and>
    sint (tick_size cfg) dvd sint (maximum_price cfg) - sint (minimum_price cfg) \<and>
    0 < maximum_orders cfg \<and> maximum_orders cfg < 2 ^ 32" (is "_ \<longleftrightarrow> ?ok")
proof
  assume ?ok
  let ?lo = "sint (minimum_price cfg)" and ?hi = "sint (maximum_price cfg)"
  have lo: "- (2 ^ 63) \<le> ?lo" using sint_i64_range [of "minimum_price cfg"] by (simp add: i64_range_def)
  have "\<not> (?lo < 0 \<and> sint (i64_max + minimum_price cfg) < ?hi)"
  proof
    assume a: "?lo < 0 \<and> sint (i64_max + minimum_price cfg) < ?hi"
    have "sint i64_max = 2 ^ 63 - 1" by (simp add: i64_max_def)
    then have "sint (i64_max + minimum_price cfg) = 2 ^ 63 - 1 + ?lo"
      using a lo sint_add_i64 [of i64_max "minimum_price cfg"] by (simp add: i64_range_def)
    then show False using a \<open>?ok\<close> by linarith
  qed
  moreover have "sint (maximum_price cfg - minimum_price cfg) = ?hi - ?lo"
    using \<open>?ok\<close> by (intro sint_diff_i64) (simp add: i64_range_def)
  then have "i64_mod (maximum_price cfg - minimum_price cfg) (tick_size cfg) = 0"
    using \<open>?ok\<close> by (subst i64_mod_eq_0) simp_all
  moreover have "\<not> unat x > size_max" for x :: i64
    using unsigned_less [of x, where ?'a = nat] by simp
  ultimately show "\<exists>n. checked_price_count cfg = Inr n"
    using \<open>?ok\<close> by (simp add: checked_price_count_def Let_def)
qed (use checked_price_countD in blast)

lemma checked_price_count_error:
  "checked_price_count cfg = Inl e \<Longrightarrow> e = InvalidArgument"
  by (auto simp: checked_price_count_def Let_def split: if_splits)

text \<open>
  C35.  The constructor accepts exactly the configurations that describe a ladder: a positive
  tick that divides the price range, a range that does not overflow a signed 64-bit integer,
  and between 1 and \<open>2 ^ 32 - 1\<close> orders; all others raise
  \<^verbatim>\<open>std::invalid_argument\<close>.  A new book is empty and expects command number 1.
\<close>

theorem constructor_validates:
  "order_book cfg =
    (if 0 < sint (tick_size cfg) \<and> sint (minimum_price cfg) \<le> sint (maximum_price cfg) \<and>
       sint (maximum_price cfg) - sint (minimum_price cfg) < 2 ^ 63 \<and>
       sint (tick_size cfg) dvd sint (maximum_price cfg) - sint (minimum_price cfg) \<and>
       0 < maximum_orders cfg \<and> maximum_orders cfg < 2 ^ 32
     then Inr (projr (order_book cfg)) else Inl InvalidArgument) \<and>
   (\<forall>b. order_book cfg = Inr b \<longrightarrow>
     view b = \<lparr>sb_bids = [], sb_asks = [], sb_last_sequence = 0\<rparr> \<and>
     int (ob_price_count b) = (sint (maximum_price cfg) - sint (minimum_price cfg)) div sint (tick_size cfg) + 1)"
  (is "order_book cfg = (if ?ok then _ else _) \<and> _")
proof (intro conjI allI impI)
  show "order_book cfg = (if ?ok then Inr (projr (order_book cfg)) else Inl InvalidArgument)"
  proof (cases "checked_price_count cfg")
    case (Inl e)
    then have "\<not> ?ok" using checked_price_count_iff [of cfg] by auto
    moreover have "order_book cfg = Inl InvalidArgument"
      using Inl checked_price_count_error [OF Inl] by (simp add: order_book_def)
    ultimately show ?thesis by argo
  next
    case (Inr n)
    then have ?ok using checked_price_count_iff [of cfg] by auto
    moreover obtain b where "order_book cfg = Inr b" using order_book_accepts [OF Inr] by blast
    ultimately show ?thesis by simp
  qed
next
  fix b assume b: "order_book cfg = Inr b"
  show "view b = \<lparr>sb_bids = [], sb_asks = [], sb_last_sequence = 0\<rparr>"
    using simulates_view [OF order_book_simulates(1) [OF b]] by simp
  obtain n where "checked_price_count cfg = Inr n" "ob_price_count b = n"
    using b by (auto simp: order_book_def split: sum.splits)
  then show "int (ob_price_count b) = (sint (maximum_price cfg) - sint (minimum_price cfg)) div sint (tick_size cfg) + 1"
    using checked_price_countD(5) by blast
qed

definition tiny_config :: BookConfig where
  "tiny_config = \<lparr>minimum_price = 1, maximum_price = 1, tick_size = 1, maximum_orders = 2\<rparr>"

theorem constructor_validates_witness:
  "(\<exists>b. order_book tiny_config = Inr b \<and> ob_price_count b = 1) \<and>
   order_book (tiny_config\<lparr>tick_size := 0\<rparr>) = Inl InvalidArgument"
proof -
  have "order_book tiny_config = Inr (projr (order_book tiny_config))"
    using conjunct1 [OF constructor_validates [of tiny_config]] by (simp add: tiny_config_def)
  then have "order_book tiny_config = Inr (projr (order_book tiny_config)) \<and> ob_price_count (projr (order_book tiny_config)) = 1"
    using spec [OF conjunct2 [OF constructor_validates [of tiny_config]], of "projr (order_book tiny_config)"]
    by (simp add: tiny_config_def)
  moreover have "order_book (tiny_config\<lparr>tick_size := 0\<rparr>) = Inl InvalidArgument"
    using conjunct1 [OF constructor_validates [of "tiny_config\<lparr>tick_size := 0\<rparr>"]] by (simp add: tiny_config_def)
  ultimately show ?thesis by blast
qed

subsection \<open>Sequences of commands\<close>

text \<open>
  The loop around \<open>process\<close> in the replay tool, the benchmark and the gateway's engine thread:
  every command in turn, the events of each appended.
\<close>

fun process_all :: "OrderBook \<Rightarrow> Command list \<Rightarrow> Event list \<Rightarrow> (OrderBook \<times> Event list) option" where
  "process_all b [] evs = Some (b, evs)"
| "process_all b (command # rest) evs =
     do { (b1, evs1) \<leftarrow> process b command evs; process_all b1 rest evs1 }"

lemma process_all_reachable:
  "reachable cfg b \<Longrightarrow> \<exists>b' es. process_all b cs evs = Some (b', evs @ es) \<and> reachable cfg b'"
proof (induction cs arbitrary: b evs)
  case (Cons c cs)
  obtain d b1 where b1: "process b c evs = Some (b1, evs @ snd (spec_process_with (\<lambda>_ _. d) cfg (view b) c))"
    using book_invar_step [OF reachable_invar [OF Cons.prems], of c evs] by metis
  obtain b' es where "process_all b1 cs (evs @ snd (spec_process_with (\<lambda>_ _. d) cfg (view b) c)) =
      Some (b', (evs @ snd (spec_process_with (\<lambda>_ _. d) cfg (view b) c)) @ es)" "reachable cfg b'"
    using Cons.IH [OF reachable.step [OF Cons.prems b1]] by blast
  then show ?case using b1 by simp
qed simp

lemma process_all_timed:
  assumes "reachable cfg b" "timed (view b)" "unat (sb_last_sequence (view b)) + length cs < 2 ^ 64"
    "process_all b cs evs = Some (b', evs')"
  shows "timed (view b')"
  using assms
proof (induction cs arbitrary: b evs)
  case (Cons c cs)
  obtain d b1 evs1 where b1: "process b c evs = Some (b1, evs1)"
    "view b1 = fst (spec_process_with (\<lambda>_ _. d) cfg (view b) c)"
    using book_invar_step [OF reachable_invar [OF Cons.prems(1)], of c evs] by metis
  have lt: "unat (sb_last_sequence (view b)) + 1 < 2 ^ 64" using Cons.prems(3) by simp
  then have nz: "sb_last_sequence (view b) + 1 \<noteq> 0"
    by (auto simp: eq_neg_iff_add_eq_0 [symmetric] unsigned_minus_1_eq_mask mask_eq_exp_minus_1)
  then have "unat (sb_last_sequence (view b1)) \<le> Suc (unat (sb_last_sequence (view b)))"
    using unatSuc [of "sb_last_sequence (view b)"] by (simp add: b1(2) spec_process_last add.commute)
  then have "unat (sb_last_sequence (view b1)) + length cs < 2 ^ 64" using Cons.prems(3) by simp
  then show ?case
    using Cons.IH [OF reachable.step [OF Cons.prems(1) b1(1)], of evs1] Cons.prems(4) b1(1)
      spec_process_timed [OF Cons.prems(2) nz, of "\<lambda>_ _. d" cfg c] unfolding b1(2) [symmetric] by simp
qed simp
text \<open>
  C10.  Time priority over a whole run.  After any sequence of fewer than \<open>2 ^ 64\<close> commands both
  sides of the book are ordered by price, and orders at equal prices by the sequence numbers
  of the commands that placed them; no two resting orders share a sequence number.
\<close>

theorem time_priority:
  assumes "order_book cfg = Inr b" "length cs < 2 ^ 64" "process_all b cs evs = Some (b', evs')"
  shows "sorted_wrt (\<lambda>x y. as_good s (ro_price x) (ro_price y) \<and>
      (ro_price x = ro_price y \<longrightarrow> ro_priority x < ro_priority y)) (view_side b' s) \<and>
    distinct (map ro_priority (view_side b' Buy @ view_side b' Sell))"
proof -
  have v: "view b = \<lparr>sb_bids = [], sb_asks = [], sb_last_sequence = 0\<rparr>"
    using simulates_view [OF order_book_simulates(1) [OF assms(1)]] by simp
  have "timed (view b')"
    by (rule process_all_timed [OF reachable.start [OF assms(1)] _ _ assms(3)])
      (use assms(2) in \<open>simp_all add: v timed_def sb_side_def\<close>)
  then show ?thesis unfolding timed_def before_def [abs_def] sb_side_view by (simp add: view_def)
qed

lemma resting_quantity_filter: "resting_quantity (filter P os) \<le> resting_quantity os"
  by (induction os) simp_all

lemma resting_quantity_insert: "resting_quantity (spec_insert s ro os) = unat (ro_quantity ro) + resting_quantity os"
  by (induction os) simp_all

lemma resting_grows:
  assumes "reachable cfg b" "process b command evs = Some (b', evs @ es)"
  shows "resting_quantity (view_side b' Buy) + resting_quantity (view_side b' Sell) \<le>
    resting_quantity (view_side b Buy) + resting_quantity (view_side b Sell) + unat (c_quantity command)"
  using assms
proof (cases rule: process_cases)
  case (rejected reason)
  then show ?thesis by simp
next
  case (cancelled ro)
  then show ?thesis
    using resting_quantity_filter by (simp add: add_mono le_SucI trans_le_add1)
next
  case (executed pre cmd A replacement)
  let ?s = "c_side cmd"
  have sides: "resting_quantity (view_side x Buy) + resting_quantity (view_side x Sell) =
      resting_quantity (view_side x ?s) + resting_quantity (view_side x (opposite ?s))" for x
    by (cases ?s) simp_all
  have le: "resting_quantity (sb_side A s) \<le> resting_quantity (view_side b s)" for s
    unfolding executed(9) by (rule resting_quantity_filter)
  obtain ts r os where e: "unat (c_quantity cmd) = event_quantity ts + unat r"
    "resting_quantity (sb_side A (opposite ?s)) = event_quantity ts + resting_quantity os"
    "sb_side (fst (spec_execute cfg A cmd replacement)) (opposite ?s) = os"
    "r = 0 \<or> c_order_type cmd \<noteq> Limit \<Longrightarrow> sb_side (fst (spec_execute cfg A cmd replacement)) ?s = sb_side A ?s"
    "r \<noteq> 0 \<Longrightarrow> c_order_type cmd = Limit \<Longrightarrow> sb_side (fst (spec_execute cfg A cmd replacement)) ?s =
      spec_insert ?s \<lparr>ro_order_id = c_order_id cmd, ro_side = ?s, ro_price = c_price cmd,
        ro_quantity = r, ro_priority = c_sequence cmd\<rparr> (sb_side A ?s)"
    by (rule execute_events [of cfg A cmd replacement]) blast
  have "resting_quantity (sb_side (fst (spec_execute cfg A cmd replacement)) ?s) \<le> resting_quantity (sb_side A ?s) + unat r"
    using e(4,5) by (cases "r = 0 \<or> c_order_type cmd \<noteq> Limit") (simp_all add: resting_quantity_insert)
  moreover have "view_side b' s = sb_side (fst (spec_execute cfg A cmd replacement)) s" for s
    unfolding executed(3) [symmetric] by simp
  ultimately show ?thesis
    unfolding sides using le [of ?s] le [of "opposite ?s"] e(1,2,3) executed(8) by simp
qed

fun spec_run :: "BookConfig \<Rightarrow> SpecBook \<Rightarrow> Command list \<Rightarrow> SpecBook \<times> Event list" where
  "spec_run cfg A [] = (A, [])"
| "spec_run cfg A (command # rest) =
     (case spec_process cfg A command of (A1, es) \<Rightarrow>
      case spec_run cfg A1 rest of (A2, es2) \<Rightarrow> (A2, es @ es2))"

lemma process_all_refines:
  assumes "reachable cfg b"
    "resting_quantity (view_side b Buy) + resting_quantity (view_side b Sell) + (\<Sum>c\<leftarrow>cs. unat (c_quantity c)) < 2 ^ 64"
  shows "\<exists>b'. process_all b cs evs = Some (b', evs @ snd (spec_run cfg (view b) cs)) \<and>
    reachable cfg b' \<and> view b' = fst (spec_run cfg (view b) cs)"
  using assms
proof (induction cs arbitrary: b evs)
  case (Cons c cs)
  obtain A1 es where sp: "spec_process cfg (view b) c = (A1, es)" by fastforce
  have "resting_quantity (sb_bids (view b)) < 2 ^ 64" "resting_quantity (sb_asks (view b)) < 2 ^ 64"
    using Cons.prems(2) by (simp_all add: view_def)
  then obtain b1 where b1: "process b c evs = Some (b1, evs @ es)" "reachable cfg b1" "view b1 = A1"
    using run_spec_step [OF Cons.prems(1) refl sp, of evs] by blast
  have "resting_quantity (view_side b1 Buy) + resting_quantity (view_side b1 Sell) + (\<Sum>c\<leftarrow>cs. unat (c_quantity c)) < 2 ^ 64"
    using resting_grows [OF Cons.prems(1) b1(1)] Cons.prems(2) by simp
  then show ?case using Cons.IH [OF b1(2), of "evs @ es"] b1(1,3) sp by (auto split: prod.split)
qed simp

text \<open>
  C1.  Runs refine the specification.  From a new book, any sequence of commands whose
  quantities sum to less than \<open>2 ^ 64\<close> is processed to the end, and the engine emits exactly
  the events of the reference semantics and ends in the book of the reference semantics.
\<close>

theorem run_refines_spec:
  assumes "order_book cfg = Inr b" "(\<Sum>c\<leftarrow>cs. unat (c_quantity c)) < 2 ^ 64"
  shows "\<exists>b'. process_all b cs [] =
      Some (b', snd (spec_run cfg \<lparr>sb_bids = [], sb_asks = [], sb_last_sequence = 0\<rparr> cs)) \<and>
    view b' = fst (spec_run cfg \<lparr>sb_bids = [], sb_asks = [], sb_last_sequence = 0\<rparr> cs)"
proof -
  have v: "view b = \<lparr>sb_bids = [], sb_asks = [], sb_last_sequence = 0\<rparr>"
    using simulates_view [OF order_book_simulates(1) [OF assms(1)]] by simp
  then have "view_side b Buy = []" "view_side b Sell = []" by (simp_all add: view_def)
  then show ?thesis
    using process_all_refines [OF reachable.start [OF assms(1)], of cs "[]"] assms(2) unfolding v by auto
qed

definition demo_commands :: "Command list" where
  "demo_commands = [limit_order 1 Sell 1 1 3, limit_order 2 Sell 2 1 4, limit_order 3 Buy 3 1 5]"

lemma demo_commands_run:
  "spec_run tiny_config \<lparr>sb_bids = [], sb_asks = [], sb_last_sequence = 0\<rparr> demo_commands =
    (\<lparr>sb_bids = [], sb_asks = [\<lparr>ro_order_id = 2, ro_side = Sell, ro_price = 1, ro_quantity = 2, ro_priority = 2\<rparr>],
      sb_last_sequence = 3\<rparr>,
     [make_event Accepted (limit_order 1 Sell 1 1 3) 0 0 0 NoReason, make_event Rested (limit_order 1 Sell 1 1 3) 0 1 3 NoReason,
      make_event Accepted (limit_order 2 Sell 2 1 4) 0 0 0 NoReason, make_event Rested (limit_order 2 Sell 2 1 4) 0 1 4 NoReason,
      make_event Accepted (limit_order 3 Buy 3 1 5) 0 0 0 NoReason, make_event Trade (limit_order 3 Buy 3 1 5) 1 1 3 NoReason,
      make_event Trade (limit_order 3 Buy 3 1 5) 2 1 2 NoReason])"
  by code_simp

lemma tiny_book: "\<exists>b. order_book tiny_config = Inr b"
  using order_book_accepts checked_price_count_iff [of tiny_config] by (auto simp: tiny_config_def)

theorem run_refines_spec_witness:
  "\<exists>b b'. order_book tiny_config = Inr b \<and>
    process_all b demo_commands [] = Some (b',
     [make_event Accepted (limit_order 1 Sell 1 1 3) 0 0 0 NoReason, make_event Rested (limit_order 1 Sell 1 1 3) 0 1 3 NoReason,
      make_event Accepted (limit_order 2 Sell 2 1 4) 0 0 0 NoReason, make_event Rested (limit_order 2 Sell 2 1 4) 0 1 4 NoReason,
      make_event Accepted (limit_order 3 Buy 3 1 5) 0 0 0 NoReason, make_event Trade (limit_order 3 Buy 3 1 5) 1 1 3 NoReason,
      make_event Trade (limit_order 3 Buy 3 1 5) 2 1 2 NoReason])"
proof -
  obtain b where b: "order_book tiny_config = Inr b" using tiny_book by blast
  have "(\<Sum>c\<leftarrow>demo_commands. unat (c_quantity c)) < 2 ^ 64" by (simp add: demo_commands_def limit_order_def)
  then show ?thesis using run_refines_spec [OF b, of demo_commands] b unfolding demo_commands_run by auto
qed

theorem time_priority_witness:
  "\<exists>b b' evs'. order_book tiny_config = Inr b \<and> process_all b (take 2 demo_commands) [] = Some (b', evs') \<and>
    map ro_priority (view_side b' Sell) = [1, 2] \<and>
    sorted_wrt (\<lambda>x y. as_good Sell (ro_price x) (ro_price y) \<and>
      (ro_price x = ro_price y \<longrightarrow> ro_priority x < ro_priority y)) (view_side b' Sell)"
proof -
  let ?e = "\<lparr>sb_bids = [], sb_asks = [], sb_last_sequence = 0\<rparr>"
  obtain b where b: "order_book tiny_config = Inr b" using tiny_book by blast
  have v: "view b = ?e" using simulates_view [OF order_book_simulates(1) [OF b]] by simp
  then have "view_side b Buy = []" "view_side b Sell = []" by (simp_all add: view_def)
  then obtain b' where b': "process_all b (take 2 demo_commands) [] = Some (b', [] @ snd (spec_run tiny_config ?e (take 2 demo_commands)))"
    "view b' = fst (spec_run tiny_config ?e (take 2 demo_commands))"
    using process_all_refines [OF reachable.start [OF b], of "take 2 demo_commands" "[]"] unfolding v
    by (auto simp: demo_commands_def limit_order_def)
  have "map ro_priority (sb_asks (fst (spec_run tiny_config ?e (take 2 demo_commands)))) = [1, 2]" by code_simp
  then have "map ro_priority (view_side b' Sell) = [1, 2]" using arg_cong [OF b'(2), of sb_asks] by (simp add: view_def)
  then show ?thesis
    using b b'(1) conjunct1 [OF time_priority [OF b _ b'(1), of Sell]]
    by (intro exI conjI) (simp_all add: demo_commands_def)
qed

lemma tiny_price [simp]: "valid_price tiny_config 1" "price_index tiny_config 1 = 0"
  by (simp_all add: valid_price_def price_index_def tiny_config_def i64_mod_def i64_div_def)

lemmas spec_eval = spec_process_def spec_process_with_def spec_submit_def spec_execute_def spec_find_def
  spec_size_def spec_fillable_def spec_available_def effective_limit_def sb_side_def sb_set_side_def
  spec_crosses_def as_good_def limit_order_def fok_order_def tiny_config_def [THEN arg_cong, of maximum_orders]

lemma wrapped_book:
  "\<exists>b. reachable tiny_config b \<and> view b = \<lparr>sb_bids = [],
     sb_asks = [\<lparr>ro_order_id = 1, ro_side = Sell, ro_price = 1, ro_quantity = 2 ^ 63, ro_priority = 1\<rparr>,
                \<lparr>ro_order_id = 2, ro_side = Sell, ro_price = 1, ro_quantity = 2 ^ 63, ro_priority = 2\<rparr>],
     sb_last_sequence = 2\<rparr>" (is "\<exists>b. _ \<and> view b = ?A2")
proof -
  let ?A0 = "\<lparr>sb_bids = [], sb_asks = [], sb_last_sequence = 0\<rparr>"
  let ?A1 = "\<lparr>sb_bids = [], sb_asks = [\<lparr>ro_order_id = 1, ro_side = Sell, ro_price = 1, ro_quantity = 2 ^ 63,
    ro_priority = 1\<rparr>], sb_last_sequence = 1\<rparr>"
  have step: "\<exists>b'. reachable tiny_config b' \<and> view b' = A'"
    if "reachable tiny_config b" "view b = A" "fst (spec_process tiny_config A c) = A'"
      "resting_quantity (sb_bids A) < 2 ^ 64" "resting_quantity (sb_asks A) < 2 ^ 64" for b A A' c
    using run_spec_step [OF that(1,2) _ that(4,5), of c A' "snd (spec_process tiny_config A c)" "[]"] that(3)
    by (metis prod.collapse)
  obtain b where b: "order_book tiny_config = Inr b" using tiny_book by blast
  have "fst (spec_process tiny_config ?A0 (limit_order 1 Sell 1 1 (2 ^ 63))) = ?A1" by (simp add: spec_eval)
  from step [OF reachable.start [OF b] simulates_view [OF order_book_simulates(1) [OF b], symmetric] this]
  obtain b1 where b1: "reachable tiny_config b1" "view b1 = ?A1" by auto
  have nx: "fst (spec_process tiny_config ?A1 (limit_order 2 Sell 2 1 (2 ^ 63))) = ?A2" by (simp add: spec_eval)
  have "resting_quantity (sb_bids ?A1) < 2 ^ 64" "resting_quantity (sb_asks ?A1) < 2 ^ 64" by simp_all
  then show ?thesis by (rule step [OF b1 nx])
qed

lemma single_level_fill:
  assumes "book_rep b q" "ob_price_count b = 1" "abs_side b q Sell \<noteq> []"
  shows "can_fully_fill b Buy limit r = Some (crosses b Buy limit 0 \<and> r \<le> pl_total_quantity (levels b Sell ! 0))"
proof -
  have "best_index b Sell = 0" "best_index b Sell \<noteq> no_price"
    by (rule best_index_first [OF assms(1,3)]; use assms(2) in simp)+
  moreover have "length (levels b Sell) = 1" using book_repD(2) [OF assms(1)] assms(2) by simp
  ultimately show ?thesis
    unfolding can_fully_fill_def by (subst fill_loop.simps) (simp add: vec_simps assms(2))
qed

text \<open>
  C36.  The aggregate of a price level is kept modulo \<open>2 ^ 64\<close>.  Two resting orders of \<open>2 ^ 63\<close>
  each bring the level to 0; a fill-or-kill order for a single unit at that price is then
  rejected with \<^verbatim>\<open>WouldNotFill\<close> although the level can fill it, where the reference
  semantics trades.
\<close>

theorem level_total_wraps:
  "\<exists>b. reachable tiny_config b \<and> map ro_quantity (view_side b Sell) = [2 ^ 63, 2 ^ 63] \<and>
    quantity_at b Sell 1 = Some 0 \<and>
    map_option snd (process b (fok_order 3 Buy 3 1 1) []) =
      Some [make_event Rejected (fok_order 3 Buy 3 1 1) 0 0 0 WouldNotFill] \<and>
    map e_type (snd (spec_process tiny_config (view b) (fok_order 3 Buy 3 1 1))) = [Accepted, Trade]"
proof -
  obtain b where b: "reachable tiny_config b" "view b = \<lparr>sb_bids = [],
     sb_asks = [\<lparr>ro_order_id = 1, ro_side = Sell, ro_price = 1, ro_quantity = 2 ^ 63, ro_priority = 1\<rparr>,
                \<lparr>ro_order_id = 2, ro_side = Sell, ro_price = 1, ro_quantity = 2 ^ 63, ro_priority = 2\<rparr>],
     sb_last_sequence = 2\<rparr>" using wrapped_book by blast
  let ?c = "fok_order 3 Buy 3 1 1" and ?v = "view_side b Sell"
  have vs: "map ro_quantity ?v = [2 ^ 63, 2 ^ 63]" "map ro_price ?v = [1, 1]" "st_last_sequence (ob_stats b) = 2" "?v \<noteq> []"
    using arg_cong [OF b(2), of sb_asks] arg_cong [OF b(2), of sb_last_sequence] by (simp_all add: view_def)
  have q0: "quantity_at b Sell 1 = Some 0"
    using quantity_at_view [OF b(1), of Sell 1] arg_cong [OF b(2), of sb_asks] by (simp add: view_def level_quantity_def)
  have cfg: "ob_config b = tiny_config" "simulates b (view b)" using reachable_invar [OF b(1)] by (auto simp: book_invar_def)
  obtain q where q: "book_rep b q" "abs_book b q = view b" using cfg(2) by (auto simp: simulates_def)
  have "abs_side b q Sell \<noteq> []" using vs(4) q(2) sb_side_abs [of b q Sell] by simp
  have pc: "ob_price_count b = 1"
    using checked_price_countD(5) [OF book_repD(1) [OF q(1)]] by (simp add: cfg(1) tiny_config_def)
  let ?b1 = "b\<lparr>ob_stats := (ob_stats b)\<lparr>st_last_sequence := c_sequence ?c, st_commands := st_commands (ob_stats b) + 1\<rparr>\<rparr>"
  have "pl_total_quantity (levels b Sell ! 0) = 0"
    using q0 pc book_repD(2) [OF q(1), of Sell] by (simp add: quantity_at_def cfg(1) vec_simps)
  then have "can_fully_fill ?b1 Buy 1 1 = Some False"
    using single_level_fill [of ?b1 q 1 1] book_rep_stats [of _ b] q(1) pc \<open>abs_side b q Sell \<noteq> []\<close> by simp
  moreover have "fi_find (ob_order_index b) 3 = Some None"
    using fi_find_dict [OF book_repD(8) [OF q(1)], of 3] spec_find_abs [OF q(1), of 3] b(2) q(2) by (simp add: spec_find_def)
  ultimately have "process b ?c [] = Some (reject ?b1 ?c [] WouldNotFill)"
    by (simp add: process_def submit_def vs(3) cfg(1) fok_order_def limit_order_def effective_limit_def)
  then have "map_option snd (process b ?c []) = Some [make_event Rejected ?c 0 0 0 WouldNotFill]"
    by (simp add: reject_def emit_def)
  moreover have "map e_type (snd (spec_process tiny_config (view b) ?c)) = [Accepted, Trade]"
    unfolding b(2) by (simp add: spec_eval make_event_def)
  ultimately show ?thesis using b(1) vs(1) q0 by (intro exI [of _ b] conjI)
qed

end
