(* ===== verification/Journal.thy ===== *)
theory Journal
  imports Protocol Engine_Runs
begin

text \<open>
  Persistence (\<^verbatim>\<open>include/dme/journal.hpp\<close>, \<^verbatim>\<open>src/journal.cpp\<close>): the checksummed command journal
  and its replay; the theory \<^verbatim>\<open>Snapshot\<close> adds the snapshot files.  A file is its list of bytes; structures are written as
  their object representations, here the little-endian layouts of the 64-bit targets, with
  the padding bytes of \<^verbatim>\<open>Command\<close> and \<^verbatim>\<open>RestingOrder\<close> as explicit arguments because the language
  leaves them unspecified.  The outcomes of stream operations are arguments too.  A record
  with a correct checksum but an enumerator out of range, which no writer produces, is
  outside the model and yields \<open>Abnormal\<close>.
\<close>

unbundle bit_operations_syntax

subsection \<open>Layouts\<close>

definition journal_magic :: "u8 list" where
  "journal_magic = [0x44, 0x4d, 0x45, 0x4a, 0x4e, 0x4c, 0x31, 0]"

definition snapshot_magic :: "u8 list" where
  "snapshot_magic = [0x44, 0x4d, 0x45, 0x53, 0x4e, 0x50, 0x31, 0]"

record FileHeader =
  fh_magic :: "u8 list"
  fh_version :: u32
  fh_record_size :: u32

definition sizeof_file_header :: nat where "sizeof_file_header = 16"
definition sizeof_command :: nat where "sizeof_command = 40"
definition sizeof_journal_record :: nat where "sizeof_journal_record = 48"
definition sizeof_resting_order :: nat where "sizeof_resting_order = 40"
definition sizeof_snapshot_header :: nat where "sizeof_snapshot_header = 72"

definition file_header_repr :: "FileHeader \<Rightarrow> u8 list" where
  "file_header_repr h = fh_magic h @ le_bytes 4 (fh_version h) @ le_bytes 4 (fh_record_size h)"

definition file_header_at :: "u8 list \<Rightarrow> FileHeader option" where
  "file_header_at bytes =
     do {
       version \<leftarrow> get_u32 bytes 8;
       record_size \<leftarrow> get_u32 bytes 12;
       Some \<lparr>fh_magic = take 8 bytes, fh_version = version, fh_record_size = record_size\<rparr>
     }"

definition enum_at :: "'e list \<Rightarrow> u8 \<Rightarrow> 'e option" where
  "enum_at enumerators byte = vec_at enumerators (unat byte)"

definition command_repr :: "u8 list \<Rightarrow> Command \<Rightarrow> u8 list" where
  "command_repr padding command =
     le_bytes 8 (c_sequence command) @
     [command_type_code (c_type command), side_code (c_side command),
      order_type_code (c_order_type command), c_reserved command] @ padding @
     le_bytes 8 (c_order_id command) @ le_bytes 8 (c_price command) @ le_bytes 8 (c_quantity command)"

definition command_at :: "u8 list \<Rightarrow> Command option" where
  "command_at bytes =
     do {
       sequence \<leftarrow> get_u64 bytes 0;
       type \<leftarrow> vec_at bytes 8; type \<leftarrow> enum_at [New, Cancel, Replace] type;
       side \<leftarrow> vec_at bytes 9; side \<leftarrow> enum_at [Buy, Sell] side;
       order_type \<leftarrow> vec_at bytes 10;
       order_type \<leftarrow> enum_at [Limit, Market, ImmediateOrCancel, FillOrKill] order_type;
       reserved \<leftarrow> vec_at bytes 11;
       order_id \<leftarrow> get_u64 bytes 16;
       price \<leftarrow> get_u64 bytes 24;
       quantity \<leftarrow> get_u64 bytes 32;
       Some \<lparr>c_sequence = sequence, c_type = type, c_side = side, c_order_type = order_type,
         c_reserved = reserved, c_order_id = order_id, c_price = price, c_quantity = quantity\<rparr>
     }"

subsection \<open>Checksum\<close>

fun checksum_loop :: "u64 \<Rightarrow> u8 list \<Rightarrow> u64" where
  "checksum_loop h [] = h"
| "checksum_loop h (byte # bytes) = checksum_loop ((h XOR ucast byte) * 1099511628211) bytes"

definition checksum_bytes :: "u8 list \<Rightarrow> u64" where
  "checksum_bytes bytes = checksum_loop 1469598103934665603 bytes"

subsection \<open>Writing a journal\<close>

text \<open>
  \<open>jw_contents\<close> are the bytes of the file including those the stream still buffers,
  \<open>jw_flushed\<close> how many of them a flush has covered.
\<close>

record JournalWriter =
  jw_contents :: "u8 list"
  jw_flushed :: nat
  jw_synchronous :: bool

definition journal_header :: FileHeader where
  "journal_header = \<lparr>fh_magic = journal_magic, fh_version = 1, fh_record_size = of_nat sizeof_journal_record\<rparr>"

definition valid_journal_header :: "u8 list \<Rightarrow> bool" where
  "valid_journal_header file \<longleftrightarrow>
     length file \<ge> sizeof_file_header \<and>
     (case file_header_at (take sizeof_file_header file) of
        None \<Rightarrow> False
      | Some header \<Rightarrow> fh_magic header = journal_magic \<and> fh_version header = 1 \<and>
          fh_record_size header = of_nat sizeof_journal_record)"

text \<open>\<open>existing\<close> is the file at the path, if any; \<open>opened\<close> and \<open>written\<close> say whether the stream is good.\<close>

definition journal_writer :: "u8 list option \<Rightarrow> bool \<Rightarrow> bool \<Rightarrow> bool \<Rightarrow> exn + JournalWriter" where
  "journal_writer existing synchronous opened written =
     (let new_file = (case existing of None \<Rightarrow> True | Some bytes \<Rightarrow> length bytes = 0);
          bytes = (case existing of None \<Rightarrow> [] | Some bytes \<Rightarrow> bytes) in
      if \<not> new_file \<and> \<not> valid_journal_header bytes then Inl RuntimeError
      else if \<not> opened then Inl RuntimeError
      else if new_file then
        (if \<not> written then Inl RuntimeError
         else let contents = bytes @ file_header_repr journal_header in
           Inr \<lparr>jw_contents = contents, jw_flushed = length contents, jw_synchronous = synchronous\<rparr>)
      else Inr \<lparr>jw_contents = bytes, jw_flushed = length bytes, jw_synchronous = synchronous\<rparr>)"

text \<open>
  The checksum is computed over the argument, with its padding; the record holds a copy of the
  command, with the padding of the copy.  \<open>failure\<close> is \<open>Some n\<close> when the stream fails after
  \<open>n\<close> bytes of the record.
\<close>

definition journal_append :: "JournalWriter \<Rightarrow> nat option \<Rightarrow> u8 list \<Rightarrow> u8 list \<Rightarrow> Command \<Rightarrow> (exn + unit) \<times> JournalWriter" where
  "journal_append w failure padding copy_padding command =
     (let record = command_repr copy_padding command @ le_bytes 8 (checksum_bytes (command_repr padding command)) in
      case failure of
        Some n \<Rightarrow> (Inl RuntimeError, w\<lparr>jw_contents := jw_contents w @ take n record\<rparr>)
      | None \<Rightarrow>
          let contents = jw_contents w @ record in
          (Inr (), w\<lparr>jw_contents := contents,
             jw_flushed := (if jw_synchronous w then length contents else jw_flushed w)\<rparr>))"

definition journal_flush :: "JournalWriter \<Rightarrow> bool \<Rightarrow> exn + JournalWriter" where
  "journal_flush w written =
     (if \<not> written then Inl RuntimeError else Inr (w\<lparr>jw_flushed := length (jw_contents w)\<rparr>))"

subsection \<open>Replay\<close>

record ReplayResult =
  rr_records :: u64
  rr_valid_bytes :: u64
  rr_clean_end :: bool

text \<open>The commands handed to the consumer, in order, with the result.\<close>

function replay_loop :: "u8 list \<Rightarrow> Command list \<Rightarrow> ReplayResult \<Rightarrow> exn + (Command list \<times> ReplayResult)" where
  "replay_loop stream consumed result =
     (let record = take sizeof_journal_record stream in
      if record = [] then Inr (consumed, result)
      else if length record \<noteq> sizeof_journal_record \<or>
        get_u64 record sizeof_command \<noteq> Some (checksum_bytes (take sizeof_command record))
      then Inr (consumed, result\<lparr>rr_clean_end := False\<rparr>)
      else case command_at (take sizeof_command record) of
        None \<Rightarrow> Inl Abnormal
      | Some command \<Rightarrow>
          replay_loop (drop sizeof_journal_record stream) (consumed @ [command])
            (result\<lparr>rr_records := rr_records result + 1,
              rr_valid_bytes := rr_valid_bytes result + of_nat sizeof_journal_record\<rparr>))"
  by pat_completeness auto
termination
  by (relation "measure (\<lambda>(stream, _). length stream)") (auto simp: sizeof_journal_record_def)

declare replay_loop.simps [simp del]

definition replay_journal :: "u8 list option \<Rightarrow> exn + (Command list \<times> ReplayResult)" where
  "replay_journal existing =
     (case existing of
        None \<Rightarrow> Inl RuntimeError
      | Some file \<Rightarrow>
          if \<not> valid_journal_header file then Inl RuntimeError
          else replay_loop (drop sizeof_file_header file) []
            \<lparr>rr_records = 0, rr_valid_bytes = of_nat sizeof_file_header, rr_clean_end = True\<rparr>)"

subsection \<open>Reading back representations\<close>

lemma enum_at_code [simp]:
  "enum_at [New, Cancel, Replace] (command_type_code t) = Some t"
  "enum_at [Buy, Sell] (side_code s) = Some s"
  "enum_at [Limit, Market, ImmediateOrCancel, FillOrKill] (order_type_code u) = Some u"
  by (cases t; simp add: enum_at_def vec_at_def; fail | cases s; simp add: enum_at_def vec_at_def; fail
    | cases u; simp add: enum_at_def vec_at_def; fail)+

lemma length_command_repr [simp]: "length padding = 4 \<Longrightarrow> length (command_repr padding command) = 40"
  by (simp add: command_repr_def)

lemma command_at_repr:
  assumes "length padding = 4"
  shows "command_at (command_repr padding command) = Some command"
proof -
  let ?xs = "command_repr padding command"
  have "get_u64 ?xs 0 = Some (c_sequence command)" "get_u64 ?xs 16 = Some (c_order_id command)"
    "get_u64 ?xs 24 = Some (c_price command)" "get_u64 ?xs 32 = Some (c_quantity command)"
    by (rule get_field; simp add: command_repr_def assms)+
  moreover have "vec_at ?xs 8 = Some (command_type_code (c_type command))"
    "vec_at ?xs 9 = Some (side_code (c_side command))"
    "vec_at ?xs 10 = Some (order_type_code (c_order_type command))" "vec_at ?xs 11 = Some (c_reserved command)"
    by (simp_all add: command_repr_def assms vec_at_def nth_append)
  ultimately show ?thesis by (simp add: command_at_def)
qed

lemma length_file_header [simp]: "length (fh_magic h) = 8 \<Longrightarrow> length (file_header_repr h) = 16"
  by (simp add: file_header_repr_def)

lemma file_header_at_repr:
  assumes "length (fh_magic h) = 8"
  shows "file_header_at (file_header_repr h @ rest) = Some h"
proof -
  let ?xs = "file_header_repr h @ rest"
  have "get_u32 ?xs 8 = Some (fh_version h)" "get_u32 ?xs 12 = Some (fh_record_size h)"
    by (rule get_field; simp add: file_header_repr_def assms)+
  then show ?thesis by (simp add: file_header_at_def) (simp add: file_header_repr_def assms)
qed

lemma length_journal_magic [simp]: "length journal_magic = 8" "length snapshot_magic = 8"
  by (simp_all add: journal_magic_def snapshot_magic_def)

lemma valid_journal_header_repr [simp]: "valid_journal_header (file_header_repr journal_header @ rest)"
proof -
  have "length (fh_magic journal_header) = 8" by (simp add: journal_header_def)
  then show ?thesis
    using file_header_at_repr [of journal_header "[]"]
    by (simp add: valid_journal_header_def sizeof_file_header_def) (simp add: journal_header_def)
qed

text \<open>The bytes of a field determine its value and are determined by it.\<close>

lemma get_loop_bits:
  fixes v :: "'a::len word"
  shows "get_loop is xs at acc = Some v \<Longrightarrow> m < LENGTH('a) \<Longrightarrow>
    bit v m \<longleftrightarrow> bit acc m \<or> (\<exists>i \<in> set is. i * 8 \<le> m \<and> m < i * 8 + 8 \<and> bit (xs ! (at + i)) (m - i * 8))"
proof (induction "is" arbitrary: acc)
  case (Cons i "is")
  have b: "at + i < length xs" "get_loop is xs at (acc OR push_bit (i * 8) (ucast (xs ! (at + i)))) = Some v"
    using Cons.prems(1) by (auto simp: vec_at_def split: if_splits bind_splits)
  have "bit (xs ! (at + i)) n \<Longrightarrow> n < 8" for n using bit_imp_le_length [of "xs ! (at + i)" n] by simp
  then show ?case using Cons.IH [OF b(2) Cons.prems(2)] Cons.prems(2) by (auto simp: bit_simps) force+
qed simp

lemma get_u64_bytes:
  assumes "get_u64 xs at = Some v" "at + 8 \<le> length xs"
  shows "take 8 (drop at xs) = le_bytes 8 v"
proof (rule nth_equalityI)
  fix i assume "i < length (take 8 (drop at xs))"
  then have i: "i < 8" by simp
  have "bit (ucast (drop_bit (i * 8) v) :: u8) j \<longleftrightarrow> bit (xs ! (at + i)) j" if j: "j < 8" for j
  proof -
    have "bit v (i * 8 + j) \<longleftrightarrow> (\<exists>k \<in> {0..<8}. k * 8 \<le> i * 8 + j \<and> i * 8 + j < k * 8 + 8 \<and> bit (xs ! (at + k)) (i * 8 + j - k * 8))"
      using get_loop_bits [of "[0..<8]" xs at 0 v "i * 8 + j"] assms(1) i j by (simp add: get_u64_def)
    also have "\<dots> \<longleftrightarrow> bit (xs ! (at + i)) j"
    proof
      assume "\<exists>k \<in> {0..<8}. k * 8 \<le> i * 8 + j \<and> i * 8 + j < k * 8 + 8 \<and> bit (xs ! (at + k)) (i * 8 + j - k * 8)"
      then obtain k where k: "k * 8 \<le> i * 8 + j" "i * 8 + j < k * 8 + 8" "bit (xs ! (at + k)) (i * 8 + j - k * 8)" by blast
      then have "k = i" using j by linarith
      then show "bit (xs ! (at + i)) j" using k(3) by simp
    qed (use i j in \<open>intro bexI [of _ i], simp_all\<close>)
    finally show ?thesis using j by (simp add: bit_simps)
  qed
  then have "ucast (drop_bit (i * 8) v) = xs ! (at + i)" by (intro bit_word_eqI) simp
  then show "take 8 (drop at xs) ! i = le_bytes 8 v ! i" using i assms(2) by simp
qed (use assms(2) in simp)

subsection \<open>The checksum\<close>

lemma checksum_step_inj: "(h XOR ucast x) * 1099511628211 = (h' XOR ucast y) * 1099511628211 \<Longrightarrow>
    h XOR ucast x = h' XOR ucast (y :: u8)" for h h' :: u64 and x :: u8
proof -
  assume "(h XOR ucast x) * 1099511628211 = (h' XOR ucast y) * 1099511628211"
  then have "(h XOR ucast x) * (1099511628211 * 14886173955864302971) =
      (h' XOR ucast y) * (1099511628211 * 14886173955864302971)"
    by (simp only: mult.assoc [symmetric])
  moreover have "1099511628211 * 14886173955864302971 = (1 :: u64)" by simp
  ultimately show ?thesis by (simp only: mult_1_right)
qed

lemma xor_cancel: "a XOR b = a' XOR b \<Longrightarrow> a = a'" for a a' b :: u64
proof -
  assume "a XOR b = a' XOR b"
  then have "(a XOR b) XOR b = (a' XOR b) XOR b" by (rule arg_cong)
  then show "a = a'" by (simp only: xor.assoc xor_self_eq xor.right_neutral)
qed

lemma checksum_loop_inj: "checksum_loop h xs = checksum_loop h' xs \<Longrightarrow> h = h'"
proof (induction xs arbitrary: h h')
  case (Cons x xs)
  then have "(h XOR ucast x) * 1099511628211 = (h' XOR ucast x) * 1099511628211" by (metis checksum_loop.simps(2))
  then show ?case using checksum_step_inj xor_cancel by blast
qed simp

lemma checksum_loop_append: "checksum_loop h (xs @ ys) = checksum_loop (checksum_loop h xs) ys"
  by (induction xs arbitrary: h) simp_all

lemma checksum_detects_byte:
  assumes "j < length xs" "y \<noteq> xs ! j"
  shows "checksum_bytes (xs[j := y]) \<noteq> checksum_bytes xs"
proof
  let ?as = "take j xs" and ?bs = "drop (Suc j) xs"
  let ?h = "checksum_loop 1469598103934665603 ?as"
  assume "checksum_bytes (xs[j := y]) = checksum_bytes xs"
  moreover have "xs = ?as @ xs ! j # ?bs" "xs[j := y] = ?as @ y # ?bs"
    using assms(1) by (simp_all add: id_take_nth_drop upd_conv_take_nth_drop)
  ultimately have "checksum_loop ?h (y # ?bs) = checksum_loop ?h (xs ! j # ?bs)"
    unfolding checksum_bytes_def by (metis checksum_loop_append)
  then have "(?h XOR ucast y) * 1099511628211 = (?h XOR ucast (xs ! j)) * 1099511628211"
    by (simp only: checksum_loop.simps) (rule checksum_loop_inj)
  then have "?h XOR ucast y = ?h XOR ucast (xs ! j)" by (rule checksum_step_inj)
  then have "ucast y = (ucast (xs ! j) :: u64)" by (metis xor.commute xor_cancel)
  moreover have "ucast (ucast z :: u64) = z" for z :: u8 by (rule bit_word_eqI) (simp add: bit_simps)
  ultimately show False using assms(2) by metis
qed

subsection \<open>Replaying a journal\<close>

text \<open>A record, and the file after the commands \<open>ps\<close>, each with the padding of its object.\<close>

definition record_bytes :: "u8 list \<times> Command \<Rightarrow> u8 list" where
  "record_bytes p = command_repr (fst p) (snd p) @ le_bytes 8 (checksum_bytes (command_repr (fst p) (snd p)))"

definition journal_file :: "(u8 list \<times> Command) list \<Rightarrow> u8 list" where
  "journal_file ps = file_header_repr journal_header @ concat (map record_bytes ps)"

definition padded :: "(u8 list \<times> Command) list \<Rightarrow> bool" where
  "padded ps \<longleftrightarrow> (\<forall>p \<in> set ps. length (fst p) = 4)"

definition replayed :: "nat \<Rightarrow> bool \<Rightarrow> ReplayResult" where
  "replayed k clean = \<lparr>rr_records = of_nat k, rr_valid_bytes = of_nat (16 + 48 * k), rr_clean_end = clean\<rparr>"

lemmas sizeof_simps = sizeof_journal_record_def sizeof_command_def sizeof_file_header_def
  sizeof_resting_order_def sizeof_snapshot_header_def

lemma length_record_bytes [simp]: "length (fst p) = 4 \<Longrightarrow> length (record_bytes p) = 48"
  by (simp add: record_bytes_def)

lemma replay_loop_empty [simp]: "replay_loop [] consumed result = Inr (consumed, result)"
  by (subst replay_loop.simps) simp

lemma replay_loop_record:
  assumes "length (fst p) = 4"
  shows "replay_loop (record_bytes p @ rest) consumed (replayed k clean) =
    replay_loop rest (consumed @ [snd p]) (replayed (Suc k) clean)"
proof -
  let ?c = "command_repr (fst p) (snd p)"
  have "take 40 (record_bytes p) = ?c" using assms by (simp add: record_bytes_def)
  moreover have "get_u64 (record_bytes p) 40 = Some (checksum_bytes ?c)"
    by (rule get_field) (simp add: record_bytes_def assms)
  moreover have "take 48 (record_bytes p @ rest) = record_bytes p" "drop 48 (record_bytes p @ rest) = rest"
    using assms by simp_all
  moreover have "record_bytes p \<noteq> []" using length_record_bytes [OF assms] by force
  ultimately show ?thesis
    using assms by (subst replay_loop.simps) (simp add: Let_def sizeof_simps command_at_repr replayed_def add.commute)
qed

lemma replay_loop_records:
  "padded ps \<Longrightarrow> replay_loop (concat (map record_bytes ps) @ rest) consumed (replayed k clean) =
    replay_loop rest (consumed @ map snd ps) (replayed (k + length ps) clean)"
  by (induction ps arbitrary: consumed k) (simp_all add: padded_def replay_loop_record)

lemma replay_journal_file:
  assumes "padded ps"
  shows "replay_journal (Some (journal_file ps @ rest)) = replay_loop rest (map snd ps) (replayed (length ps) True)"
proof -
  have "length (file_header_repr journal_header) = 16" by (simp add: journal_header_def)
  then have "replay_journal (Some (journal_file ps @ rest)) =
      replay_loop (concat (map record_bytes ps) @ rest) [] (replayed 0 True)"
    by (simp add: replay_journal_def journal_file_def sizeof_simps replayed_def)
  then show ?thesis using replay_loop_records [OF assms, of rest "[]" 0] by simp
qed

text \<open>A record that is cut short or whose bytes do not agree with its checksum stops the replay.\<close>

lemma replay_loop_stops:
  assumes "stream \<noteq> []" "length stream < 48 \<or> get_u64 (take 48 stream) 40 \<noteq> Some (checksum_bytes (take 40 stream))"
  shows "replay_loop stream consumed (replayed k clean) = Inr (consumed, replayed k False)"
  using assms by (subst replay_loop.simps) (auto simp: Let_def sizeof_simps replayed_def)

lemma take_records:
  assumes "padded ps" "n \<le> 48 * length ps"
  shows "\<exists>rest. take n (concat (map record_bytes ps)) = concat (map record_bytes (take (n div 48) ps)) @ rest \<and>
    length rest = n mod 48"
  using assms
proof (induction ps arbitrary: n)
  case (Cons p ps)
  then have p: "length (record_bytes p) = 48" and ps: "padded ps" by (simp_all add: padded_def)
  show ?case
  proof (cases "n < 48")
    case True
    then show ?thesis using p by (intro exI [of _ "take n (record_bytes p)"]) simp
  next
    case False
    have "n - 48 \<le> 48 * length ps" using Cons.prems(2) by simp
    from Cons.IH [OF ps this]
    obtain rest where rest: "take (n - 48) (concat (map record_bytes ps)) =
        concat (map record_bytes (take ((n - 48) div 48) ps)) @ rest" "length rest = (n - 48) mod 48"
      by blast
    have "n div 48 = Suc ((n - 48) div 48)" "n mod 48 = (n - 48) mod 48"
      using False le_div_geq [of 48 n] le_mod_geq [of 48 n] by simp_all
    then show ?thesis using rest p False by (intro exI [of _ rest]) simp
  qed
qed simp

lemma padded_take [simp]: "padded ps \<Longrightarrow> padded (take n ps)"
  by (auto simp: padded_def dest: in_set_takeD)

lemma padded_Nil [simp]: "padded []"
  by (simp add: padded_def)

lemma padded_append [simp]: "padded (ps @ qs) \<longleftrightarrow> padded ps \<and> padded qs"
  by (auto simp: padded_def)

lemma replay_prefix:
  assumes "padded ps" "16 \<le> n" "n \<le> length (journal_file ps)"
  shows "replay_journal (Some (take n (journal_file ps))) =
    Inr (take ((n - 16) div 48) (map snd ps), replayed ((n - 16) div 48) (48 dvd (n - 16)))"
proof -
  let ?k = "(n - 16) div 48"
  have h: "length (file_header_repr journal_header) = 16" by (simp add: journal_header_def)
  have len: "length (concat (map record_bytes ps)) = 48 * length ps"
    using assms(1) by (induction ps) (simp_all add: padded_def)
  have "n - 16 \<le> 48 * length ps" using assms(3) len h by (simp add: journal_file_def)
  from take_records [OF assms(1) this]
  obtain rest where rest: "take (n - 16) (concat (map record_bytes ps)) = concat (map record_bytes (take ?k ps)) @ rest"
    "length rest = (n - 16) mod 48"
    by blast
  have "take n (journal_file ps) = journal_file (take ?k ps) @ rest"
    using rest(1) h assms(2) by (simp add: journal_file_def)
  then have r: "replay_journal (Some (take n (journal_file ps))) =
      replay_loop rest (take ?k (map snd ps)) (replayed (length (take ?k ps)) True)"
    using replay_journal_file [of "take ?k ps" rest] assms(1) by (simp add: take_map)
  have "?k \<le> length ps" using assms(3) len h by (simp add: journal_file_def)
  then have k: "length (take ?k ps) = ?k" by simp
  show ?thesis
  proof (cases "rest = []")
    case True
    then show ?thesis using r k rest(2) by (simp add: dvd_eq_mod_eq_0)
  next
    case False
    moreover have "length rest < 48" using rest(2) by simp
    ultimately have "replay_loop rest (take ?k (map snd ps)) (replayed ?k True) =
        Inr (take ?k (map snd ps), replayed ?k False)" by (intro replay_loop_stops) simp_all
    moreover have "(n - 16) mod 48 \<noteq> 0" using rest(2) False by (metis length_0_conv)
    ultimately show ?thesis using r k by (simp add: dvd_eq_mod_eq_0)
  qed
qed

lemma replay_any_prefix:
  assumes "padded ps" "n \<le> length (journal_file ps)"
  shows "replay_journal (Some (take n (journal_file ps))) =
    (if n < 16 then Inl RuntimeError
     else Inr (take ((n - 16) div 48) (map snd ps), replayed ((n - 16) div 48) (48 dvd (n - 16))))"
proof (cases "n < 16")
  case True
  then show ?thesis by (simp add: replay_journal_def valid_journal_header_def sizeof_simps)
next
  case False
  then show ?thesis using replay_prefix [OF assms(1) _ assms(2)] by simp
qed

text \<open>Changing one byte of a record is always noticed.\<close>

lemma corrupt_record:
  assumes p: "length (fst p) = 4" and j: "j < 48" and y: "y \<noteq> record_bytes p ! j"
  shows "get_u64 ((record_bytes p)[j := y]) 40 \<noteq> Some (checksum_bytes (take 40 ((record_bytes p)[j := y])))"
proof (cases "j < 40")
  case True
  let ?c = "command_repr (fst p) (snd p)"
  have "(record_bytes p)[j := y] = ?c[j := y] @ le_bytes 8 (checksum_bytes ?c)"
    using True p by (simp add: record_bytes_def list_update_append1)
  moreover from this have "get_u64 ((record_bytes p)[j := y]) 40 = Some (checksum_bytes ?c)"
    by (intro get_field) (simp add: p)
  moreover have "y \<noteq> ?c ! j" using y True p by (simp add: record_bytes_def nth_append)
  then have "checksum_bytes (?c[j := y]) \<noteq> checksum_bytes ?c"
    using True p by (intro checksum_detects_byte) simp_all
  ultimately show ?thesis using p by auto
next
  case False
  let ?r = "record_bytes p" and ?c = "command_repr (fst p) (snd p)"
  have c: "take 40 (?r[j := y]) = ?c" using False p by (simp add: record_bytes_def take_update_cancel)
  show ?thesis
  proof
    assume "get_u64 (?r[j := y]) 40 = Some (checksum_bytes (take 40 (?r[j := y])))"
    then have "take 8 (drop 40 (?r[j := y])) = le_bytes 8 (checksum_bytes ?c)"
      using get_u64_bytes [of "?r[j := y]" 40] p c by simp
    then have "drop 40 (?r[j := y]) = drop 40 ?r" using p by (simp add: record_bytes_def)
    then have "(?r[j := y]) ! j = ?r ! j" using False j p nth_drop [of 40 "?r[j := y]" "j - 40"] nth_drop [of 40 ?r "j - 40"] by simp
    then show False using y j p by simp
  qed
qed

text \<open>A writer that appends a sequence of commands, each write succeeding and each copy keeping its padding.\<close>

fun journal_append_all :: "JournalWriter \<Rightarrow> (u8 list \<times> Command) list \<Rightarrow> exn + JournalWriter" where
  "journal_append_all w [] = Inr w"
| "journal_append_all w (p # ps) =
     (case journal_append w None (fst p) (fst p) (snd p) of
        (Inl e, w1) \<Rightarrow> Inl e
      | (Inr _, w1) \<Rightarrow> journal_append_all w1 ps)"

lemma journal_append_all_contents:
  "\<exists>w'. journal_append_all w ps = Inr w' \<and> jw_contents w' = jw_contents w @ concat (map record_bytes ps)"
proof (induction ps arbitrary: w)
  case (Cons p ps)
  obtain w1 where w1: "journal_append w None (fst p) (fst p) (snd p) = (Inr (), w1)" "jw_contents w1 = jw_contents w @ record_bytes p"
    by (simp add: journal_append_def Let_def record_bytes_def)
  then show ?case using Cons.IH [of w1] by simp
qed simp

lemma length_journal_file: "padded ps \<Longrightarrow> length (journal_file ps) = 16 + 48 * length ps"
proof -
  assume "padded ps"
  then have "length (concat (map record_bytes ps)) = 48 * length ps" by (induction ps) (simp_all add: padded_def)
  then show ?thesis by (simp add: journal_file_def journal_header_def)
qed

lemma journal_writer_contents:
  assumes "existing = None \<and> qs = [] \<or> existing = Some (journal_file qs)"
  shows "\<exists>w. journal_writer existing synchronous True True = Inr w \<and> jw_contents w = journal_file qs"
proof -
  have "0 < length (journal_file qs)" by (simp add: journal_file_def journal_header_def)
  then show ?thesis using assms by (auto simp: journal_writer_def Let_def) (simp_all add: journal_file_def)
qed

subsection \<open>Properties of the journal\<close>

text \<open>
  C20.  A crash loses at most the end of the journal.  A writer opened on a new file or on a
  journal with the commands \<open>qs\<close> accepts every append; if the first \<open>n\<close> bytes of the file
  survive, replay hands the consumer exactly the commands whose records are complete, in
  order, reports their number and the offset behind them, and says that the end is clean
  exactly when no partial record follows.  A file without a complete header is refused.
\<close>

theorem journal_survives_crash:
  assumes "existing = None \<and> qs = [] \<or> existing = Some (journal_file qs)" "padded qs" "padded ps"
  shows "\<exists>w w'. journal_writer existing synchronous True True = Inr w \<and> journal_append_all w ps = Inr w' \<and>
    (\<forall>n \<le> length (jw_contents w'). replay_journal (Some (take n (jw_contents w'))) =
      (if n < 16 then Inl RuntimeError
       else Inr (take ((n - 16) div 48) (map snd (qs @ ps)), replayed ((n - 16) div 48) (48 dvd (n - 16)))))"
proof -
  obtain w where w: "journal_writer existing synchronous True True = Inr w" "jw_contents w = journal_file qs"
    using journal_writer_contents [OF assms(1)] by blast
  obtain w' where w': "journal_append_all w ps = Inr w'" "jw_contents w' = journal_file (qs @ ps)"
    using journal_append_all_contents [of w ps] w(2) by (auto simp: journal_file_def)
  have "padded (qs @ ps)" using assms(2,3) by simp
  then have "\<forall>n \<le> length (jw_contents w'). replay_journal (Some (take n (jw_contents w'))) =
      (if n < 16 then Inl RuntimeError
       else Inr (take ((n - 16) div 48) (map snd (qs @ ps)), replayed ((n - 16) div 48) (48 dvd (n - 16))))"
    unfolding w'(2) by (intro allI impI replay_any_prefix)
  then show ?thesis using w(1) w'(1) by blast
qed

theorem journal_survives_crash_witness:
  "\<exists>w w'. journal_writer None True True True = Inr w \<and>
    journal_append_all w [([0, 0, 0, 0], limit_order 1 Buy 1 5 10), ([0, 0, 0, 0], limit_order 2 Sell 2 5 4)] = Inr w' \<and>
    replay_journal (Some (take 100 (jw_contents w'))) = Inr ([limit_order 1 Buy 1 5 10], replayed 1 False) \<and>
    replay_journal (Some (take 112 (jw_contents w'))) =
      Inr ([limit_order 1 Buy 1 5 10, limit_order 2 Sell 2 5 4], replayed 2 True)"
proof -
  let ?ps = "[([0, 0, 0, 0], limit_order 1 Buy 1 5 10), ([0, 0, 0, 0], limit_order 2 Sell 2 5 4)] :: (u8 list \<times> Command) list"
  have ps: "padded ?ps" "padded []" by (simp_all add: padded_def)
  obtain w w' where w: "journal_writer None True True True = Inr w" "journal_append_all w ?ps = Inr w'"
    "\<forall>n \<le> length (jw_contents w'). replay_journal (Some (take n (jw_contents w'))) =
      (if n < 16 then Inl RuntimeError
       else Inr (take ((n - 16) div 48) (map snd ([] @ ?ps)), replayed ((n - 16) div 48) (48 dvd (n - 16))))"
    using journal_survives_crash [of None "[]" ?ps True] ps by blast
  have "jw_contents w' = journal_file ?ps"
    using journal_append_all_contents [of w ?ps] journal_writer_contents [of None "[]" True] w(1,2)
    by (auto simp: journal_file_def)
  then have len: "length (jw_contents w') = 112" using length_journal_file [OF ps(1)] by simp
  have "replay_journal (Some (take 100 (jw_contents w'))) = Inr ([limit_order 1 Buy 1 5 10], replayed 1 False)"
    "replay_journal (Some (take 112 (jw_contents w'))) =
      Inr ([limit_order 1 Buy 1 5 10, limit_order 2 Sell 2 5 4], replayed 2 True)"
    using spec [OF w(3), of 100] spec [OF w(3), of 112] len by simp_all
  then show ?thesis using w(1,2) by blast
qed

text \<open>
  C25.  Damage is noticed.  Changing any single byte of any record makes replay stop in front of
  that record, with the earlier commands intact and the end reported as not clean.
\<close>

theorem journal_detects_damage:
  assumes "padded ps" "k < length ps" "j < 48" "y \<noteq> journal_file ps ! (16 + 48 * k + j)"
  shows "replay_journal (Some ((journal_file ps)[16 + 48 * k + j := y])) = Inr (take k (map snd ps), replayed k False)"
proof -
  let ?p = "ps ! k" and ?rest = "concat (map record_bytes (drop (Suc k) ps))"
  have p: "length (fst ?p) = 4" using assms(1,2) by (simp add: padded_def)
  have len: "length (journal_file (take k ps)) = 16 + 48 * k"
    using length_journal_file [of "take k ps"] assms(1,2) by simp
  have "ps = take k ps @ ?p # drop (Suc k) ps" using assms(2) by (rule id_take_nth_drop)
  then have split: "journal_file ps = journal_file (take k ps) @ record_bytes ?p @ ?rest"
    unfolding journal_file_def by (metis append.assoc concat.simps(2) concat_append list.simps(9) map_append)
  have y: "y \<noteq> record_bytes ?p ! j"
    using assms(3,4) p len by (simp add: split nth_append)
  have "(journal_file ps)[16 + 48 * k + j := y] = journal_file (take k ps) @ (record_bytes ?p)[j := y] @ ?rest"
    using assms(3) p len by (simp add: split list_update_append)
  then have "replay_journal (Some ((journal_file ps)[16 + 48 * k + j := y])) =
      replay_loop ((record_bytes ?p)[j := y] @ ?rest) (take k (map snd ps)) (replayed k True)"
    using replay_journal_file [of "take k ps"] assms(1,2) by (simp add: take_map)
  also have "\<dots> = Inr (take k (map snd ps), replayed k False)"
    using corrupt_record [OF p assms(3) y] length_record_bytes [OF p]
    by (intro replay_loop_stops) (auto simp: take_append)
  finally show ?thesis .
qed

theorem journal_detects_damage_witness:
  "replay_journal (Some ((journal_file [([0, 0, 0, 0], limit_order 1 Buy 1 5 10), ([0, 0, 0, 0], limit_order 2 Sell 2 5 4)])
     [16 + 48 * 1 + 9 := 7])) = Inr ([limit_order 1 Buy 1 5 10], replayed 1 False)"
proof -
  let ?ps = "[([0, 0, 0, 0], limit_order 1 Buy 1 5 10), ([0, 0, 0, 0], limit_order 2 Sell 2 5 4)] :: (u8 list \<times> Command) list"
  have "padded ?ps" by (simp add: padded_def)
  moreover have "journal_file ?ps ! (16 + 48 * 1 + 9) = 1"
    by (simp add: journal_file_def journal_header_def record_bytes_def command_repr_def limit_order_def nth_append)
  ultimately show ?thesis using journal_detects_damage [of ?ps 1 9 7] by simp
qed

end
