(* ===== verification/Snapshot.thy ===== *)
theory Snapshot
  imports Journal
begin

text \<open>
  Snapshot files (\<^verbatim>\<open>write_snapshot\<close> and \<^verbatim>\<open>read_snapshot\<close> of \<^verbatim>\<open>src/journal.cpp\<close>): the header and the
  resting orders with their checksum, written to a temporary file that replaces the
  destination, and read back into a new book.
\<close>

subsection \<open>Files\<close>

record SnapshotHeader =
  sh_file :: FileHeader
  sh_config :: BookConfig
  sh_last_sequence :: Sequence
  sh_order_count :: u64
  sh_checksum :: u64

definition snapshot_header_repr :: "SnapshotHeader \<Rightarrow> u8 list" where
  "snapshot_header_repr h =
     file_header_repr (sh_file h) @
     le_bytes 8 (minimum_price (sh_config h)) @ le_bytes 8 (maximum_price (sh_config h)) @
     le_bytes 8 (tick_size (sh_config h)) @ le_bytes 8 (of_nat (maximum_orders (sh_config h)) :: u64) @
     le_bytes 8 (sh_last_sequence h) @ le_bytes 8 (sh_order_count h) @ le_bytes 8 (sh_checksum h)"

definition snapshot_header_at :: "u8 list \<Rightarrow> SnapshotHeader option" where
  "snapshot_header_at bytes =
     do {
       file \<leftarrow> file_header_at bytes;
       lo \<leftarrow> get_u64 bytes 16;
       hi \<leftarrow> get_u64 bytes 24;
       tick \<leftarrow> get_u64 bytes 32;
       orders \<leftarrow> get_u64 bytes 40;
       last_sequence \<leftarrow> get_u64 bytes 48;
       order_count \<leftarrow> get_u64 bytes 56;
       checksum \<leftarrow> get_u64 bytes 64;
       Some \<lparr>sh_file = file,
         sh_config = \<lparr>minimum_price = lo, maximum_price = hi, tick_size = tick, maximum_orders = unat orders\<rparr>,
         sh_last_sequence = last_sequence, sh_order_count = order_count, sh_checksum = checksum\<rparr>
     }"

definition resting_order_repr :: "u8 list \<Rightarrow> RestingOrder \<Rightarrow> u8 list" where
  "resting_order_repr padding order =
     le_bytes 8 (ro_order_id order) @ [side_code (ro_side order)] @ padding @
     le_bytes 8 (ro_price order) @ le_bytes 8 (ro_quantity order) @ le_bytes 8 (ro_priority order)"

definition resting_order_at :: "u8 list \<Rightarrow> RestingOrder option" where
  "resting_order_at bytes =
     do {
       order_id \<leftarrow> get_u64 bytes 0;
       side \<leftarrow> vec_at bytes 8; side \<leftarrow> enum_at [Buy, Sell] side;
       price \<leftarrow> get_u64 bytes 16;
       quantity \<leftarrow> get_u64 bytes 24;
       priority \<leftarrow> get_u64 bytes 32;
       Some \<lparr>ro_order_id = order_id, ro_side = side, ro_price = price, ro_quantity = quantity, ro_priority = priority\<rparr>
     }"

fun resting_orders_at :: "nat \<Rightarrow> u8 list \<Rightarrow> RestingOrder list option" where
  "resting_orders_at 0 bytes = Some []"
| "resting_orders_at (Suc n) bytes =
     do {
       order \<leftarrow> resting_order_at (take sizeof_resting_order bytes);
       orders \<leftarrow> resting_orders_at n (drop sizeof_resting_order bytes);
       Some (order # orders)
     }"

text \<open>
  The files a snapshot touches, \<^verbatim>\<open>path\<close> and \<^verbatim>\<open>path.tmp\<close>, and what the operating system lets the
  writer do: create the temporary file, write \<open>n\<close> bytes of it, replace the destination.
\<close>

record snapshot_files =
  sf_path :: "u8 list option"
  sf_temporary :: "u8 list option"

datatype snapshot_io = CannotCreate | WriteFails nat | CannotRename | Completes

text \<open>The orders as an array; \<open>padding i\<close> are the padding bytes of its element \<open>i\<close>.\<close>

definition orders_repr :: "(nat \<Rightarrow> u8 list) \<Rightarrow> RestingOrder list \<Rightarrow> u8 list" where
  "orders_repr padding orders = concat (map (\<lambda>(i, order). resting_order_repr (padding i) order) (List.enumerate 0 orders))"

definition snapshot_bytes :: "(nat \<Rightarrow> u8 list) \<Rightarrow> OrderBook \<Rightarrow> RestingOrder list \<Rightarrow> u8 list" where
  "snapshot_bytes padding book orders =
     (let payload = orders_repr padding orders;
          header = \<lparr>sh_file = \<lparr>fh_magic = snapshot_magic, fh_version = 1, fh_record_size = of_nat sizeof_resting_order\<rparr>,
            sh_config = ob_config book, sh_last_sequence = st_last_sequence (ob_stats book),
            sh_order_count = of_nat (length orders), sh_checksum = checksum_bytes payload\<rparr> in
      snapshot_header_repr header @ payload)"

definition write_snapshot :: "snapshot_io \<Rightarrow> (nat \<Rightarrow> u8 list) \<Rightarrow> snapshot_files \<Rightarrow> OrderBook \<Rightarrow> (exn + unit) \<times> snapshot_files" where
  "write_snapshot io padding files book =
     (case resting_orders book of
        None \<Rightarrow> (Inl Abnormal, files)
      | Some orders \<Rightarrow>
          let bytes = snapshot_bytes padding book orders in
          case io of
            CannotCreate \<Rightarrow> (Inl RuntimeError, files)
          | WriteFails n \<Rightarrow> (Inl RuntimeError, files\<lparr>sf_temporary := Some (take n bytes)\<rparr>)
          | CannotRename \<Rightarrow> (Inl RuntimeError, files\<lparr>sf_temporary := Some bytes\<rparr>)
          | Completes \<Rightarrow> (Inr (), files\<lparr>sf_path := Some bytes, sf_temporary := None\<rparr>))"

definition read_snapshot :: "u8 list option \<Rightarrow> exn + OrderBook" where
  "read_snapshot existing =
     (case existing of
        None \<Rightarrow> Inl RuntimeError
      | Some file \<Rightarrow>
          (case (if length file < sizeof_snapshot_header then None
                 else snapshot_header_at (take sizeof_snapshot_header file)) of
             None \<Rightarrow> Inl RuntimeError
           | Some header \<Rightarrow>
               if fh_magic (sh_file header) \<noteq> snapshot_magic \<or> fh_version (sh_file header) \<noteq> 1 \<or>
                  fh_record_size (sh_file header) \<noteq> of_nat sizeof_resting_order \<or>
                  unat (sh_order_count header) > maximum_orders (sh_config header)
               then Inl RuntimeError
               else
                 let n = unat (sh_order_count header);
                     payload = take (n * sizeof_resting_order) (drop sizeof_snapshot_header file) in
                 if length payload \<noteq> n * sizeof_resting_order \<or> sh_checksum header \<noteq> checksum_bytes payload
                 then Inl RuntimeError
                 else
                   (case resting_orders_at n payload of
                      None \<Rightarrow> Inl Abnormal
                    | Some orders \<Rightarrow>
                        (case order_book (sh_config header) of
                           Inl e \<Rightarrow> Inl e
                         | Inr book \<Rightarrow> restore book (sh_last_sequence header) orders))))"

subsection \<open>Reading back a snapshot\<close>

lemma length_resting_order_repr [simp]: "length padding = 7 \<Longrightarrow> length (resting_order_repr padding order) = 40"
  by (simp add: resting_order_repr_def)

lemma resting_order_at_repr:
  assumes "length padding = 7"
  shows "resting_order_at (resting_order_repr padding order) = Some order"
proof -
  let ?xs = "resting_order_repr padding order"
  have "get_u64 ?xs 0 = Some (ro_order_id order)" "get_u64 ?xs 16 = Some (ro_price order)"
    "get_u64 ?xs 24 = Some (ro_quantity order)" "get_u64 ?xs 32 = Some (ro_priority order)"
    by (rule get_field; simp add: resting_order_repr_def assms)+
  moreover have "vec_at ?xs 8 = Some (side_code (ro_side order))"
    by (simp add: resting_order_repr_def vec_at_def nth_append)
  ultimately show ?thesis by (simp add: resting_order_at_def)
qed

lemma resting_orders_at_repr:
  assumes "\<forall>i. length (padding i) = 7"
  shows "resting_orders_at (length orders) (orders_repr padding orders) = Some orders"
    "length (orders_repr padding orders) = 40 * length orders"
proof -
  have "resting_orders_at (length orders)
      (concat (map (\<lambda>(i, order). resting_order_repr (padding i) order) (List.enumerate n orders))) = Some orders \<and>
    length (concat (map (\<lambda>(i, order). resting_order_repr (padding i) order) (List.enumerate n orders))) = 40 * length orders" for n
    using assms by (induction orders arbitrary: n) (simp_all add: sizeof_simps resting_order_at_repr)
  then show "resting_orders_at (length orders) (orders_repr padding orders) = Some orders"
    "length (orders_repr padding orders) = 40 * length orders" by (simp_all add: orders_repr_def)
qed

lemma length_snapshot_header [simp]: "length (fh_magic (sh_file h)) = 8 \<Longrightarrow> length (snapshot_header_repr h) = 72"
  by (simp add: snapshot_header_repr_def)

lemma snapshot_header_at_repr:
  assumes "length (fh_magic (sh_file h)) = 8" "maximum_orders (sh_config h) < 2 ^ 64"
  shows "snapshot_header_at (snapshot_header_repr h) = Some h"
proof -
  let ?xs = "snapshot_header_repr h"
  have "file_header_at ?xs = Some (sh_file h)"
    using file_header_at_repr [OF assms(1)] by (simp add: snapshot_header_repr_def)
  moreover have "get_u64 ?xs 16 = Some (minimum_price (sh_config h))" "get_u64 ?xs 24 = Some (maximum_price (sh_config h))"
    "get_u64 ?xs 32 = Some (tick_size (sh_config h))" "get_u64 ?xs 40 = Some (of_nat (maximum_orders (sh_config h)))"
    "get_u64 ?xs 48 = Some (sh_last_sequence h)" "get_u64 ?xs 56 = Some (sh_order_count h)"
    "get_u64 ?xs 64 = Some (sh_checksum h)"
    by (rule get_field; simp add: snapshot_header_repr_def assms)+
  moreover have "unat (of_nat (maximum_orders (sh_config h)) :: u64) = maximum_orders (sh_config h)"
    using assms(2) by (simp add: unsigned_of_nat take_bit_nat_eq_self)
  ultimately show ?thesis by (simp add: snapshot_header_at_def)
qed

lemma read_snapshot_bytes:
  assumes pad: "\<forall>i. length (padding i) = 7" and cfg: "length orders \<le> maximum_orders (ob_config b)" "maximum_orders (ob_config b) < 2 ^ 32"
  shows "read_snapshot (Some (snapshot_bytes padding b orders)) =
    (case order_book (ob_config b) of
       Inl e \<Rightarrow> Inl e | Inr b0 \<Rightarrow> restore b0 (st_last_sequence (ob_stats b)) orders)"
proof -
  let ?payload = "orders_repr padding orders"
  let ?h = "\<lparr>sh_file = \<lparr>fh_magic = snapshot_magic, fh_version = 1, fh_record_size = of_nat sizeof_resting_order\<rparr>,
    sh_config = ob_config b, sh_last_sequence = st_last_sequence (ob_stats b),
    sh_order_count = of_nat (length orders), sh_checksum = checksum_bytes ?payload\<rparr>"
  note p = resting_orders_at_repr [OF pad, of orders]
  have h: "snapshot_header_at (snapshot_header_repr ?h) = Some ?h" "length (snapshot_header_repr ?h) = 72"
    using cfg(2) by (subst snapshot_header_at_repr) simp_all
  have "length orders < 2 ^ 64" using cfg by simp
  then have n: "unat (of_nat (length orders) :: u64) = length orders"
    by (simp add: unsigned_of_nat take_bit_nat_eq_self)
  have "snapshot_bytes padding b orders = snapshot_header_repr ?h @ ?payload"
    by (simp add: snapshot_bytes_def Let_def)
  then show ?thesis using h n p cfg(1) by (simp add: read_snapshot_def Let_def sizeof_simps mult.commute split: sum.split)
qed

lemma process_all_same_view:
  assumes "book_invar cfg b" "book_invar cfg b'" "view b' = view b"
  shows "\<exists>b1 b1' es. process_all b cs evs = Some (b1, evs @ es) \<and> process_all b' cs evs' = Some (b1', evs' @ es) \<and>
    view b1' = view b1"
  using assms
proof (induction cs arbitrary: b b' evs evs')
  case (Cons c cs)
  obtain b1 b1' es where s: "process b c evs = Some (b1, evs @ es)" "process b' c evs' = Some (b1', evs' @ es)"
    "book_invar cfg b1" "book_invar cfg b1'" "view b1' = view b1" by (rule process_same_view [OF Cons.prems])
  from Cons.IH [OF s(3-5), of "evs @ es" "evs' @ es"] show ?case using s(1,2) by auto
qed simp

text \<open>
  C21.  A snapshot restores the book.  For a book that any run of fewer than \<open>2 ^ 64\<close> commands has
  produced, a completed \<^verbatim>\<open>write_snapshot\<close> leaves a file from which \<^verbatim>\<open>read_snapshot\<close> builds a book
  with the same orders in the same priority, the same configuration and the same last
  sequence number; from there on it emits, for any commands, the same events as the original
  book.  The padding bytes of each order may hold anything.
\<close>

theorem snapshot_roundtrip:
  assumes "order_book cfg = Inr b0" "length cs < 2 ^ 64" "process_all b0 cs [] = Some (b, es)"
    "\<forall>i. length (padding i) = 7"
  shows "\<exists>b' files'. write_snapshot Completes padding files b = (Inr (), files') \<and>
    read_snapshot (sf_path files') = Inr b' \<and> ob_config b' = cfg \<and> view b' = view b \<and>
    (\<forall>ds. \<exists>b1 b1' es. process_all b ds [] = Some (b1, es) \<and> process_all b' ds [] = Some (b1', es) \<and> view b1' = view b1)"
proof -
  have v: "view b0 = \<lparr>sb_bids = [], sb_asks = [], sb_last_sequence = 0\<rparr>"
    using simulates_view [OF order_book_simulates(1) [OF assms(1)]] by simp
  have re: "reachable cfg b" using process_all_reachable [OF reachable.start [OF assms(1)], of cs "[]"] assms(3) by auto
  have tm: "timed (view b)"
    by (rule process_all_timed [OF reachable.start [OF assms(1)] _ _ assms(3)])
      (use assms(2) in \<open>simp_all add: v timed_def sb_side_def\<close>)
  note inv = reachable_invar [OF re]
  have cfg: "ob_config b = cfg" using inv by (simp add: book_invar_def)
  obtain orders b' where r: "resting_orders b = Some orders"
    "restore b0 (st_last_sequence (ob_stats b)) orders = Inr b'" "book_invar cfg b'" "view b' = view b"
    by (rule restore_succeeds [OF inv tm assms(1)]) blast
  have "maximum_orders cfg < 2 ^ 32"
    using assms(1) checked_price_countD(7) by (auto simp: order_book_def split: sum.splits)
  then have "read_snapshot (Some (snapshot_bytes padding b orders)) = Inr b'"
    using read_snapshot_bytes [OF assms(4), of orders b] length_resting_orders [OF inv r(1)] cfg assms(1) r(2) by simp
  then show ?thesis
    using r(1,3,4) process_all_same_view [OF inv r(3,4), of _ "[]" "[]"] by (simp add: write_snapshot_def book_invar_def)
qed

theorem snapshot_roundtrip_witness:
  "\<exists>b b' files'. write_snapshot Completes (\<lambda>_. replicate 7 0) \<lparr>sf_path = None, sf_temporary = None\<rparr> b = (Inr (), files') \<and>
    read_snapshot (sf_path files') = Inr b' \<and> view b' = view b \<and>
    view b = \<lparr>sb_bids = [], sb_asks = [\<lparr>ro_order_id = 2, ro_side = Sell, ro_price = 1, ro_quantity = 2, ro_priority = 2\<rparr>],
      sb_last_sequence = 3\<rparr>"
proof -
  obtain b0 where b0: "order_book tiny_config = Inr b0" using tiny_book by blast
  have v: "view b0 = \<lparr>sb_bids = [], sb_asks = [], sb_last_sequence = 0\<rparr>"
    using simulates_view [OF order_book_simulates(1) [OF b0]] by simp
  then have "view_side b0 Buy = []" "view_side b0 Sell = []" by (simp_all add: view_def)
  then obtain b where b: "process_all b0 demo_commands [] = Some (b, [] @ snd (spec_run tiny_config (view b0) demo_commands))"
    "view b = fst (spec_run tiny_config (view b0) demo_commands)"
    using process_all_refines [OF reachable.start [OF b0], of demo_commands "[]"]
    by (auto simp: demo_commands_def limit_order_def)
  have "length demo_commands < 2 ^ 64" by (simp add: demo_commands_def)
  then obtain b' files' where "write_snapshot Completes (\<lambda>_. replicate 7 0) \<lparr>sf_path = None, sf_temporary = None\<rparr> b = (Inr (), files')"
    "read_snapshot (sf_path files') = Inr b'" "view b' = view b"
    using snapshot_roundtrip [OF b0 _ b(1), of "\<lambda>_. replicate 7 0" "\<lparr>sf_path = None, sf_temporary = None\<rparr>"] by auto
  moreover have "view b = \<lparr>sb_bids = [], sb_asks = [\<lparr>ro_order_id = 2, ro_side = Sell, ro_price = 1, ro_quantity = 2, ro_priority = 2\<rparr>],
      sb_last_sequence = 3\<rparr>"
    using b(2) unfolding v demo_commands_run by simp
  ultimately show ?thesis by blast
qed

text \<open>
  Replacing a snapshot is all or nothing.  Whatever fails on the way, \<^verbatim>\<open>path\<close> holds the old
  file or the complete new one, and the call succeeds exactly when it holds the new one.
\<close>

theorem snapshot_atomic:
  assumes "reachable cfg b"
  shows "\<exists>orders result files'. resting_orders b = Some orders \<and>
    write_snapshot io padding files b = (result, files') \<and>
    (if io = Completes then result = Inr () \<and> sf_path files' = Some (snapshot_bytes padding b orders) \<and> sf_temporary files' = None
     else result = Inl RuntimeError \<and> sf_path files' = sf_path files)"
proof -
  have "simulates b (view b)" using reachable_invar [OF assms] by (simp add: book_invar_def)
  then obtain orders where "resting_orders b = Some orders" using resting_orders_view by blast
  then show ?thesis by (cases io) (simp_all add: write_snapshot_def Let_def)
qed

theorem snapshot_atomic_witness:
  "\<exists>b files'. write_snapshot (WriteFails 10) (\<lambda>_. replicate 7 0) \<lparr>sf_path = Some [1], sf_temporary = None\<rparr> b =
      (Inl RuntimeError, files') \<and> sf_path files' = Some [1]"
proof -
  obtain b where b: "reachable demo_config b" using demo_book by blast
  show ?thesis
    using snapshot_atomic [OF b, of "WriteFails 10" "\<lambda>_. replicate 7 0" "\<lparr>sf_path = Some [1], sf_temporary = None\<rparr>"]
    by (intro exI [of _ b]) auto
qed

text \<open>
  Loading orders into a new book never faults: too many orders are a logic error, and
  otherwise the orders are taken in sequence of their priorities; the first with an invalid
  price, a zero quantity, a priority beyond the last sequence or a known identifier is a
  runtime error, and without one the book holds them all.
\<close>

theorem restore_errors:
  assumes "order_book cfg = Inr b0"
  shows "if maximum_orders cfg < length orders then restore b0 last_sequence orders = Inl LogicError
    else case spec_load cfg last_sequence \<lparr>sb_bids = [], sb_asks = [], sb_last_sequence = 0\<rparr> (sort_key ro_priority orders) of
        None \<Rightarrow> restore b0 last_sequence orders = Inl RuntimeError
      | Some A \<Rightarrow> (\<exists>b'. restore b0 last_sequence orders = Inr b' \<and> view b' = A\<lparr>sb_last_sequence := last_sequence\<rparr>)"
proof (cases "maximum_orders cfg < length orders")
  case True
  then show ?thesis using restore_new [OF assms] by simp
next
  case False
  then show ?thesis
    using restore_refines [OF assms, of orders last_sequence] simulates_view by (fastforce split: option.splits)
qed

theorem restore_errors_witness:
  "\<exists>b0. order_book tiny_config = Inr b0 \<and>
    restore b0 0 [\<lparr>ro_order_id = 1, ro_side = Buy, ro_price = 1, ro_quantity = 5, ro_priority = 1\<rparr>] = Inl RuntimeError"
proof -
  obtain b0 where b0: "order_book tiny_config = Inr b0" using tiny_book by blast
  show ?thesis
    using restore_errors [OF b0, of "[\<lparr>ro_order_id = 1, ro_side = Buy, ro_price = 1, ro_quantity = 5, ro_priority = 1\<rparr>]" 0] b0
    by (simp add: tiny_config_def)
qed

lemma snapshot_new_book:
  assumes "order_book cfg = Inr b"
  shows "resting_orders b = Some []" "st_last_sequence (ob_stats b) = 0" "ob_config b = cfg"
proof -
  note inv = reachable_invar [OF reachable.start [OF assms]]
  have v: "view b = \<lparr>sb_bids = [], sb_asks = [], sb_last_sequence = 0\<rparr>"
    using simulates_view [OF order_book_simulates(1) [OF assms]] by simp
  then show "st_last_sequence (ob_stats b) = 0" by (simp add: view_def)
  show "ob_config b = cfg" using inv by (simp add: book_invar_def)
  obtain orders where "resting_orders b = Some orders" "mset orders = mset (view_side b Buy @ view_side b Sell)"
    by (rule resting_orders_view [of b "view b"]) (use inv in \<open>auto simp: book_invar_def\<close>)
  then show "resting_orders b = Some []" using v by (simp add: view_def)
qed

text \<open>
  C23.  The checksum of a snapshot covers the resting orders and not the header.  In the snapshot of
  a new book, changing a byte of the last sequence number goes unnoticed: the file is read
  without an error and gives a book with another last sequence number.
\<close>

theorem snapshot_header_unprotected:
  "\<exists>b file b'. order_book tiny_config = Inr b \<and>
    write_snapshot Completes (\<lambda>_. replicate 7 0) \<lparr>sf_path = None, sf_temporary = None\<rparr> b =
      (Inr (), \<lparr>sf_path = Some file, sf_temporary = None\<rparr>) \<and>
    file ! 48 = 0 \<and> read_snapshot (Some (file[48 := 5])) = Inr b' \<and>
    st_last_sequence (ob_stats b) = 0 \<and> st_last_sequence (ob_stats b') = 5"
proof -
  obtain b where b: "order_book tiny_config = Inr b" using tiny_book by blast
  note n = snapshot_new_book [OF b]
  let ?b5 = "b\<lparr>ob_stats := (ob_stats b)\<lparr>st_last_sequence := 5\<rparr>\<rparr>"
  let ?file = "snapshot_bytes (\<lambda>_. replicate 7 0) b []"
  have le: "le_bytes 8 (0 :: u64) = 0 # replicate 7 0" "le_bytes 8 (5 :: u64) = 5 # replicate 7 0" by code_simp+
  have changed: "?file[48 := 5] = snapshot_bytes (\<lambda>_. replicate 7 0) ?b5 []" "?file ! 48 = 0"
    using n(2) by (simp_all add: snapshot_bytes_def orders_repr_def snapshot_header_repr_def file_header_repr_def le snapshot_magic_def
        list_update_append nth_append)
  have "read_snapshot (Some (snapshot_bytes (\<lambda>_. replicate 7 0) ?b5 [])) =
      Inr (b\<lparr>ob_stats := (ob_stats b)\<lparr>st_last_sequence := 5\<rparr>\<rparr>)"
    using read_snapshot_bytes [of "\<lambda>_. replicate 7 0" "[]" ?b5] n(3) b restore_new [OF b, of 5 "[]"] by (simp add: tiny_config_def)
  then show ?thesis using b n changed
    by (intro exI [of _ b] exI [of _ ?file] exI [of _ ?b5]) (simp add: write_snapshot_def)
qed

end
