(* ===== verification/Spsc_Queue.thy ===== *)
theory Spsc_Queue
  imports Dme_Prelude
begin

text \<open>
  The single-producer single-consumer ring buffer of \<^verbatim>\<open>include/dme/spsc_queue.hpp\<close>.  First the
  operations as functions on the queue, their list semantics and the locale \<open>fifo_queue\<close> that
  the runners and the gateway rely on; then the two threads as a step relation whose atomic
  actions are the single loads and stores of \<^verbatim>\<open>try_push\<close> and \<^verbatim>\<open>try_pop\<close>, where a load of the
  other thread's index may return any value of its modification order that is not older than
  one already seen.
\<close>

unbundle bit_operations_syntax

subsection \<open>Operations\<close>

record 'a SpscQueue =
  sq_buffer :: "'a list"
  sq_mask :: nat
  sq_head :: nat
  sq_tail :: nat

definition storage_capacity :: "nat \<Rightarrow> exn + nat" where
  "storage_capacity minimum =
     (let digits = 64; largest_power_of_two = 2 ^ (digits - 1) in
      if minimum = 0 \<or> minimum \<ge> largest_power_of_two then Inl InvalidArgument
      else Inr (bit_ceil (minimum + 1)))"

text \<open>\<open>fill\<close> is the value-initialised element \<^verbatim>\<open>T{}\<close>.\<close>

definition spsc_queue :: "'a \<Rightarrow> nat \<Rightarrow> exn + 'a SpscQueue" where
  "spsc_queue fill minimum_capacity =
     (case storage_capacity minimum_capacity of
        Inl e \<Rightarrow> Inl e
      | Inr n \<Rightarrow> Inr \<lparr>sq_buffer = replicate n fill, sq_mask = n - 1, sq_head = 0, sq_tail = 0\<rparr>)"

definition try_push :: "'a SpscQueue \<Rightarrow> 'a \<Rightarrow> (bool \<times> 'a SpscQueue) option" where
  "try_push q value =
     (let tail = sq_tail q; next = (tail + 1) AND sq_mask q in
      if next = sq_head q then Some (False, q)
      else do {
        buffer \<leftarrow> vec_set (sq_buffer q) tail value;
        Some (True, q\<lparr>sq_buffer := buffer, sq_tail := next\<rparr>)
      })"

text \<open>The popped value, or \<open>None\<close> for the result \<^verbatim>\<open>false\<close>.\<close>

definition try_pop :: "'a SpscQueue \<Rightarrow> ('a option \<times> 'a SpscQueue) option" where
  "try_pop q =
     (let head = sq_head q in
      if head = sq_tail q then Some (None, q)
      else do {
        value \<leftarrow> vec_at (sq_buffer q) head;
        Some (Some value, q\<lparr>sq_head := (head + 1) AND sq_mask q\<rparr>)
      })"

subsection \<open>List semantics\<close>

definition sq_size :: "'a SpscQueue \<Rightarrow> nat" where
  "sq_size q = length (sq_buffer q)"

definition sq_capacity :: "'a SpscQueue \<Rightarrow> nat" where
  "sq_capacity q = sq_size q - 1"

definition sq_count :: "'a SpscQueue \<Rightarrow> nat" where
  "sq_count q = (sq_tail q + sq_size q - sq_head q) mod sq_size q"

definition sq_contents :: "'a SpscQueue \<Rightarrow> 'a list" where
  "sq_contents q = map (\<lambda>i. sq_buffer q ! ((sq_head q + i) mod sq_size q)) [0..<sq_count q]"

definition sq_invar :: "'a SpscQueue \<Rightarrow> bool" where
  "sq_invar q \<longleftrightarrow> pow2 (sq_size q) \<and> 2 \<le> sq_size q \<and> sq_mask q = sq_size q - 1 \<and>
     sq_head q < sq_size q \<and> sq_tail q < sq_size q"

lemma length_sq_buffer [simp]: "length (sq_buffer q) = sq_size q"
  by (simp add: sq_size_def)

lemma sq_size_update [simp]:
  "sq_size (q\<lparr>sq_tail := t\<rparr>) = sq_size q" "sq_size (q\<lparr>sq_head := t\<rparr>) = sq_size q"
  "sq_size (q\<lparr>sq_buffer := (sq_buffer q)[i := x]\<rparr>) = sq_size q"
  by (simp_all add: sq_size_def del: length_sq_buffer)

lemma sq_size_make [simp]: "sq_size \<lparr>sq_buffer = b, sq_mask = m, sq_head = h, sq_tail = t\<rparr> = length b"
  by (simp add: sq_size_def del: length_sq_buffer)

lemma sq_invar_and: "sq_invar q \<Longrightarrow> a AND sq_mask q = a mod sq_size q"
  by (simp add: sq_invar_def pow2_and)

lemma mod_suc_eq: "t < n \<Longrightarrow> Suc t mod n = (if Suc t = n then 0 else Suc t)" for n :: nat
  by (simp add: mod_Suc)

lemma sq_count_cases:
  assumes "sq_invar q"
  shows "sq_count q = (if sq_head q \<le> sq_tail q then sq_tail q - sq_head q else sq_tail q + sq_size q - sq_head q)"
proof (cases "sq_head q \<le> sq_tail q")
  case True
  then have e: "sq_tail q + sq_size q - sq_head q = (sq_tail q - sq_head q) + sq_size q" by simp
  have "sq_tail q - sq_head q < sq_size q" using assms by (auto simp: sq_invar_def)
  then show ?thesis using True unfolding sq_count_def e by (simp only: mod_add_self2 mod_less if_True)
next
  case False
  then have "sq_tail q + sq_size q - sq_head q < sq_size q" using assms by (auto simp: sq_invar_def)
  then show ?thesis using False by (simp add: sq_count_def)
qed

lemma sq_count_bound: "sq_invar q \<Longrightarrow> sq_count q \<le> sq_capacity q"
  by (simp add: sq_count_cases sq_capacity_def) (auto simp: sq_invar_def)

lemma sq_full_iff: "sq_invar q \<Longrightarrow> (sq_tail q + 1) AND sq_mask q = sq_head q \<longleftrightarrow> sq_count q = sq_capacity q"
  by (simp add: sq_invar_and sq_count_cases sq_capacity_def) (auto simp: sq_invar_def mod_suc_eq)

lemma sq_empty_iff: "sq_invar q \<Longrightarrow> sq_head q = sq_tail q \<longleftrightarrow> sq_count q = 0"
  by (simp add: sq_count_cases) (auto simp: sq_invar_def)

lemma length_sq_contents [simp]: "length (sq_contents q) = sq_count q"
  by (simp add: sq_contents_def)

lemma sq_tail_eq: "sq_invar q \<Longrightarrow> (sq_head q + sq_count q) mod sq_size q = sq_tail q"
  by (simp add: sq_count_cases) (auto simp: sq_invar_def)

lemma mod_add_inj:
  fixes n :: nat
  assumes eq: "(a + i) mod n = (a + j) mod n" and less: "i < n" "j < n"
  shows "i = j"
proof -
  have "False" if "(a + i) mod n = (a + j) mod n" "i < j" "j < n" for i j
  proof -
    have "n dvd (a + j) - (a + i)" using that mod_eq_dvd_iff_nat [of "a + i" "a + j" n] by simp
    then show False using that nat_dvd_not_less [of "j - i" n] by simp
  qed
  then show ?thesis using eq less by (metis linorder_neqE_nat)
qed

lemma storage_capacity_pow2:
  assumes "storage_capacity minimum = Inr n"
  shows "pow2 n" "minimum + 1 \<le> n" "n \<le> 2 * minimum" "2 \<le> n" "minimum < 2 ^ 63"
proof -
  have n: "n = bit_ceil (minimum + 1)" "minimum \<noteq> 0" "minimum < 2 ^ 63"
    using assms by (auto simp: storage_capacity_def Let_def split: if_splits)
  show "pow2 n" "minimum + 1 \<le> n" using n(1) pow2_bit_ceil bit_ceil_ge by auto
  then show "2 \<le> n" using n(2) by simp
  show "minimum < 2 ^ 63" by (rule n(3))
  have "bit_ceil (minimum + 1) = 2 ^ bit_width minimum" using n(2) by (simp add: bit_ceil_def)
  then show "n \<le> 2 * minimum" using n two_power_bit_width_le [of minimum] by simp
qed

lemma spsc_queue_new:
  assumes "spsc_queue fill c = Inr q"
  shows "sq_invar q" "sq_contents q = []" "c \<le> sq_capacity q"
proof -
  obtain n where n: "storage_capacity c = Inr n"
    and q: "q = \<lparr>sq_buffer = replicate n fill, sq_mask = n - 1, sq_head = 0, sq_tail = 0\<rparr>"
    using assms by (auto simp: spsc_queue_def split: sum.splits)
  note s = storage_capacity_pow2 [OF n]
  show "sq_invar q" "c \<le> sq_capacity q" using s by (simp_all add: q sq_invar_def sq_capacity_def)
  show "sq_contents q = []" by (simp add: q sq_contents_def sq_count_def)
qed

lemma try_push_full:
  assumes "sq_invar q" "sq_count q = sq_capacity q"
  shows "try_push q x = Some (False, q)"
  using sq_full_iff [OF assms(1)] assms(2) by (simp add: try_push_def Let_def)

lemma try_push_room:
  assumes inv: "sq_invar q" and room: "sq_count q < sq_capacity q"
  shows "\<exists>q'. try_push q x = Some (True, q') \<and> sq_invar q' \<and> sq_contents q' = sq_contents q @ [x] \<and>
    sq_capacity q' = sq_capacity q"
proof -
  let ?n = "sq_size q" and ?t = "sq_tail q" and ?h = "sq_head q"
  let ?q = "q\<lparr>sq_buffer := (sq_buffer q)[?t := x], sq_tail := Suc ?t mod ?n\<rparr>"
  have t: "?t < ?n" "?h < ?n" "0 < ?n" using inv by (auto simp: sq_invar_def)
  have push: "try_push q x = Some (True, ?q)"
    using sq_full_iff [OF inv] room t sq_invar_and [OF inv]
    by (simp add: try_push_def Let_def vec_simps)
  have sz: "sq_size ?q = ?n" by simp
  have inv': "sq_invar ?q" using inv t by (simp add: sq_invar_def)
  have cnt: "sq_count ?q = Suc (sq_count q)"
    using sq_count_cases [OF inv] sq_count_cases [OF inv'] room t
    by (auto simp: sz sq_capacity_def mod_suc_eq split: if_splits)
  have "sq_count q < ?n" using room by (simp add: sq_capacity_def)
  then have "?t \<noteq> (?h + i) mod ?n" if "i < sq_count q" for i
    using mod_add_inj [of ?h i ?n "sq_count q"] sq_tail_eq [OF inv] that by auto
  then have "map (\<lambda>i. sq_buffer ?q ! ((?h + i) mod ?n)) [0..<sq_count q] = sq_contents q"
    by (auto simp: sq_contents_def)
  moreover have "sq_buffer ?q ! ((?h + sq_count q) mod ?n) = x"
    using t by (simp add: sq_tail_eq [OF inv])
  ultimately have "sq_contents ?q = sq_contents q @ [x]"
    by (simp add: sq_contents_def cnt sz)
  then show ?thesis using push inv' by (simp add: sq_capacity_def sz)
qed

lemma try_pop_empty:
  assumes "sq_invar q" "sq_contents q = []"
  shows "try_pop q = Some (None, q)"
  using sq_empty_iff [OF assms(1)] assms(2) by (simp add: try_pop_def sq_contents_def)

lemma try_pop_next:
  assumes inv: "sq_invar q" and contents: "sq_contents q = x # xs"
  shows "\<exists>q'. try_pop q = Some (Some x, q') \<and> sq_invar q' \<and> sq_contents q' = xs \<and> sq_capacity q' = sq_capacity q"
proof -
  let ?n = "sq_size q" and ?t = "sq_tail q" and ?h = "sq_head q"
  let ?q = "q\<lparr>sq_head := Suc ?h mod ?n\<rparr>"
  have t: "?t < ?n" "?h < ?n" "0 < ?n" using inv by (auto simp: sq_invar_def)
  have c: "sq_count q = Suc (length xs)" using contents length_sq_contents [of q] by simp
  have ne: "?h \<noteq> ?t" using sq_empty_iff [OF inv] c by simp
  have "sq_contents q ! 0 = sq_buffer q ! ?h" using c t by (simp add: sq_contents_def del: upt_Suc)
  then have pop: "try_pop q = Some (Some x, ?q)"
    using ne t contents sq_invar_and [OF inv] by (simp add: try_pop_def Let_def vec_simps)
  have sz: "sq_size ?q = ?n" by simp
  have inv': "sq_invar ?q" using inv t by (simp add: sq_invar_def)
  have cnt: "sq_count ?q = length xs"
    using sq_count_cases [OF inv] sq_count_cases [OF inv'] c t ne
    by (auto simp: sz mod_suc_eq split: if_splits)
  have "sq_contents ?q ! i = xs ! i" if "i < length xs" for i
  proof -
    have "sq_contents q ! Suc i = sq_buffer q ! ((?h + Suc i) mod ?n)"
      using that c by (simp add: sq_contents_def del: upt_Suc)
    moreover have "(Suc ?h mod ?n + i) mod ?n = (?h + Suc i) mod ?n" by (simp add: mod_simps)
    ultimately show ?thesis using that cnt contents by (simp add: sq_contents_def sz)
  qed
  then have "sq_contents ?q = xs" using cnt by (intro nth_equalityI) simp_all
  then show ?thesis using pop inv' by (simp add: sq_capacity_def sz)
qed

subsection \<open>The contract of a bounded FIFO\<close>

text \<open>What the runners and the gateway rely on, each from its own thread.\<close>

locale fifo_queue =
  fixes push :: "'q \<Rightarrow> 'a \<Rightarrow> (bool \<times> 'q) option"
    and pop :: "'q \<Rightarrow> ('a option \<times> 'q) option"
    and invar :: "'q \<Rightarrow> bool"
    and contents :: "'q \<Rightarrow> 'a list"
    and capacity :: "'q \<Rightarrow> nat"
  assumes bounded: "invar q \<Longrightarrow> length (contents q) \<le> capacity q"
    and push_full: "invar q \<Longrightarrow> length (contents q) = capacity q \<Longrightarrow> push q x = Some (False, q)"
    and push_room: "invar q \<Longrightarrow> length (contents q) < capacity q \<Longrightarrow>
      \<exists>q'. push q x = Some (True, q') \<and> invar q' \<and> contents q' = contents q @ [x] \<and> capacity q' = capacity q"
    and pop_empty: "invar q \<Longrightarrow> contents q = [] \<Longrightarrow> pop q = Some (None, q)"
    and pop_next: "invar q \<Longrightarrow> contents q = x # xs \<Longrightarrow>
      \<exists>q'. pop q = Some (Some x, q') \<and> invar q' \<and> contents q' = xs \<and> capacity q' = capacity q"
begin

lemma push_cases:
  assumes "invar q"
  obtains (full) "push q x = Some (False, q)" "length (contents q) = capacity q"
  | (pushed) q' where "push q x = Some (True, q')" "invar q'" "contents q' = contents q @ [x]" "capacity q' = capacity q"
      "length (contents q) < capacity q"
  using bounded [OF assms] push_full [OF assms] push_room [OF assms] by (metis le_neq_implies_less)

lemma pop_cases:
  assumes "invar q"
  obtains (empty) "pop q = Some (None, q)" "contents q = []"
  | (popped) x xs q' where "pop q = Some (Some x, q')" "invar q'" "contents q = x # xs" "contents q' = xs" "capacity q' = capacity q"
  using pop_empty [OF assms] pop_next [OF assms] by (metis list.exhaust)

end

interpretation spsc: fifo_queue try_push try_pop sq_invar sq_contents sq_capacity
  by unfold_locales (use sq_count_bound try_push_full try_push_room try_pop_empty try_pop_next in \<open>auto simp: \<close>)

subsection \<open>Two threads\<close>

text \<open>
  The program counters of the two threads with their local variables.  In \<open>PLoaded\<close> the
  producer has read \<^verbatim>\<open>tail_\<close> and is about to load \<^verbatim>\<open>head_\<close>; in \<open>PWriting\<close> it has found room and is
  about to write the slot; in \<open>PPublishing\<close> it is about to store \<^verbatim>\<open>tail_\<close>.  The consumer has the
  same three stages.
\<close>

datatype 'a producer = PIdle | PLoaded nat 'a | PWriting nat nat 'a | PPublishing nat nat 'a

datatype 'a consumer = CIdle | CLoaded nat | CReading nat | CPublishing nat 'a

text \<open>
  \<open>ss_head_stores\<close> and \<open>ss_tail_stores\<close> are the modification orders of the two atomic indices,
  and \<open>ss_head_seen\<close> (\<open>ss_tail_seen\<close>) the position of the newest value the other thread has
  read: by coherence its next load returns that value or a later one.  \<open>ss_sent\<close> and
  \<open>ss_received\<close> record the values of the completed calls.
\<close>

record 'a spsc_state =
  ss_queue :: "'a SpscQueue"
  ss_producer :: "'a producer"
  ss_consumer :: "'a consumer"
  ss_head_stores :: "nat list"
  ss_tail_stores :: "nat list"
  ss_head_seen :: nat
  ss_tail_seen :: nat
  ss_sent :: "'a list"
  ss_received :: "'a list"

definition spsc_start :: "'a SpscQueue \<Rightarrow> 'a spsc_state" where
  "spsc_start q = \<lparr>ss_queue = q, ss_producer = PIdle, ss_consumer = CIdle,
     ss_head_stores = [sq_head q], ss_tail_stores = [sq_tail q], ss_head_seen = 0, ss_tail_seen = 0,
     ss_sent = [], ss_received = []\<rparr>"

inductive spsc_step :: "'a spsc_state \<Rightarrow> 'a spsc_state \<Rightarrow> bool" where
  push_load: "ss_producer s = PIdle \<Longrightarrow>
    spsc_step s (s\<lparr>ss_producer := PLoaded (sq_tail (ss_queue s)) v\<rparr>)"
| push_full: "ss_producer s = PLoaded tail v \<Longrightarrow>
    ss_head_seen s \<le> i \<Longrightarrow> vec_at (ss_head_stores s) i = Some head \<Longrightarrow>
    (tail + 1) AND sq_mask (ss_queue s) = head \<Longrightarrow>
    spsc_step s (s\<lparr>ss_producer := PIdle, ss_head_seen := i\<rparr>)"
| push_room: "ss_producer s = PLoaded tail v \<Longrightarrow>
    ss_head_seen s \<le> i \<Longrightarrow> vec_at (ss_head_stores s) i = Some head \<Longrightarrow>
    nxt = (tail + 1) AND sq_mask (ss_queue s) \<Longrightarrow> nxt \<noteq> head \<Longrightarrow>
    spsc_step s (s\<lparr>ss_producer := PWriting tail nxt v, ss_head_seen := i\<rparr>)"
| push_write: "ss_producer s = PWriting tail nxt v \<Longrightarrow>
    vec_set (sq_buffer (ss_queue s)) tail v = Some buffer \<Longrightarrow>
    spsc_step s (s\<lparr>ss_queue := (ss_queue s)\<lparr>sq_buffer := buffer\<rparr>, ss_producer := PPublishing tail nxt v\<rparr>)"
| push_publish: "ss_producer s = PPublishing tail nxt v \<Longrightarrow>
    spsc_step s (s\<lparr>ss_queue := (ss_queue s)\<lparr>sq_tail := nxt\<rparr>, ss_producer := PIdle,
      ss_tail_stores := ss_tail_stores s @ [nxt], ss_sent := ss_sent s @ [v]\<rparr>)"
| pop_load: "ss_consumer s = CIdle \<Longrightarrow>
    spsc_step s (s\<lparr>ss_consumer := CLoaded (sq_head (ss_queue s))\<rparr>)"
| pop_empty: "ss_consumer s = CLoaded head \<Longrightarrow>
    ss_tail_seen s \<le> i \<Longrightarrow> vec_at (ss_tail_stores s) i = Some head \<Longrightarrow>
    spsc_step s (s\<lparr>ss_consumer := CIdle, ss_tail_seen := i\<rparr>)"
| pop_found: "ss_consumer s = CLoaded head \<Longrightarrow>
    ss_tail_seen s \<le> i \<Longrightarrow> vec_at (ss_tail_stores s) i = Some tail \<Longrightarrow> head \<noteq> tail \<Longrightarrow>
    spsc_step s (s\<lparr>ss_consumer := CReading head, ss_tail_seen := i\<rparr>)"
| pop_read: "ss_consumer s = CReading head \<Longrightarrow>
    vec_at (sq_buffer (ss_queue s)) head = Some v \<Longrightarrow>
    spsc_step s (s\<lparr>ss_consumer := CPublishing head v\<rparr>)"
| pop_publish: "ss_consumer s = CPublishing head v \<Longrightarrow>
    nxt = (head + 1) AND sq_mask (ss_queue s) \<Longrightarrow>
    spsc_step s (s\<lparr>ss_queue := (ss_queue s)\<lparr>sq_head := nxt\<rparr>, ss_consumer := CIdle,
      ss_head_stores := ss_head_stores s @ [nxt], ss_received := ss_received s @ [v]\<rparr>)"

inductive spsc_reachable :: "'a \<Rightarrow> nat \<Rightarrow> 'a spsc_state \<Rightarrow> bool" for fill minimum where
  start: "spsc_queue fill minimum = Inr q \<Longrightarrow> spsc_reachable fill minimum (spsc_start q)"
| step: "spsc_reachable fill minimum s \<Longrightarrow> spsc_step s s' \<Longrightarrow> spsc_reachable fill minimum s'"

text \<open>
  The invariant.  \<open>T\<close> values have been published and \<open>H\<close> taken; the indices are \<open>T\<close> and \<open>H\<close>
  modulo the size of the ring, and the slots from \<open>H\<close> up to \<open>T\<close> hold the values in between.
\<close>

fun producer_ok :: "nat \<Rightarrow> nat \<Rightarrow> nat \<Rightarrow> 'a list \<Rightarrow> 'a producer \<Rightarrow> bool" where
  "producer_ok n T seen buffer PIdle \<longleftrightarrow> True"
| "producer_ok n T seen buffer (PLoaded tail v) \<longleftrightarrow> tail = T mod n"
| "producer_ok n T seen buffer (PWriting tail nxt v) \<longleftrightarrow>
     tail = T mod n \<and> nxt = Suc T mod n \<and> T < seen + (n - 1)"
| "producer_ok n T seen buffer (PPublishing tail nxt v) \<longleftrightarrow>
     tail = T mod n \<and> nxt = Suc T mod n \<and> T < seen + (n - 1) \<and> buffer ! tail = v"

fun consumer_ok :: "nat \<Rightarrow> nat \<Rightarrow> nat \<Rightarrow> 'a list \<Rightarrow> 'a consumer \<Rightarrow> bool" where
  "consumer_ok n H seen sent CIdle \<longleftrightarrow> True"
| "consumer_ok n H seen sent (CLoaded head) \<longleftrightarrow> head = H mod n"
| "consumer_ok n H seen sent (CReading head) \<longleftrightarrow> head = H mod n \<and> H < seen"
| "consumer_ok n H seen sent (CPublishing head v) \<longleftrightarrow> head = H mod n \<and> H < seen \<and> v = sent ! H"

definition ring_ok :: "'a spsc_state \<Rightarrow> bool" where
  "ring_ok s \<longleftrightarrow>
     (let q = ss_queue s; n = sq_size q; T = length (ss_sent s); H = length (ss_received s) in
      sq_invar q \<and> sq_tail q = T mod n \<and> sq_head q = H mod n \<and>
      ss_tail_stores s = map (\<lambda>k. k mod n) [0..<Suc T] \<and> ss_head_stores s = map (\<lambda>k. k mod n) [0..<Suc H] \<and>
      ss_head_seen s \<le> H \<and> H \<le> ss_tail_seen s \<and> ss_tail_seen s \<le> T \<and> T \<le> ss_head_seen s + (n - 1) \<and>
      ss_received s = take H (ss_sent s) \<and>
      (\<forall>k. H \<le> k \<and> k < T \<longrightarrow> sq_buffer q ! (k mod n) = ss_sent s ! k) \<and>
      producer_ok n T (ss_head_seen s) (sq_buffer q) (ss_producer s) \<and>
      consumer_ok n H (ss_tail_seen s) (ss_sent s) (ss_consumer s))"

lemma slots_distinct:
  fixes n :: nat
  assumes "k < j" "j < k + n"
  shows "k mod n \<noteq> j mod n"
proof
  assume "k mod n = j mod n"
  then have "n dvd j - k" using mod_eq_dvd_iff_nat [of k j n] assms(1) by simp
  then show False using assms nat_dvd_not_less [of "j - k" n] by simp
qed

lemma nth_stores: "i \<le> T \<Longrightarrow> vec_at (map (\<lambda>k. k mod n) [0..<Suc T]) i = Some (i mod n)"
  by (simp add: vec_at_def del: upt_Suc)

lemma vec_at_stores: "vec_at (map (\<lambda>k. k mod n) [0..<Suc T]) i = Some v \<Longrightarrow> i \<le> T \<and> v = i mod n"
  by (auto simp: vec_at_def simp del: upt_Suc split: if_splits)

lemma ring_ok_start: "spsc_queue fill minimum = Inr q \<Longrightarrow> ring_ok (spsc_start q)"
proof -
  assume q: "spsc_queue fill minimum = Inr q"
  have "sq_head q = 0" "sq_tail q = 0" using q by (auto simp: spsc_queue_def split: sum.splits)
  then show ?thesis using spsc_queue_new(1) [OF q] by (simp add: ring_ok_def spsc_start_def)
qed

text \<open>The steps that move an index or a slot, one by one; the others change a program counter only.\<close>

lemma ring_okD:
  assumes "ring_ok s"
  shows "ss_tail_stores s = map (\<lambda>k. k mod sq_size (ss_queue s)) [0..<Suc (length (ss_sent s))]"
    "ss_head_stores s = map (\<lambda>k. k mod sq_size (ss_queue s)) [0..<Suc (length (ss_received s))]"
    "sq_invar (ss_queue s)"
  using assms by (simp_all add: ring_ok_def Let_def del: upt_Suc)

lemma ring_ok_push_room:
  fixes s :: "'a spsc_state"
  defines "n \<equiv> sq_size (ss_queue s)" and "T \<equiv> length (ss_sent s)"
  assumes ok: "ring_ok s" and pc: "ss_producer s = PLoaded tail v" and i: "ss_head_seen s \<le> i"
    "vec_at (ss_head_stores s) i = Some head" and nxt: "nxt = (tail + 1) AND sq_mask (ss_queue s)" "nxt \<noteq> head"
  shows "ring_ok (s\<lparr>ss_producer := PWriting tail nxt v, ss_head_seen := i\<rparr>)"
proof -
  have iH: "i \<le> length (ss_received s)" "head = i mod n"
    using vec_at_stores [of n "length (ss_received s)" i head] i(2) ring_okD(2) [OF ok] by (simp_all add: n_def del: upt_Suc)
  have r: "tail = T mod n" "T \<le> ss_head_seen s + (n - 1)" "2 \<le> n"
    using pc ok by (auto simp: ring_ok_def Let_def sq_invar_def n_def T_def simp del: upt_Suc)
  have nx: "nxt = Suc T mod n"
    using nxt(1) r(1) sq_invar_and [OF ring_okD(3) [OF ok]] by (simp add: n_def mod_Suc_eq)
  have "T \<noteq> i + (n - 1)"
  proof
    assume "T = i + (n - 1)"
    then have "Suc T = i + n" using r(3) by simp
    then show False using nxt(2) iH(2) nx by simp
  qed
  then show ?thesis
    using ok i(1) iH(1) r nx by (auto simp: ring_ok_def Let_def n_def T_def simp del: upt_Suc)
qed

lemma ring_ok_push_write:
  fixes s :: "'a spsc_state"
  defines "n \<equiv> sq_size (ss_queue s)" and "T \<equiv> length (ss_sent s)" and "H \<equiv> length (ss_received s)"
  assumes ok: "ring_ok s" and pc: "ss_producer s = PWriting tail nxt v"
    and buffer: "vec_set (sq_buffer (ss_queue s)) tail v = Some buffer"
  shows "ring_ok (s\<lparr>ss_queue := (ss_queue s)\<lparr>sq_buffer := buffer\<rparr>, ss_producer := PPublishing tail nxt v\<rparr>)"
proof -
  have r: "tail = T mod n" "T < ss_head_seen s + (n - 1)" "ss_head_seen s \<le> H" "tail < n"
    "buffer = (sq_buffer (ss_queue s))[tail := v]"
    using pc ok buffer by (auto simp: ring_ok_def Let_def vec_set_def n_def T_def H_def split: if_splits)
  have "tail \<noteq> k mod n" if "H \<le> k" "k < T" for k
  proof -
    have "T < k + n" using that r by linarith
    then show ?thesis using slots_distinct [of k T n] that r(1) by simp
  qed
  then show ?thesis
    using pc ok r by (auto simp: ring_ok_def Let_def sq_invar_def n_def T_def H_def simp del: upt_Suc)
qed

lemma ring_ok_push_publish:
  assumes ok: "ring_ok s" and pc: "ss_producer s = PPublishing tail nxt v"
  shows "ring_ok (s\<lparr>ss_queue := (ss_queue s)\<lparr>sq_tail := nxt\<rparr>, ss_producer := PIdle,
      ss_tail_stores := ss_tail_stores s @ [nxt], ss_sent := ss_sent s @ [v]\<rparr>)"
proof -
  let ?n = "sq_size (ss_queue s)" and ?T = "length (ss_sent s)" and ?H = "length (ss_received s)"
  have "sq_invar ((ss_queue s)\<lparr>sq_tail := nxt\<rparr>)"
    using ok pc by (auto simp: ring_ok_def Let_def sq_invar_def simp del: upt_Suc)
  moreover have "sq_buffer (ss_queue s) ! (k mod ?n) = (ss_sent s @ [v]) ! k" if "?H \<le> k" "k < Suc ?T" for k
    using that ok pc by (cases "k = ?T") (auto simp: ring_ok_def Let_def nth_append simp del: upt_Suc)
  ultimately show ?thesis
    using ok pc by (cases "ss_consumer s") (auto simp: ring_ok_def Let_def nth_append)
qed

lemma ring_ok_pop_found:
  assumes ok: "ring_ok s" and pc: "ss_consumer s = CLoaded head" and i: "ss_tail_seen s \<le> i"
    "vec_at (ss_tail_stores s) i = Some tail" "head \<noteq> tail"
  shows "ring_ok (s\<lparr>ss_consumer := CReading head, ss_tail_seen := i\<rparr>)"
proof -
  let ?n = "sq_size (ss_queue s)" and ?T = "length (ss_sent s)" and ?H = "length (ss_received s)"
  have r: "head = ?H mod ?n" "i \<le> ?T" "tail = i mod ?n" "?H \<le> i"
    using ok pc i vec_at_stores [of ?n ?T i tail] by (auto simp: ring_ok_def Let_def simp del: upt_Suc)
  moreover have "?H \<noteq> i" using r i(3) by auto
  ultimately show ?thesis using ok pc i(1) by (auto simp: ring_ok_def Let_def simp del: upt_Suc)
qed

lemma ring_ok_pop_publish:
  assumes ok: "ring_ok s" and pc: "ss_consumer s = CPublishing head v" and nxt: "nxt = (head + 1) AND sq_mask (ss_queue s)"
  shows "ring_ok (s\<lparr>ss_queue := (ss_queue s)\<lparr>sq_head := nxt\<rparr>, ss_consumer := CIdle,
      ss_head_stores := ss_head_stores s @ [nxt], ss_received := ss_received s @ [v]\<rparr>)"
proof -
  let ?n = "sq_size (ss_queue s)" and ?H = "length (ss_received s)"
  have "nxt = Suc ?H mod ?n" "0 < ?n"
    using ok pc nxt sq_invar_and [OF ring_okD(3) [OF ok]]
    by (auto simp: ring_ok_def Let_def mod_Suc_eq sq_invar_def simp del: upt_Suc)
  moreover have "ss_received s @ [v] = take (Suc ?H) (ss_sent s)"
    using ok pc by (auto simp: ring_ok_def Let_def take_Suc_conv_app_nth simp del: upt_Suc)
  ultimately show ?thesis
    using ok pc by (cases "ss_producer s") (auto simp: ring_ok_def Let_def sq_invar_def)
qed

lemma ring_ok_step:
  assumes "spsc_step s s'" "ring_ok s"
  shows "ring_ok s'"
  using assms
proof (cases rule: spsc_step.cases)
  case (push_full tail v i head)
  then show ?thesis
    using assms(2) vec_at_stores [of "sq_size (ss_queue s)" "length (ss_received s)" i head]
    by (auto simp: ring_ok_def Let_def simp del: upt_Suc)
next
  case (pop_empty head i)
  then show ?thesis
    using assms(2) vec_at_stores [of "sq_size (ss_queue s)" "length (ss_sent s)" i head]
    by (auto simp: ring_ok_def Let_def simp del: upt_Suc)
next
  case (pop_read head v)
  then show ?thesis using assms(2) by (auto simp: ring_ok_def Let_def vec_at_eq_Some_iff simp del: upt_Suc)
qed (auto simp: ring_ok_push_room ring_ok_push_write ring_ok_push_publish ring_ok_pop_found ring_ok_pop_publish,
    auto simp: ring_ok_def Let_def simp del: upt_Suc)

lemma reachable_ring_ok: "spsc_reachable fill minimum s \<Longrightarrow> ring_ok s"
  by (induction rule: spsc_reachable.induct) (auto intro: ring_ok_start ring_ok_step)

text \<open>A thread that runs alone and loads the newest value of the other index.\<close>

lemma push_completes:
  assumes ok: "ring_ok s" and pc: "ss_producer s = PIdle"
    and room: "length (ss_sent s) < length (ss_received s) + sq_capacity (ss_queue s)"
  shows "\<exists>s'. spsc_step\<^sup>*\<^sup>* s s' \<and> ss_producer s' = PIdle \<and> ss_sent s' = ss_sent s @ [v] \<and> ss_received s' = ss_received s"
proof -
  let ?q = "ss_queue s" and ?n = "sq_size (ss_queue s)" and ?T = "length (ss_sent s)" and ?H = "length (ss_received s)"
  let ?t = "?T mod ?n" and ?x = "Suc ?T mod ?n"
  have r: "sq_tail ?q = ?t" "sq_invar ?q" "ss_head_seen s \<le> ?H" "?H \<le> ?T" "0 < ?n" "?t < ?n"
    using ok by (auto simp: ring_ok_def Let_def sq_invar_def simp del: upt_Suc)
  let ?s1 = "s\<lparr>ss_producer := PLoaded ?t v\<rparr>"
  let ?s2 = "s\<lparr>ss_producer := PWriting ?t ?x v, ss_head_seen := ?H\<rparr>"
  let ?b = "(sq_buffer ?q)[?t := v]"
  let ?s3 = "?s2\<lparr>ss_queue := ?q\<lparr>sq_buffer := ?b\<rparr>, ss_producer := PPublishing ?t ?x v\<rparr>"
  let ?s4 = "?s3\<lparr>ss_queue := ?q\<lparr>sq_buffer := ?b, sq_tail := ?x\<rparr>, ss_producer := PIdle,
      ss_tail_stores := ss_tail_stores s @ [?x], ss_sent := ss_sent s @ [v]\<rparr>"
  have "spsc_step s ?s1" using push_load [OF pc, of v] r(1) by simp
  moreover have "spsc_step ?s1 ?s2"
  proof -
    have "?H < Suc ?T" "Suc ?T < ?H + ?n" using room r(4) by (simp_all add: sq_capacity_def)
    then have "?x \<noteq> ?H mod ?n" using slots_distinct [of ?H "Suc ?T" ?n] by simp
    moreover have "vec_at (ss_head_stores ?s1) ?H = Some (?H mod ?n)"
      using nth_stores [of ?H ?H ?n] ring_okD(2) [OF ok] by (simp del: upt_Suc)
    ultimately show ?thesis
      using push_room [of ?s1 ?t v ?H "?H mod ?n" ?x] r(3) sq_invar_and [OF r(2)] by (simp add: mod_Suc_eq)
  qed
  moreover have "spsc_step ?s2 ?s3" using push_write [of ?s2 ?t ?x v ?b] r(6) by (simp add: vec_simps)
  moreover have "spsc_step ?s3 ?s4" using push_publish [of ?s3 ?t ?x v] by simp
  ultimately have "spsc_step\<^sup>*\<^sup>* s ?s4" by (meson converse_rtranclp_into_rtranclp rtranclp.rtrancl_refl)
  then show ?thesis by (intro exI [of _ ?s4]) simp
qed

lemma pop_completes:
  assumes ok: "ring_ok s" and pc: "ss_consumer s = CIdle"
    and waiting: "length (ss_received s) < length (ss_sent s)"
  shows "\<exists>s'. spsc_step\<^sup>*\<^sup>* s s' \<and> ss_consumer s' = CIdle \<and> ss_sent s' = ss_sent s \<and>
    ss_received s' = ss_received s @ [ss_sent s ! length (ss_received s)]"
proof -
  let ?q = "ss_queue s" and ?n = "sq_size (ss_queue s)" and ?T = "length (ss_sent s)" and ?H = "length (ss_received s)"
  let ?h = "?H mod ?n" and ?v = "ss_sent s ! ?H" and ?x = "(?H mod ?n + 1) AND sq_mask ?q"
  have r: "sq_head ?q = ?h" "sq_invar ?q" "ss_tail_seen s \<le> ?T" "?T \<le> ?H + (?n - 1)" "?h < ?n"
    "sq_buffer ?q ! ?h = ?v"
    using ok waiting by (auto simp: ring_ok_def Let_def sq_invar_def simp del: upt_Suc)
  let ?s1 = "s\<lparr>ss_consumer := CLoaded ?h\<rparr>"
  let ?s2 = "s\<lparr>ss_consumer := CReading ?h, ss_tail_seen := ?T\<rparr>"
  let ?s3 = "?s2\<lparr>ss_consumer := CPublishing ?h ?v\<rparr>"
  let ?s4 = "?s3\<lparr>ss_queue := ?q\<lparr>sq_head := ?x\<rparr>, ss_consumer := CIdle,
      ss_head_stores := ss_head_stores s @ [?x], ss_received := ss_received s @ [?v]\<rparr>"
  have "spsc_step s ?s1" using pop_load [OF pc] r(1) by simp
  moreover have "spsc_step ?s1 ?s2"
  proof -
    have "?h \<noteq> ?T mod ?n" using slots_distinct [of ?H ?T ?n] waiting r(4,5) by simp
    moreover have "vec_at (ss_tail_stores ?s1) ?T = Some (?T mod ?n)"
      using nth_stores [of ?T ?T ?n] ring_okD(1) [OF ok] by (simp del: upt_Suc)
    ultimately show ?thesis using pop_found [of ?s1 ?h ?T "?T mod ?n"] r(3) by simp
  qed
  moreover have "spsc_step ?s2 ?s3" using pop_read [of ?s2 ?h ?v] r(5,6) by (simp add: vec_at_def)
  moreover have "spsc_step ?s3 ?s4" using pop_publish [of ?s3 ?h ?v ?x] by simp
  ultimately have "spsc_step\<^sup>*\<^sup>* s ?s4" by (meson converse_rtranclp_into_rtranclp rtranclp.rtrancl_refl)
  then show ?thesis by (intro exI [of _ ?s4]) simp
qed

subsection \<open>Properties\<close>

text \<open>
  C22.  The queue is a FIFO under every interleaving.  Whatever the two threads have done, and
  however stale the index values they read, the values popped are a prefix of the values
  pushed, in order and without loss or duplication; at most the capacity is in between, and
  the capacity is at least the one requested.
\<close>

theorem spsc_fifo:
  assumes "spsc_reachable fill minimum s"
  shows "ss_sent s = ss_received s @ drop (length (ss_received s)) (ss_sent s) \<and>
    length (ss_sent s) \<le> length (ss_received s) + sq_capacity (ss_queue s) \<and>
    minimum \<le> sq_capacity (ss_queue s)"
proof (intro conjI)
  note ok = reachable_ring_ok [OF assms]
  have "ss_received s = take (length (ss_received s)) (ss_sent s)"
    using ok by (simp add: ring_ok_def Let_def)
  then show "ss_sent s = ss_received s @ drop (length (ss_received s)) (ss_sent s)"
    by (metis append_take_drop_id)
  show "length (ss_sent s) \<le> length (ss_received s) + sq_capacity (ss_queue s)"
    using ok by (simp add: ring_ok_def Let_def sq_capacity_def)
  show "minimum \<le> sq_capacity (ss_queue s)"
    using assms
  proof (induction rule: spsc_reachable.induct)
    case (start q)
    then show ?case using spsc_queue_new(3) [OF start] by (simp add: spsc_start_def)
  next
    case (step s s')
    have "sq_size (ss_queue s') = sq_size (ss_queue s)"
      using step.hyps(2) by (cases rule: spsc_step.cases) (auto simp: vec_set_def split: if_splits)
    then show ?case using step.IH by (simp add: sq_capacity_def)
  qed
qed

definition quad :: "nat SpscQueue" where
  "quad = \<lparr>sq_buffer = [0, 0, 0, 0], sq_mask = 3, sq_head = 0, sq_tail = 0\<rparr>"

lemma quad_new: "spsc_queue 0 2 = Inr quad"
  by code_simp

text \<open>A push of 5 interleaved with a pop, up to the point where the consumer has read the slot.\<close>

definition quad_pushed :: "nat spsc_state" where
  "quad_pushed = (spsc_start quad)\<lparr>ss_queue := quad\<lparr>sq_buffer := [5, 0, 0, 0], sq_tail := 1\<rparr>,
     ss_tail_stores := [0, 1], ss_sent := [5]\<rparr>"

lemma quad_push: "spsc_reachable 0 2 quad_pushed"
proof -
  let ?s = "spsc_start quad" and ?q = "quad\<lparr>sq_buffer := [5, 0, 0, 0]\<rparr>"
  have "spsc_reachable 0 2 ?s" by (rule spsc_reachable.start [OF quad_new])
  moreover have "spsc_step ?s (?s\<lparr>ss_producer := PLoaded 0 5\<rparr>)"
    using push_load [of ?s 5] by (simp add: spsc_start_def quad_def quad_pushed_def)
  moreover have "spsc_step (?s\<lparr>ss_producer := PLoaded 0 5\<rparr>) (?s\<lparr>ss_producer := PWriting 0 1 5\<rparr>)"
    using push_room [of "?s\<lparr>ss_producer := PLoaded 0 5\<rparr>" 0 5 0 0 1] by (simp add: spsc_start_def quad_def quad_pushed_def vec_at_def)
  moreover have "spsc_step (?s\<lparr>ss_producer := PWriting 0 1 5\<rparr>) (?s\<lparr>ss_queue := ?q, ss_producer := PPublishing 0 1 5\<rparr>)"
    using push_write [of "?s\<lparr>ss_producer := PWriting 0 1 5\<rparr>" 0 1 5 "[5, 0, 0, 0]"]
    by (simp add: spsc_start_def quad_def vec_set_def)
  moreover have "spsc_step (?s\<lparr>ss_queue := ?q, ss_producer := PPublishing 0 1 5\<rparr>)
      (?s\<lparr>ss_queue := ?q\<lparr>sq_tail := 1\<rparr>, ss_tail_stores := [0, 1], ss_sent := [5]\<rparr>)"
    using push_publish [of "?s\<lparr>ss_queue := ?q, ss_producer := PPublishing 0 1 5\<rparr>" 0 1 5]
    by (simp add: spsc_start_def quad_def quad_pushed_def)
  ultimately show ?thesis unfolding quad_pushed_def by (blast intro: spsc_reachable.step)
qed

theorem spsc_fifo_witness:
  "\<exists>s :: nat spsc_state. ss_sent s = [5] \<and> ss_sent s = ss_received s @ drop (length (ss_received s)) (ss_sent s) \<and>
    length (ss_sent s) \<le> length (ss_received s) + sq_capacity (ss_queue s)"
  using spsc_fifo [OF quad_push] by (intro exI [of _ quad_pushed]) (simp add: quad_pushed_def)

text \<open>
  C24.  The threads never race on a slot: when the producer is about to write a slot and the
  consumer about to read one, the slots are different, and both lie inside the buffer.
\<close>

theorem spsc_race_free:
  assumes "spsc_reachable fill minimum s"
    "ss_producer s = PWriting tail nxt v" "ss_consumer s = CReading head"
  shows "tail \<noteq> head \<and> tail < length (sq_buffer (ss_queue s)) \<and> head < length (sq_buffer (ss_queue s))"
proof -
  let ?n = "sq_size (ss_queue s)" and ?T = "length (ss_sent s)" and ?H = "length (ss_received s)"
  have r: "tail = ?T mod ?n" "head = ?H mod ?n" "?H < ?T" "?T < ?H + (?n - 1)" "0 < ?n"
    using reachable_ring_ok [OF assms(1)] assms(2,3) by (auto simp: ring_ok_def Let_def sq_invar_def simp del: upt_Suc)
  then have "?T < ?H + ?n" by linarith
  then show ?thesis using slots_distinct [of ?H ?T ?n] r by simp
qed

theorem spsc_race_free_witness:
  "\<exists>s :: nat spsc_state. ss_producer s = PWriting 1 2 6 \<and> ss_consumer s = CReading 0 \<and>
    (1 :: nat) \<noteq> 0 \<and> 1 < length (sq_buffer (ss_queue s)) \<and> 0 < length (sq_buffer (ss_queue s))"
proof -
  let ?s = quad_pushed
  let ?s1 = "?s\<lparr>ss_consumer := CReading 0, ss_tail_seen := 1\<rparr>"
  have "spsc_step ?s (?s\<lparr>ss_consumer := CLoaded 0\<rparr>)"
    using pop_load [of ?s] by (simp add: spsc_start_def quad_def quad_pushed_def)
  moreover have "spsc_step (?s\<lparr>ss_consumer := CLoaded 0\<rparr>) ?s1"
    using pop_found [of "?s\<lparr>ss_consumer := CLoaded 0\<rparr>" 0 1 1] by (simp add: spsc_start_def quad_def quad_pushed_def vec_at_def)
  moreover have "spsc_step ?s1 (?s1\<lparr>ss_producer := PLoaded 1 6\<rparr>)"
    using push_load [of ?s1 6] by (simp add: spsc_start_def quad_def quad_pushed_def)
  moreover have "spsc_step (?s1\<lparr>ss_producer := PLoaded 1 6\<rparr>) (?s1\<lparr>ss_producer := PWriting 1 2 6\<rparr>)"
    using push_room [of "?s1\<lparr>ss_producer := PLoaded 1 6\<rparr>" 1 6 0 0 2]
    by (simp add: spsc_start_def quad_def quad_pushed_def vec_at_def flip: numeral_2_eq_2)
  ultimately have "spsc_reachable 0 2 (?s1\<lparr>ss_producer := PWriting 1 2 6\<rparr>)"
    using quad_push by (blast intro: spsc_reachable.step)
  from spsc_race_free [OF this, of 1 2 6 0] show ?thesis
    by (intro exI [of _ "?s1\<lparr>ss_producer := PWriting 1 2 6\<rparr>"]) simp
qed

text \<open>
  Neither thread can get stuck.  In every reachable state a producer that has started can
  finish: running alone it completes its push when there is room, and a consumer running
  alone completes its pop when a value is waiting.
\<close>

theorem spsc_completes:
  assumes "spsc_reachable fill minimum s"
  shows "(ss_producer s = PIdle \<and> length (ss_sent s) < length (ss_received s) + sq_capacity (ss_queue s) \<longrightarrow>
      (\<exists>s'. spsc_step\<^sup>*\<^sup>* s s' \<and> ss_producer s' = PIdle \<and> ss_sent s' = ss_sent s @ [v] \<and>
        ss_received s' = ss_received s)) \<and>
    (ss_consumer s = CIdle \<and> length (ss_received s) < length (ss_sent s) \<longrightarrow>
      (\<exists>s'. spsc_step\<^sup>*\<^sup>* s s' \<and> ss_consumer s' = CIdle \<and> ss_sent s' = ss_sent s \<and>
        ss_received s' = ss_received s @ [ss_sent s ! length (ss_received s)]))"
  using push_completes [OF reachable_ring_ok [OF assms]] pop_completes [OF reachable_ring_ok [OF assms]] by blast

theorem spsc_completes_witness:
  "\<exists>s s' :: nat spsc_state. ss_sent s = [5] \<and> spsc_step\<^sup>*\<^sup>* s s' \<and> ss_received s' = [5]"
proof -
  let ?s = quad_pushed
  have s: "ss_consumer ?s = CIdle" "ss_received ?s = []" "ss_sent ?s = [5]" by (simp_all add: quad_pushed_def spsc_start_def)
  then obtain s' where "spsc_step\<^sup>*\<^sup>* ?s s'" "ss_received s' = [5]"
    using conjunct2 [OF spsc_completes [OF quad_push, of 6]] by auto
  then show ?thesis using s by (intro exI [of _ ?s] exI [of _ s'] conjI)
qed

end
