(* ===== verification/Gateway.thy ===== *)
theory Gateway
  imports Protocol
begin

text \<open>
  The checks a gateway applies to a decoded request (\<^verbatim>\<open>include/dme/gateway.hpp\<close>,
  \<^verbatim>\<open>src/gateway.cpp\<close>): risk limits without overflow, contiguous client sequence numbers of a
  session, and the event of a rejection that never reaches the engine.
\<close>

subsection \<open>Structures\<close>

record RiskLimits =
  rl_maximum_quantity :: Quantity
  rl_maximum_price :: Price
  rl_maximum_notional :: u64

definition default_limits :: RiskLimits where
  "default_limits = \<lparr>rl_maximum_quantity = 1000000, rl_maximum_price = 1000000000,
     rl_maximum_notional = 100000000000\<rparr>"

record GatewayRequest =
  gq_session_id :: u32
  gq_client_sequence :: u64
  gq_command :: Command

record GatewayResponse =
  gs_session_id :: u32
  gs_client_sequence :: u64
  gs_event :: Event

record SessionValidator =
  sv_session_id :: u32
  sv_next_sequence :: u64
  sv_limits :: RiskLimits

definition session_validator :: "u32 \<Rightarrow> RiskLimits \<Rightarrow> SessionValidator" where
  "session_validator session_id limits =
     \<lparr>sv_session_id = session_id, sv_next_sequence = 1, sv_limits = limits\<rparr>"

subsection \<open>Operations\<close>

definition violates_risk :: "SessionValidator \<Rightarrow> Command \<Rightarrow> bool" where
  "violates_risk v command =
     (let limits = sv_limits v in
      if c_type command = Cancel then False
      else if c_quantity command = 0 \<or> c_quantity command > rl_maximum_quantity limits then True
      else if c_order_type command = Market \<and> c_type command = New then False
      else if sint (c_price command) \<le> 0 \<or> sint (c_price command) > sint (rl_maximum_price limits) then True
      else
        let price = c_price command in
        if price \<noteq> 0 \<and> c_quantity command > rl_maximum_notional limits div price then True
        else price * c_quantity command > rl_maximum_notional limits)"

definition validate_and_advance :: "SessionValidator \<Rightarrow> Request \<Rightarrow> RejectReason \<times> SessionValidator" where
  "validate_and_advance v request =
     (if rq_session_id request \<noteq> sv_session_id v \<or> rq_client_sequence request \<noteq> sv_next_sequence v
      then (InvalidSessionSequence, v)
      else
        let v1 = v\<lparr>sv_next_sequence := sv_next_sequence v + 1\<rparr> in
        if violates_risk v1 (rq_command request) then (RiskLimit, v1) else (NoReason, v1))"

definition next_client_sequence :: "SessionValidator \<Rightarrow> u64" where
  "next_client_sequence v = sv_next_sequence v"

definition gateway_rejection :: "Request \<Rightarrow> RejectReason \<Rightarrow> Event" where
  "gateway_rejection request reason =
     default_event\<lparr>e_type := Rejected, e_aggressor_side := c_side (rq_command request), e_reason := reason,
       e_order_id := c_order_id (rq_command request), e_price := c_price (rq_command request),
       e_quantity := c_quantity (rq_command request)\<rparr>"

subsection \<open>Risk limits are exact\<close>

lemma unat_positive_price:
  assumes "0 < sint (p :: i64)"
  shows "int (unat p) = sint p" "p \<noteq> 0"
proof -
  show "p \<noteq> 0" using assms by auto
  have "take_bit 64 (sint p) = sint p" using assms sint_lt [of p] by (intro take_bit_int_eq_self) simp_all
  then have "uint p = sint p" using uint_sint [of p] by simp
  then show "int (unat p) = sint p" by simp
qed

lemma notional_exact:
  fixes q p n :: u64
  assumes "p \<noteq> 0"
  shows "(q > n div p \<or> p * q > n) \<longleftrightarrow> unat p * unat q > unat n"
proof -
  have pos: "0 < unat p" using assms by (simp add: unat_gt_0)
  have div: "q > n div p \<longleftrightarrow> unat q > unat n div unat p" by (simp add: word_less_nat_alt unat_div_distrib)
  have gt: "unat n div unat p < unat q \<longleftrightarrow> unat n < unat q * unat p" using pos by (simp add: div_less_iff_less_mult)
  show ?thesis
  proof (cases "unat p * unat q > unat n")
    case True
    then show ?thesis using div gt by (simp add: mult.commute)
  next
    case False
    then have "unat p * unat q < 2 ^ 64" using unsigned_less [of n, where ?'a = nat] by simp
    then have "unat (p * q) = unat p * unat q" by (simp add: unat_word_ariths)
    then show ?thesis using False div gt by (simp add: word_less_nat_alt mult.commute)
  qed
qed

text \<open>
  C26.  The risk check computes what it means to: although it works with 64-bit products, a
  command is refused exactly when its quantity is zero or above the limit, or (unless it is
  a new market order) its price is not positive or above the limit, or the true product of
  price and quantity exceeds the notional limit.  Cancels always pass.
\<close>

theorem risk_check_exact:
  "violates_risk v command \<longleftrightarrow>
    c_type command \<noteq> Cancel \<and>
    (c_quantity command = 0 \<or> unat (c_quantity command) > unat (rl_maximum_quantity (sv_limits v)) \<or>
     \<not> (c_order_type command = Market \<and> c_type command = New) \<and>
       (sint (c_price command) \<le> 0 \<or> sint (c_price command) > sint (rl_maximum_price (sv_limits v)) \<or>
        sint (c_price command) * int (unat (c_quantity command)) > int (unat (rl_maximum_notional (sv_limits v)))))"
proof -
  let ?p = "c_price command" and ?q = "c_quantity command" and ?n = "rl_maximum_notional (sv_limits v)"
  have "(?q > ?n div ?p \<or> ?p * ?q > ?n) \<longleftrightarrow> sint ?p * int (unat ?q) > int (unat ?n)" if "0 < sint ?p"
  proof -
    note p = unat_positive_price [OF that]
    have "sint ?p * int (unat ?q) = int (unat ?p * unat ?q)" using p(1) by simp
    then show ?thesis using notional_exact [OF p(2), of ?n ?q] by (simp only: of_nat_less_iff)
  qed
  moreover have "0 < sint ?p \<Longrightarrow> ?p \<noteq> 0" using unat_positive_price(2) .
  ultimately show ?thesis
    by (auto simp: violates_risk_def Let_def word_less_nat_alt not_le)
qed

subsection \<open>Sessions\<close>

fun validate_all :: "SessionValidator \<Rightarrow> Request list \<Rightarrow> RejectReason list \<times> SessionValidator" where
  "validate_all v [] = ([], v)"
| "validate_all v (request # requests) =
     (case validate_and_advance v request of (reason, v1) \<Rightarrow>
      case validate_all v1 requests of (reasons, v2) \<Rightarrow> (reason # reasons, v2))"

lemma validate_and_advance_cases:
  obtains "validate_and_advance v request = (InvalidSessionSequence, v)"
      "rq_session_id request \<noteq> sv_session_id v \<or> rq_client_sequence request \<noteq> sv_next_sequence v"
  | reason where "validate_and_advance v request = (reason, v\<lparr>sv_next_sequence := sv_next_sequence v + 1\<rparr>)"
      "reason \<in> {NoReason, RiskLimit}" "reason = RiskLimit \<longleftrightarrow> violates_risk v (rq_command request)"
      "rq_session_id request = sv_session_id v" "rq_client_sequence request = sv_next_sequence v"
proof (cases "rq_session_id request \<noteq> sv_session_id v \<or> rq_client_sequence request \<noteq> sv_next_sequence v")
  case True
  then show thesis using that(1) by (simp add: validate_and_advance_def)
next
  case False
  have "violates_risk (v\<lparr>sv_next_sequence := n\<rparr>) c = violates_risk v c" for n c by (simp add: violates_risk_def)
  then show thesis
    using False that(2) [of "if violates_risk v (rq_command request) then RiskLimit else NoReason"]
    by (simp add: validate_and_advance_def Let_def)
qed

text \<open>
  C27.  A session consumes client sequence numbers one by one.  Over any sequence of requests,
  those that are not answered with an invalid-sequence rejection carry the session's
  identifier and the numbers 1, 2, 3, ... without gap or repetition, whether they pass the
  risk check or not; the next number expected is one more than their count.
\<close>

theorem session_sequence_contiguous:
  assumes "validate_all (session_validator session_id limits) requests = (reasons, v)"
  defines "admitted \<equiv> map fst (filter (\<lambda>(r, reason). reason \<noteq> InvalidSessionSequence) (zip requests reasons))"
  shows "length reasons = length requests \<and> (\<forall>r \<in> set admitted. rq_session_id r = session_id) \<and>
    map rq_client_sequence admitted = map (\<lambda>i. of_nat (Suc i)) [0..<length admitted] \<and>
    next_client_sequence v = of_nat (Suc (length admitted))"
proof -
  have "length reasons = length requests \<and>
      (let a = map fst (filter (\<lambda>(r, reason). reason \<noteq> InvalidSessionSequence) (zip requests reasons)) in
       (\<forall>r \<in> set a. rq_session_id r = session_id) \<and>
       map rq_client_sequence a = map (\<lambda>i. of_nat (n + i)) [0..<length a] \<and>
       sv_next_sequence v = of_nat (n + length a))"
    if "validate_all v0 requests = (reasons, v)" "sv_session_id v0 = session_id" "sv_next_sequence v0 = of_nat n" for v0 n
    using that
  proof (induction requests arbitrary: v0 n reasons)
    case (Cons request requests)
    obtain reason v1 rest where r: "validate_and_advance v0 request = (reason, v1)"
      "validate_all v1 requests = (rest, v)" "reasons = reason # rest"
      using Cons.prems(1) by (auto split: prod.splits)
    show ?case
    proof (rule validate_and_advance_cases [of v0 request])
      assume "validate_and_advance v0 request = (InvalidSessionSequence, v0)"
      then show ?thesis using Cons.IH [OF r(2), of n] Cons.prems r by (simp add: Let_def)
    next
      fix rs assume a: "validate_and_advance v0 request = (rs, v0\<lparr>sv_next_sequence := sv_next_sequence v0 + 1\<rparr>)"
        "rs \<in> {NoReason, RiskLimit}" "rq_session_id request = sv_session_id v0" "rq_client_sequence request = sv_next_sequence v0"
      have "sv_next_sequence v1 = of_nat (Suc n)" "sv_session_id v1 = session_id"
        using a(1) r(1) Cons.prems by (simp_all add: add.commute)
      from Cons.IH [OF r(2) this(2,1)] a r Cons.prems show ?thesis
        by (auto simp: Let_def upt_conv_Cons map_Suc_upt [symmetric] simp del: upt_Suc)
    qed
  qed (simp add: Let_def)
  from this [OF assms(1), of 1] show ?thesis
    by (simp add: session_validator_def admitted_def Let_def next_client_sequence_def)
qed

theorem session_sequence_contiguous_witness:
  "fst (validate_all (session_validator 7 default_limits) [sample_request, sample_request]) = [RiskLimit, InvalidSessionSequence] \<and>
   next_client_sequence (snd (validate_all (session_validator 7 default_limits) [sample_request, sample_request])) = 2"
proof -
  have r: "validate_all (session_validator 7 default_limits) [sample_request, sample_request] =
      ([RiskLimit, InvalidSessionSequence], \<lparr>sv_session_id = 7, sv_next_sequence = 2, sv_limits = default_limits\<rparr>)"
    by (simp add: session_validator_def validate_and_advance_def violates_risk_def default_limits_def sample_request_def
        default_command_def Let_def)
  from session_sequence_contiguous [OF r] show ?thesis by (simp only: r fst_conv snd_conv) (simp add: next_client_sequence_def)
qed
end
