(* ===== verification/Runner.thy ===== *)
theory Runner
  imports Journal Spsc_Queue Gateway
begin

text \<open>
  The engine threads: \<^verbatim>\<open>EngineRunner::run\<close> (\<^verbatim>\<open>include/dme/engine_runner.hpp\<close>) and
  \<^verbatim>\<open>GatewayEngineRunner::run\<close> (\<^verbatim>\<open>src/gateway.cpp\<close>), and the replay tool \<^verbatim>\<open>apps/replay.cpp\<close>.

  Both loops have the same shape: pop a request, journal its command, process it, publish its
  events one by one under backpressure.  They differ in how a request gives a command
  (\<open>prepare\<close>, with the state the runner keeps for it) and how an event gives a response
  (\<open>reply\<close>), which are therefore arguments of the shared definitions.  One step of the model is
  one pass of the outer loop up to the events, or one attempt to publish an event; what other
  threads and the file system decide (the value of \<^verbatim>\<open>stop\<close>, how much of a record is written, the
  values of padding bytes) are arguments of the step.  A pop or push that reads a stale index and
  reports an empty or full queue is a step that changes nothing.
\<close>

subsection \<open>One pass of the loop\<close>

datatype 'i phase = Polling | Publishing 'i "Event list" | Returned | Thrown exn

record ('s, 'i, 'o) runner =
  rn_book :: OrderBook
  rn_input :: "'i SpscQueue"
  rn_output :: "'o SpscQueue"
  rn_journal :: "JournalWriter option"
  rn_sequence :: 's
  rn_phase :: "'i phase"

definition log_command :: "JournalWriter option \<Rightarrow> nat option \<Rightarrow> u8 list \<Rightarrow> u8 list \<Rightarrow> Command \<Rightarrow>
    (exn + unit) \<times> JournalWriter option" where
  "log_command journal failure padding copy_padding command =
     (case journal of
        None \<Rightarrow> (Inr (), None)
      | Some w \<Rightarrow> (case journal_append w failure padding copy_padding command of (result, w') \<Rightarrow> (result, Some w')))"

definition finish :: "nat option \<Rightarrow> ('s, 'i, 'o) runner \<Rightarrow> ('s, 'i, 'o) runner" where
  "finish failure r =
     (case rn_journal r of
        None \<Rightarrow> r\<lparr>rn_phase := Returned\<rparr>
      | Some w \<Rightarrow>
          (case journal_flush w (failure = None) of
             Inl e \<Rightarrow> r\<lparr>rn_phase := Thrown e\<rparr>
           | Inr w' \<Rightarrow> r\<lparr>rn_journal := Some w', rn_phase := Returned\<rparr>))"

definition poll :: "('s \<Rightarrow> 'i \<Rightarrow> Command \<times> 's) \<Rightarrow> bool \<Rightarrow> nat option \<Rightarrow> u8 list \<Rightarrow> u8 list \<Rightarrow>
    ('s, 'i, 'o) runner \<Rightarrow> ('s, 'i, 'o) runner option" where
  "poll prepare stop failure padding copy_padding r =
     (if stop then Some (finish failure r)
      else do {
        (popped, input) \<leftarrow> try_pop (rn_input r);
        case popped of
          None \<Rightarrow> Some r
        | Some incoming \<Rightarrow>
            let (command, sequence) = prepare (rn_sequence r) incoming;
                r1 = r\<lparr>rn_input := input, rn_sequence := sequence\<rparr> in
            case log_command (rn_journal r) failure padding copy_padding command of
              (Inl e, journal) \<Rightarrow> Some (r1\<lparr>rn_journal := journal, rn_phase := Thrown e\<rparr>)
            | (Inr _, journal) \<Rightarrow> do {
                (book, events) \<leftarrow> process (rn_book r) command [];
                Some (r1\<lparr>rn_journal := journal, rn_book := book, rn_phase := Publishing incoming events\<rparr>)
              }
      })"

definition publish :: "('i \<Rightarrow> Event \<Rightarrow> 'o) \<Rightarrow> bool \<Rightarrow> 'i \<Rightarrow> Event list \<Rightarrow> ('s, 'i, 'o) runner \<Rightarrow> ('s, 'i, 'o) runner option" where
  "publish reply stop incoming events r =
     (case events of
        [] \<Rightarrow> Some (r\<lparr>rn_phase := Polling\<rparr>)
      | event # rest \<Rightarrow> do {
          (pushed, output) \<leftarrow> try_push (rn_output r) (reply incoming event);
          if pushed then Some (r\<lparr>rn_output := output, rn_phase := Publishing incoming rest\<rparr>)
          else if stop then Some (r\<lparr>rn_phase := Returned\<rparr>)
          else Some r
        })"

definition run_step :: "('s \<Rightarrow> 'i \<Rightarrow> Command \<times> 's) \<Rightarrow> ('i \<Rightarrow> Event \<Rightarrow> 'o) \<Rightarrow> bool \<Rightarrow> nat option \<Rightarrow> u8 list \<Rightarrow> u8 list \<Rightarrow>
    ('s, 'i, 'o) runner \<Rightarrow> ('s, 'i, 'o) runner option" where
  "run_step prepare reply stop failure padding copy_padding r =
     (case rn_phase r of
        Polling \<Rightarrow> poll prepare stop failure padding copy_padding r
      | Publishing incoming events \<Rightarrow> publish reply stop incoming events r
      | Returned \<Rightarrow> Some r
      | Thrown e \<Rightarrow> Some r)"

subsection \<open>The two runners\<close>

type_synonym EngineRunner = "(unit, Command, Event) runner"
type_synonym GatewayEngineRunner = "(Sequence, GatewayRequest, GatewayResponse) runner"

definition engine_prepare :: "unit \<Rightarrow> Command \<Rightarrow> Command \<times> unit" where
  "engine_prepare s command = (command, s)"

definition engine_reply :: "Command \<Rightarrow> Event \<Rightarrow> Event" where
  "engine_reply command event = event"

definition engine_runner :: "OrderBook \<Rightarrow> Command SpscQueue \<Rightarrow> Event SpscQueue \<Rightarrow> JournalWriter option \<Rightarrow> EngineRunner" where
  "engine_runner book input output journal =
     \<lparr>rn_book = book, rn_input = input, rn_output = output, rn_journal = journal, rn_sequence = (), rn_phase = Polling\<rparr>"

definition engine_run_step :: "bool \<Rightarrow> nat option \<Rightarrow> u8 list \<Rightarrow> u8 list \<Rightarrow> EngineRunner \<Rightarrow> EngineRunner option" where
  "engine_run_step = run_step engine_prepare engine_reply"

definition gateway_prepare :: "Sequence \<Rightarrow> GatewayRequest \<Rightarrow> Command \<times> Sequence" where
  "gateway_prepare next_engine_sequence incoming =
     ((gq_command incoming)\<lparr>c_sequence := next_engine_sequence\<rparr>, next_engine_sequence + 1)"

definition gateway_reply :: "GatewayRequest \<Rightarrow> Event \<Rightarrow> GatewayResponse" where
  "gateway_reply incoming event =
     \<lparr>gs_session_id = gq_session_id incoming, gs_client_sequence = gq_client_sequence incoming, gs_event = event\<rparr>"

definition gateway_engine_runner ::
    "OrderBook \<Rightarrow> GatewayRequest SpscQueue \<Rightarrow> GatewayResponse SpscQueue \<Rightarrow> JournalWriter option \<Rightarrow> GatewayEngineRunner" where
  "gateway_engine_runner book input output journal =
     \<lparr>rn_book = book, rn_input = input, rn_output = output, rn_journal = journal,
      rn_sequence = st_last_sequence (ob_stats book) + 1, rn_phase = Polling\<rparr>"

definition gateway_run_step :: "bool \<Rightarrow> nat option \<Rightarrow> u8 list \<Rightarrow> u8 list \<Rightarrow> GatewayEngineRunner \<Rightarrow> GatewayEngineRunner option" where
  "gateway_run_step = run_step gateway_prepare gateway_reply"

subsection \<open>The replay tool\<close>

text \<open>The exit status, and the fields printed when the journal could be replayed.\<close>

record replay_report =
  rp_result :: ReplayResult
  rp_resting_orders :: nat
  rp_trades :: u64
  rp_rejected :: u64

fun replay_into :: "OrderBook \<Rightarrow> Command list \<Rightarrow> OrderBook option" where
  "replay_into book [] = Some book"
| "replay_into book (command # commands) =
     do { (book1, events) \<leftarrow> process book command []; replay_into book1 commands }"

definition replay_config :: BookConfig where
  "replay_config = \<lparr>minimum_price = 1, maximum_price = 1000000, tick_size = 1, maximum_orders = 1000000\<rparr>"

definition replay_main :: "nat \<Rightarrow> u8 list option \<Rightarrow> (nat \<times> replay_report option) option" where
  "replay_main argc journal =
     (if argc \<noteq> 2 then Some (2, None)
      else case order_book replay_config of
        Inl e \<Rightarrow> if e = Abnormal then None else Some (1, None)
      | Inr book \<Rightarrow>
          (case replay_journal journal of
             Inl e \<Rightarrow> if e = Abnormal then None else Some (1, None)
           | Inr (commands, result) \<Rightarrow> do {
               book' \<leftarrow> replay_into book commands;
               Some (if rr_clean_end result \<and> st_rejected (ob_stats book') = 0 then 0 else 1,
                 Some \<lparr>rp_result = result, rp_resting_orders = st_resting_orders (ob_stats book'),
                   rp_trades = st_trades (ob_stats book'), rp_rejected = st_rejected (ob_stats book')\<rparr>)
             }))"

subsection \<open>What a runner owes its clients\<close>

text \<open>Serving a sequence of requests one after the other: the final book and all responses.\<close>

fun serve :: "('s \<Rightarrow> 'i \<Rightarrow> Command \<times> 's) \<Rightarrow> ('i \<Rightarrow> Event \<Rightarrow> 'o) \<Rightarrow> 's \<Rightarrow> OrderBook \<Rightarrow> 'i list \<Rightarrow>
    (OrderBook \<times> 's \<times> 'o list) option" where
  "serve prepare reply s book [] = Some (book, s, [])"
| "serve prepare reply s book (x # xs) =
     do {
       (book1, events) \<leftarrow> process book (fst (prepare s x)) [];
       (book2, s2, out) \<leftarrow> serve prepare reply (snd (prepare s x)) book1 xs;
       Some (book2, s2, map (reply x) events @ out)
     }"

fun prepared :: "('s \<Rightarrow> 'i \<Rightarrow> Command \<times> 's) \<Rightarrow> 's \<Rightarrow> 'i list \<Rightarrow> Command list" where
  "prepared prepare s [] = []"
| "prepared prepare s (x # xs) = fst (prepare s x) # prepared prepare (snd (prepare s x)) xs"

definition prepared_state :: "('s \<Rightarrow> 'i \<Rightarrow> Command \<times> 's) \<Rightarrow> 's \<Rightarrow> 'i list \<Rightarrow> 's" where
  "prepared_state prepare s xs = foldl (\<lambda>s x. snd (prepare s x)) s xs"

lemma serve_snoc:
  assumes "serve prepare reply s b xs = Some (b1, s1, out)" "process b1 (fst (prepare s1 x)) [] = Some (b2, events)"
  shows "serve prepare reply s b (xs @ [x]) = Some (b2, snd (prepare s1 x), out @ map (reply x) events)"
  using assms by (induction prepare reply s b xs arbitrary: out rule: serve.induct) (auto split: Option.bind_splits)

lemma prepared_append [simp]:
  "prepared prepare s (xs @ ys) = prepared prepare s xs @ prepared prepare (prepared_state prepare s xs) ys"
  by (induction xs arbitrary: s) (simp_all add: prepared_state_def)

lemma length_prepared [simp]: "length (prepared prepare s xs) = length xs"
  by (induction xs arbitrary: s) simp_all

lemma serve_state: "serve prepare reply s b xs = Some (b1, s1, out) \<Longrightarrow> s1 = prepared_state prepare s xs"
  by (induction prepare reply s b xs arbitrary: out rule: serve.induct)
    (auto simp: prepared_state_def split: Option.bind_splits)

lemma serve_replay: "serve prepare reply s b xs = Some (b1, s1, out) \<Longrightarrow> replay_into b (prepared prepare s xs) = Some b1"
  by (induction prepare reply s b xs arbitrary: out rule: serve.induct) (auto split: Option.bind_splits)

lemma replay_into_append: "replay_into b (cs @ ds) = Option.bind (replay_into b cs) (\<lambda>b1. replay_into b1 ds)"
  by (induction cs arbitrary: b) (auto split: Option.bind_splits)

lemma process_defined:
  assumes "reachable cfg b"
  obtains b' es where "process b c [] = Some (b', es)" "reachable cfg b'"
proof -
  obtain d b' where "process b c [] = Some (b', [] @ snd (spec_process_with (\<lambda>_ _. d) cfg (view b) c))"
    by (rule book_invar_step [OF reachable_invar [OF assms], of c "[]"])
  then show thesis using that reachable.step [OF assms] by blast
qed

lemma serve_reachable: "serve prepare reply s b xs = Some (b1, s1, out) \<Longrightarrow> reachable cfg b \<Longrightarrow> reachable cfg b1"
proof (induction xs arbitrary: s b out)
  case (Cons x xs)
  obtain b2 es out2 where "process b (fst (prepare s x)) [] = Some (b2, es)"
    "serve prepare reply (snd (prepare s x)) b2 xs = Some (b1, s1, out2)"
    using Cons.prems(1) by (auto split: Option.bind_splits)
  then show ?case using Cons.IH reachable.step [OF Cons.prems(2)] by blast
qed simp

lemma replay_into_defined: "reachable cfg b \<Longrightarrow> \<exists>b'. replay_into b cs = Some b'"
proof (induction cs arbitrary: b)
  case (Cons c cs)
  obtain b1 es where b1: "process b c [] = Some (b1, es)" "reachable cfg b1" by (rule process_defined [OF Cons.prems])
  then show ?case using Cons.IH [OF b1(2)] by simp
qed simp

subsection \<open>A runner among its clients\<close>

text \<open>
  The runner together with the thread that feeds its input, the thread that takes its output
  and the one that raises the stop flag; \<open>sy_sent\<close> and \<open>sy_received\<close> record what went in and what
  came out.  The steps of the threads interleave freely, and the runner may read the stop flag
  late.  A copy of a command keeps the padding of the original.
\<close>

record ('s, 'i, 'o) runner_system =
  sy_runner :: "('s, 'i, 'o) runner"
  sy_stop :: bool
  sy_sent :: "'i list"
  sy_received :: "'o list"

inductive system_step :: "(bool \<Rightarrow> nat option \<Rightarrow> u8 list \<Rightarrow> u8 list \<Rightarrow> ('s, 'i, 'o) runner \<Rightarrow> ('s, 'i, 'o) runner option) \<Rightarrow>
    ('s, 'i, 'o) runner_system \<Rightarrow> ('s, 'i, 'o) runner_system \<Rightarrow> bool" for step where
  runs: "step stop failure padding padding (sy_runner s) = Some r \<Longrightarrow> length padding = 4 \<Longrightarrow> stop \<longrightarrow> sy_stop s \<Longrightarrow>
    system_step step s (s\<lparr>sy_runner := r\<rparr>)"
| raises: "system_step step s (s\<lparr>sy_stop := True\<rparr>)"
| feeds: "try_push (rn_input (sy_runner s)) x = Some (pushed, q) \<Longrightarrow>
    system_step step s (s\<lparr>sy_runner := (sy_runner s)\<lparr>rn_input := q\<rparr>,
      sy_sent := (if pushed then sy_sent s @ [x] else sy_sent s)\<rparr>)"
| takes: "try_pop (rn_output (sy_runner s)) = Some (popped, q) \<Longrightarrow>
    system_step step s (s\<lparr>sy_runner := (sy_runner s)\<lparr>rn_output := q\<rparr>,
      sy_received := (case popped of None \<Rightarrow> sy_received s | Some y \<Rightarrow> sy_received s @ [y])\<rparr>)"

definition system_start :: "('s, 'i, 'o) runner \<Rightarrow> ('s, 'i, 'o) runner_system" where
  "system_start r = \<lparr>sy_runner = r, sy_stop = False, sy_sent = [], sy_received = []\<rparr>"

definition fresh_runner :: "BookConfig \<Rightarrow> ('s, 'i, 'o) runner \<Rightarrow> bool" where
  "fresh_runner cfg r \<longleftrightarrow> reachable cfg (rn_book r) \<and> rn_phase r = Polling \<and>
     sq_invar (rn_input r) \<and> sq_contents (rn_input r) = [] \<and> sq_invar (rn_output r) \<and> sq_contents (rn_output r) = []"

text \<open>
  In every state the requests sent are those served, at most one popped by a loop that then
  failed to journal it, and those still queued; the responses to the requests served are
  those received, those queued and those not published.  A loop that waits for requests has
  published everything.  A loop that publishes has kept what is left of the responses to the
  last request.  A loop has returned only after the stop flag was raised, and then only
  responses to the last request can be missing.  A loop that has thrown an exception because
  the journal failed has published everything.
\<close>

fun phase_ok :: "('i \<Rightarrow> Event \<Rightarrow> 'o) \<Rightarrow> bool \<Rightarrow> 'i list \<Rightarrow> 'i list \<Rightarrow> 'o list \<Rightarrow> 'i phase \<Rightarrow> bool" where
  "phase_ok reply stopped served lost unpublished Polling \<longleftrightarrow> lost = [] \<and> unpublished = []"
| "phase_ok reply stopped served lost unpublished (Publishing x events) \<longleftrightarrow>
     lost = [] \<and> served \<noteq> [] \<and> last served = x \<and> unpublished = map (reply x) events"
| "phase_ok reply stopped served lost unpublished Returned \<longleftrightarrow>
     lost = [] \<and> stopped \<and>
     (unpublished \<noteq> [] \<longrightarrow> served \<noteq> [] \<and> (\<exists>events. unpublished = map (reply (last served)) events))"
| "phase_ok reply stopped served lost unpublished (Thrown e) \<longleftrightarrow>
     e = RuntimeError \<and> length lost \<le> 1 \<and> unpublished = []"

text \<open>
  The journal holds what it held before, the records of the commands served, and what was
  written of the record of a lost command.
\<close>

definition journal_ok :: "JournalWriter option \<Rightarrow> Command list \<Rightarrow> Command list \<Rightarrow> JournalWriter option \<Rightarrow> bool" where
  "journal_ok journal0 commands lost journal \<longleftrightarrow>
     (case (journal0, journal) of
        (None, None) \<Rightarrow> lost = []
      | (Some w0, Some w) \<Rightarrow> (\<exists>ps qs n. padded (ps @ qs) \<and> map snd ps = commands \<and> map snd qs = lost \<and>
          jw_contents w = jw_contents w0 @ concat (map record_bytes ps) @ take n (concat (map record_bytes qs)))
      | _ \<Rightarrow> False)"

definition accounts :: "('s \<Rightarrow> 'i \<Rightarrow> Command \<times> 's) \<Rightarrow> ('i \<Rightarrow> Event \<Rightarrow> 'o) \<Rightarrow> ('s, 'i, 'o) runner \<Rightarrow>
    ('s, 'i, 'o) runner_system \<Rightarrow> 'i list \<Rightarrow> 'i list \<Rightarrow> 'o list \<Rightarrow> bool" where
  "accounts prepare reply r0 s served lost unpublished \<longleftrightarrow>
     (let r = sy_runner s; sequence = prepared_state prepare (rn_sequence r0) served in
      sq_invar (rn_input r) \<and> sq_invar (rn_output r) \<and> phase_ok reply (sy_stop s) served lost unpublished (rn_phase r) \<and>
      sy_sent s = served @ lost @ sq_contents (rn_input r) \<and>
      serve prepare reply (rn_sequence r0) (rn_book r0) served =
        Some (rn_book r, sequence, sy_received s @ sq_contents (rn_output r) @ unpublished) \<and>
      (lost = [] \<longrightarrow> rn_sequence r = sequence) \<and> (\<forall>e. rn_phase r = Thrown e \<longrightarrow> rn_journal r \<noteq> None) \<and>
      journal_ok (rn_journal r0) (prepared prepare (rn_sequence r0) served) (prepared prepare sequence lost) (rn_journal r))"

lemma prepared_state_snoc [simp]: "prepared_state prepare s (xs @ [x]) = snd (prepare (prepared_state prepare s xs) x)"
  by (simp add: prepared_state_def)

lemma prepared_state_Nil [simp]: "prepared_state prepare s [] = s"
  by (simp add: prepared_state_def)

lemma journal_ok_log:
  assumes "journal_ok journal0 cs [] journal" "log_command journal failure padding padding c = (result, journal')" "length padding = 4"
  shows "if result = Inr () then journal_ok journal0 (cs @ [c]) [] journal'
    else result = Inl RuntimeError \<and> journal' \<noteq> None \<and> journal_ok journal0 cs [c] journal'"
proof (cases journal)
  case None
  then show ?thesis using assms by (auto simp: journal_ok_def log_command_def split: option.splits)
next
  case (Some w)
  then obtain w0 ps where w0: "journal0 = Some w0" "padded ps" "map snd ps = cs"
    "jw_contents w = jw_contents w0 @ concat (map record_bytes ps)"
    using assms(1) by (auto simp: journal_ok_def split: option.splits)
  let ?p = "(padding, c)"
  have pad: "padded (ps @ [?p])" using w0(2) assms(3) by (simp add: padded_def)
  have ok: "journal_ok journal0 (map snd ps') (map snd qs') (Some w')"
    if "padded (ps' @ qs')" "jw_contents w' = jw_contents w0 @ concat (map record_bytes ps') @ take n (concat (map record_bytes qs'))"
    for ps' qs' n w'
    using that w0(1) unfolding journal_ok_def by (simp only: prod.case option.case) blast
  show ?thesis
  proof (cases failure)
    case None
    then obtain w' where "result = Inr ()" "journal' = Some w'" "jw_contents w' = jw_contents w @ record_bytes ?p"
      using assms(2) Some by (auto simp: log_command_def journal_append_def record_bytes_def Let_def)
    then show ?thesis using ok [of "ps @ [?p]" "[]" w' 0] w0 pad by simp
  next
    case (Some n)
    then obtain w' where "result = Inl RuntimeError" "journal' = Some w'" "jw_contents w' = jw_contents w @ take n (record_bytes ?p)"
      using assms(2) \<open>journal = Some w\<close> by (auto simp: log_command_def journal_append_def record_bytes_def Let_def)
    then show ?thesis using ok [of ps "[?p]" w' n] w0 pad by simp
  qed
qed

lemma journal_ok_flush:
  assumes "journal_ok journal0 cs lost (Some w)" "journal_flush w written = Inr w'"
  shows "journal_ok journal0 cs lost (Some w')"
proof -
  have "jw_contents w' = jw_contents w" using assms(2) by (auto simp: journal_flush_def split: if_splits)
  then show ?thesis using assms(1) by (simp add: journal_ok_def split: option.splits)
qed

lemmas accounts_simps = accounts_def Let_def

lemma accounts_start:
  assumes "fresh_runner cfg r0"
  shows "accounts prepare reply r0 (system_start r0) [] [] []"
proof -
  have "journal_ok j [] [] j" for j by (auto simp: journal_ok_def padded_def split: option.splits)
  then show ?thesis using assms by (simp add: accounts_simps system_start_def fresh_runner_def)
qed

lemma accounts_feed:
  assumes "accounts prepare reply r0 s served lost unpublished" "try_push (rn_input (sy_runner s)) x = Some (pushed, q)"
  shows "accounts prepare reply r0 (s\<lparr>sy_runner := (sy_runner s)\<lparr>rn_input := q\<rparr>,
      sy_sent := (if pushed then sy_sent s @ [x] else sy_sent s)\<rparr>) served lost unpublished"
proof -
  have "sq_invar (rn_input (sy_runner s))" using assms(1) by (simp add: accounts_simps)
  then show ?thesis by (rule spsc.push_cases [of _ x]) (use assms in \<open>auto simp: accounts_simps\<close>)
qed

lemma accounts_take:
  assumes "accounts prepare reply r0 s served lost unpublished" "try_pop (rn_output (sy_runner s)) = Some (popped, q)"
  shows "accounts prepare reply r0 (s\<lparr>sy_runner := (sy_runner s)\<lparr>rn_output := q\<rparr>,
      sy_received := (case popped of None \<Rightarrow> sy_received s | Some y \<Rightarrow> sy_received s @ [y])\<rparr>) served lost unpublished"
proof -
  have "sq_invar (rn_output (sy_runner s))" using assms(1) by (simp add: accounts_simps)
  then show ?thesis by (rule spsc.pop_cases) (use assms in \<open>auto simp: accounts_simps\<close>)
qed

lemma accounts_publish:
  assumes acc: "accounts prepare reply r0 s served lost unpublished"
    and pc: "rn_phase (sy_runner s) = Publishing x events"
    and r: "publish reply stop x events (sy_runner s) = Some r" and stop: "stop \<longrightarrow> sy_stop s"
  shows "\<exists>unpublished'. accounts prepare reply r0 (s\<lparr>sy_runner := r\<rparr>) served lost unpublished'"
proof (cases events)
  case Nil
  then show ?thesis using assms by (auto simp: accounts_simps publish_def)
next
  case (Cons e es)
  have "sq_invar (rn_output (sy_runner s))" using acc by (simp add: accounts_simps)
  then show ?thesis
  proof (rule spsc.push_cases [of _ "reply x e"])
    assume "try_push (rn_output (sy_runner s)) (reply x e) = Some (False, rn_output (sy_runner s))"
    then have "sy_stop s \<and> r = (sy_runner s)\<lparr>rn_phase := Returned\<rparr> \<or> r = sy_runner s"
      using r Cons stop by (auto simp: publish_def split: if_splits)
    then show ?thesis using acc pc by (auto simp: accounts_simps)
  next
    fix q' assume q': "try_push (rn_output (sy_runner s)) (reply x e) = Some (True, q')" "sq_invar q'"
      "sq_contents q' = sq_contents (rn_output (sy_runner s)) @ [reply x e]"
    then have "r = (sy_runner s)\<lparr>rn_output := q', rn_phase := Publishing x es\<rparr>" using r Cons by (simp add: publish_def)
    then have "accounts prepare reply r0 (s\<lparr>sy_runner := r\<rparr>) served lost (map (reply x) es)"
      using acc pc Cons q'(2,3) by (auto simp: accounts_simps)
    then show ?thesis by blast
  qed
qed

lemma accounts_finish:
  assumes "accounts prepare reply r0 s served lost unpublished" "rn_phase (sy_runner s) = Polling" "sy_stop s"
  shows "accounts prepare reply r0 (s\<lparr>sy_runner := finish failure (sy_runner s)\<rparr>) served lost unpublished"
  using assms journal_ok_flush
  by (auto simp: accounts_simps finish_def journal_flush_def split: option.split sum.split if_splits)

lemma accounts_poll:
  assumes acc: "accounts prepare reply r0 s served lost unpublished" and start: "fresh_runner cfg r0"
    and pc: "rn_phase (sy_runner s) = Polling" and pad: "length padding = 4"
    and r: "poll prepare stop failure padding padding (sy_runner s) = Some r" and stop: "stop \<longrightarrow> sy_stop s"
  shows "\<exists>served' lost' unpublished'. accounts prepare reply r0 (s\<lparr>sy_runner := r\<rparr>) served' lost' unpublished'"
proof (cases stop)
  case True
  then show ?thesis using r stop accounts_finish [OF acc pc, of failure] by (auto simp: poll_def)
next
  case False
  note a = acc [unfolded accounts_simps]
  have "sq_invar (rn_input (sy_runner s))" using a by simp
  then show ?thesis
  proof (rule spsc.pop_cases)
    assume "try_pop (rn_input (sy_runner s)) = Some (None, rn_input (sy_runner s))"
    then have "s\<lparr>sy_runner := r\<rparr> = s" using r False by (simp add: poll_def)
    then show ?thesis using acc by metis
  next
    fix x xs q' assume q': "try_pop (rn_input (sy_runner s)) = Some (Some x, q')" "sq_invar q'"
      "sq_contents (rn_input (sy_runner s)) = x # xs" "sq_contents q' = xs"
    have ph: "lost = []" "unpublished = []" using a pc by simp_all
    let ?p = "prepare (rn_sequence (sy_runner s)) x"
    let ?r1 = "(sy_runner s)\<lparr>rn_input := q', rn_sequence := snd ?p\<rparr>"
    have seq: "rn_sequence (sy_runner s) = prepared_state prepare (rn_sequence r0) served" using a ph by simp
    obtain result journal where log: "log_command (rn_journal (sy_runner s)) failure padding padding (fst ?p) = (result, journal)"
      by fastforce
    have j: "journal_ok (rn_journal r0) (prepared prepare (rn_sequence r0) served) [] (rn_journal (sy_runner s))" using a ph by simp
    note j' = journal_ok_log [OF j log pad]
    show ?thesis
    proof (cases result)
      case (Inl e)
      then have "r = ?r1\<lparr>rn_journal := journal, rn_phase := Thrown e\<rparr>" using r False q'(1) log by (simp add: poll_def Let_def split: prod.splits)
      then have "accounts prepare reply r0 (s\<lparr>sy_runner := r\<rparr>) served [x] []" using a ph q' j' seq Inl by (simp add: accounts_simps)
      then show ?thesis by blast
    next
      case (Inr u)
      have "reachable cfg (rn_book (sy_runner s))"
        using a start serve_reachable by (metis fresh_runner_def)
      then obtain b2 es where b2: "process (rn_book (sy_runner s)) (fst ?p) [] = Some (b2, es)"
        by (rule process_defined)
      then have req: "r = ?r1\<lparr>rn_journal := journal, rn_book := b2, rn_phase := Publishing x es\<rparr>"
        using r False q'(1) log Inr by (simp add: poll_def Let_def split: prod.splits)
      have "serve prepare reply (rn_sequence r0) (rn_book r0) (served @ [x]) =
          Some (b2, snd ?p, (sy_received s @ sq_contents (rn_output (sy_runner s))) @ map (reply x) es)"
        using serve_snoc [of prepare reply "rn_sequence r0" "rn_book r0" served] a ph b2 seq by simp
      then have "accounts prepare reply r0 (s\<lparr>sy_runner := r\<rparr>) (served @ [x]) [] (map (reply x) es)"
        using a ph q' seq req j' Inr by (simp add: accounts_simps)
      then show ?thesis by blast
    qed
  qed
qed

lemma accounts_raise:
  assumes "accounts prepare reply r0 s served lost unpublished"
  shows "accounts prepare reply r0 (s\<lparr>sy_stop := True\<rparr>) served lost unpublished"
  using assms by (cases "rn_phase (sy_runner s)") (auto simp: accounts_simps)

lemma accounts_step:
  assumes "accounts prepare reply r0 s served lost unpublished" "fresh_runner cfg r0" "system_step (run_step prepare reply) s s'"
  shows "\<exists>served' lost' unpublished'. accounts prepare reply r0 s' served' lost' unpublished'"
  using assms(3)
proof cases
  case (runs stop failure padding r)
  show ?thesis
  proof (cases "rn_phase (sy_runner s)")
    case Polling
    then have "poll prepare stop failure padding padding (sy_runner s) = Some r" using runs(2) by (simp add: run_step_def)
    then show ?thesis using accounts_poll [OF assms(1,2) Polling runs(3) _ runs(4)] runs(1) by blast
  next
    case (Publishing x events)
    then have "publish reply stop x events (sy_runner s) = Some r" using runs(2) by (simp add: run_step_def)
    then show ?thesis using accounts_publish [OF assms(1) Publishing _ runs(4)] runs(1) by blast
  next
    case Returned
    then have "s' = s" using runs(1,2) by (simp add: run_step_def)
    then show ?thesis using assms(1) by blast
  next
    case (Thrown e)
    then have "s' = s" using runs(1,2) by (simp add: run_step_def)
    then show ?thesis using assms(1) by blast
  qed
next
  case raises
  then show ?thesis using accounts_raise [OF assms(1)] by blast
next
  case (feeds x pushed q)
  then show ?thesis using accounts_feed [OF assms(1)] by blast
next
  case (takes popped q)
  then show ?thesis using accounts_take [OF assms(1)] by blast
qed

lemma system_accounts:
  assumes "fresh_runner cfg r0" "(system_step (run_step prepare reply))\<^sup>*\<^sup>* (system_start r0) s"
  obtains served lost unpublished where "accounts prepare reply r0 s served lost unpublished"
proof -
  from assms(2) have "\<exists>served lost unpublished. accounts prepare reply r0 s served lost unpublished"
    by (induction rule: rtranclp_induct) (use accounts_start [OF assms(1)] accounts_step [OF _ assms(1)] in blast)+
  then show thesis using that by blast
qed
end
