(* ===== verification/Tcp_Gateway.thy ===== *)
theory Tcp_Gateway
  imports Runner
begin

text \<open>
  The gateway thread of \<^verbatim>\<open>apps/gateway.cpp\<close>: connections with their fixed buffers, sessions,
  and one pass of the event loop.  Sockets and epoll are outside the program; what their calls
  return is an argument of the operation that makes them.  A list of outcomes stands for the
  results of successive calls on a socket, and the call after the last outcome would block
  (\<^verbatim>\<open>EAGAIN\<close>).  \<open>tg_interest\<close> is the mask registered with epoll: a file descriptor is in its
  domain while registered, and its value says whether \<^verbatim>\<open>EPOLLOUT\<close> is included.
  The queues \<^verbatim>\<open>requests_\<close> and \<^verbatim>\<open>responses_\<close> are those of the runner, which holds references to them.
\<close>

subsection \<open>State\<close>

definition receive_capacity :: nat where "receive_capacity = 64 * 1024"

definition transmit_capacity :: nat where "transmit_capacity = 256 * 1024"

definition maximum_events :: nat where "maximum_events = 128"

definition gateway_book_config :: BookConfig where
  "gateway_book_config = \<lparr>minimum_price = 9000, maximum_price = 11000, tick_size = 1, maximum_orders = 1000000\<rparr>"

record Connection =
  cn_fd :: int
  cn_session_id :: u32
  cn_validator :: "SessionValidator option"
  cn_receive :: "u8 list"
  cn_received :: nat
  cn_transmit :: "u8 list"
  cn_transmit_begin :: nat
  cn_transmit_end :: nat

definition connection :: "int \<Rightarrow> Connection" where
  "connection fd = \<lparr>cn_fd = fd, cn_session_id = 0, cn_validator = None, cn_receive = replicate receive_capacity 0,
     cn_received = 0, cn_transmit = replicate transmit_capacity 0, cn_transmit_begin = 0, cn_transmit_end = 0\<rparr>"

record TcpGateway =
  tg_listen_fd :: int
  tg_runner :: GatewayEngineRunner
  tg_stop :: bool
  tg_connections :: "int \<rightharpoonup> Connection"
  tg_session_to_fd :: "u32 \<rightharpoonup> int"
  tg_interest :: "int \<rightharpoonup> bool"

definition default_gateway_request :: GatewayRequest where
  "default_gateway_request = \<lparr>gq_session_id = 0, gq_client_sequence = 0, gq_command = default_command\<rparr>"

definition default_gateway_response :: GatewayResponse where
  "default_gateway_response = \<lparr>gs_session_id = 0, gs_client_sequence = 0, gs_event = default_event\<rparr>"

definition tcp_gateway :: "int \<Rightarrow> exn + TcpGateway" where
  "tcp_gateway listen_fd =
     (case order_book gateway_book_config of
        Inl e \<Rightarrow> Inl e
      | Inr book \<Rightarrow>
          (case spsc_queue default_gateway_request 65536 of
             Inl e \<Rightarrow> Inl e
           | Inr requests \<Rightarrow>
               (case spsc_queue default_gateway_response 262144 of
                  Inl e \<Rightarrow> Inl e
                | Inr responses \<Rightarrow>
                    Inr \<lparr>tg_listen_fd = listen_fd, tg_runner = gateway_engine_runner book requests responses None,
                      tg_stop = False, tg_connections = Map.empty, tg_session_to_fd = Map.empty,
                      tg_interest = Map.empty\<rparr>)))"

subsection \<open>Output\<close>

definition update_interest :: "TcpGateway \<Rightarrow> Connection \<Rightarrow> TcpGateway" where
  "update_interest g c =
     (if tg_interest g (cn_fd c) = None then g
      else g\<lparr>tg_interest := (tg_interest g)(cn_fd c \<mapsto> (cn_transmit_begin c \<noteq> cn_transmit_end c))\<rparr>)"

definition compact_transmit :: "Connection \<Rightarrow> Connection" where
  "compact_transmit c =
     (if cn_transmit_begin c \<noteq> 0 \<and> transmit_capacity - cn_transmit_end c < response_frame_size
      then
        let remaining = cn_transmit_end c - cn_transmit_begin c in
        c\<lparr>cn_transmit := overwrite (cn_transmit c) 0 (take remaining (drop (cn_transmit_begin c) (cn_transmit c))),
          cn_transmit_begin := 0, cn_transmit_end := remaining\<rparr>
      else c)"

definition queue_response :: "TcpGateway \<Rightarrow> Connection \<Rightarrow> Response \<Rightarrow> (bool \<times> TcpGateway \<times> Connection) option" where
  "queue_response g c response =
     (let c1 = compact_transmit c; available = transmit_capacity - cn_transmit_end c1 in
      do {
        (ok, written, bytes) \<leftarrow> encode_response response (take available (drop (cn_transmit_end c1) (cn_transmit c1)));
        if \<not> ok then Some (False, g, c1)
        else
          let c2 = c1\<lparr>cn_transmit := overwrite (cn_transmit c1) (cn_transmit_end c1) bytes,
                cn_transmit_end := cn_transmit_end c1 + written\<rparr> in
          Some (True, update_interest g c2, c2)
      })"

definition gateway_reject :: "TcpGateway \<Rightarrow> Connection \<Rightarrow> Request \<Rightarrow> RejectReason \<Rightarrow>
    (bool \<times> TcpGateway \<times> Connection) option" where
  "gateway_reject g c request reason =
     queue_response g c \<lparr>rp_session_id = rq_session_id request, rp_client_sequence = rq_client_sequence request,
       rp_event = gateway_rejection request reason\<rparr>"

datatype send_result = Sent nat | SendInterrupted | SendFailed

fun send_loop :: "send_result list \<Rightarrow> Connection \<Rightarrow> u8 list \<Rightarrow> bool \<times> Connection \<times> u8 list" where
  "send_loop [] c wire = (True, c, wire)"
| "send_loop (result # results) c wire =
     (if cn_transmit_begin c = cn_transmit_end c then (True, c, wire)
      else case result of
        Sent n \<Rightarrow>
          let count = min n (cn_transmit_end c - cn_transmit_begin c) in
          if count > 0
          then send_loop results (c\<lparr>cn_transmit_begin := cn_transmit_begin c + count\<rparr>)
                 (wire @ take count (drop (cn_transmit_begin c) (cn_transmit c)))
          else (False, c, wire)
      | SendInterrupted \<Rightarrow> send_loop results c wire
      | SendFailed \<Rightarrow> (False, c, wire))"

text \<open>The bytes handed to the socket are part of the result.\<close>

definition flush_output :: "send_result list \<Rightarrow> TcpGateway \<Rightarrow> Connection \<Rightarrow> bool \<times> TcpGateway \<times> Connection \<times> u8 list" where
  "flush_output results g c =
     (let (ok, c1, wire) = send_loop results c [] in
      if \<not> ok then (False, g, c1, wire)
      else
        let c2 = (if cn_transmit_begin c1 = cn_transmit_end c1
                  then c1\<lparr>cn_transmit_begin := 0, cn_transmit_end := 0\<rparr> else c1) in
        (True, update_interest g c2, c2, wire))"

subsection \<open>Input\<close>

datatype recv_result = Data "u8 list" | RecvInterrupted | RecvFailed

fun receive_loop :: "recv_result list \<Rightarrow> Connection \<Rightarrow> bool \<times> Connection" where
  "receive_loop [] c = (True, c)"
| "receive_loop (result # results) c =
     (if cn_received c < receive_capacity
      then case result of
        Data bytes \<Rightarrow>
          let available = receive_capacity - cn_received c; chunk = take available bytes in
          if chunk \<noteq> []
          then receive_loop results
                 (c\<lparr>cn_receive := overwrite (cn_receive c) (cn_received c) chunk,
                    cn_received := cn_received c + length chunk\<rparr>)
          else (False, c)
      | RecvInterrupted \<Rightarrow> receive_loop results c
      | RecvFailed \<Rightarrow> (False, c)
      else (True, c))"

definition bind_session :: "TcpGateway \<Rightarrow> Connection \<Rightarrow> Request \<Rightarrow> bool \<times> TcpGateway \<times> Connection" where
  "bind_session g c request =
     (if cn_validator c \<noteq> None then (True, g, c)
      else if tg_session_to_fd g (rq_session_id request) \<noteq> None then (False, g, c)
      else (True, g\<lparr>tg_session_to_fd := (tg_session_to_fd g)(rq_session_id request \<mapsto> cn_fd c)\<rparr>,
        c\<lparr>cn_session_id := rq_session_id request,
          cn_validator := Some (session_validator (rq_session_id request) default_limits)\<rparr>))"

definition handle_request :: "TcpGateway \<Rightarrow> Connection \<Rightarrow> Request \<Rightarrow> (bool \<times> TcpGateway \<times> Connection) option" where
  "handle_request g c request =
     (let (bound, g1, c1) = bind_session g c request in
      if \<not> bound then Some (False, g1, c1)
      else do {
        validator \<leftarrow> cn_validator c1;
        let (reason, validator') = validate_and_advance validator request;
        let c2 = c1\<lparr>cn_validator := Some validator'\<rparr>;
        if reason \<noteq> NoReason then gateway_reject g1 c2 request reason
        else do {
          (pushed, requests) \<leftarrow> try_push (rn_input (tg_runner g1))
             \<lparr>gq_session_id = rq_session_id request, gq_client_sequence = rq_client_sequence request,
              gq_command = rq_command request\<rparr>;
          let g2 = g1\<lparr>tg_runner := (tg_runner g1)\<lparr>rn_input := requests\<rparr>\<rparr>;
          if pushed then Some (True, g2, c2) else gateway_reject g2 c2 request GatewayBackpressure
        }
      })"

partial_function (option) decode_loop ::
    "TcpGateway \<Rightarrow> Connection \<Rightarrow> nat \<Rightarrow> (bool \<times> TcpGateway \<times> Connection \<times> nat) option" where [code]:
  "decode_loop g c consumed =
     (if consumed < cn_received c
      then do {
        decoded \<leftarrow> decode_request (take (cn_received c - consumed) (drop consumed (cn_receive c)));
        if rqd_status decoded = NeedMoreData then Some (True, g, c, consumed)
        else if rqd_status decoded \<noteq> Ok then Some (False, g, c, consumed)
        else do {
          (ok, g1, c1) \<leftarrow> handle_request g c (rqd_request decoded);
          if \<not> ok then Some (False, g1, c1, consumed)
          else decode_loop g1 c1 (consumed + rqd_bytes_consumed decoded)
        }
      }
      else Some (True, g, c, consumed))"

definition read_requests :: "recv_result list \<Rightarrow> TcpGateway \<Rightarrow> Connection \<Rightarrow> (bool \<times> TcpGateway \<times> Connection) option" where
  "read_requests results g c =
     (let (open, c1) = receive_loop results c in
      if \<not> open then Some (False, g, c1)
      else do {
        (ok, g2, c2, consumed) \<leftarrow> decode_loop g c1 0;
        if \<not> ok then Some (False, g2, c2)
        else
          let remaining = cn_received c2 - consumed;
              c3 = (if consumed \<noteq> 0
                    then c2\<lparr>cn_receive := overwrite (cn_receive c2) 0 (take remaining (drop consumed (cn_receive c2))),
                           cn_received := remaining\<rparr>
                    else c2) in
          Some (cn_received c3 \<noteq> receive_capacity, g2, c3)
      })"

subsection \<open>Connections\<close>

datatype accept_result = AcceptedSocket int bool bool | AcceptFailed

text \<open>An accepted socket with the success of \<^verbatim>\<open>set_nonblocking\<close> and of \<^verbatim>\<open>epoll_ctl\<close>, which refuses a registered descriptor.\<close>

fun accept_connections :: "accept_result list \<Rightarrow> TcpGateway \<Rightarrow> TcpGateway" where
  "accept_connections [] g = g"
| "accept_connections (AcceptFailed # results) g = g"
| "accept_connections (AcceptedSocket fd nonblocking registered # results) g =
     (if \<not> nonblocking then accept_connections results g
      else if \<not> registered \<or> tg_interest g fd \<noteq> None then accept_connections results g
      else accept_connections results
        (g\<lparr>tg_interest := (tg_interest g)(fd \<mapsto> False),
           tg_connections := (if tg_connections g fd = None then (tg_connections g)(fd \<mapsto> connection fd)
                              else tg_connections g)\<rparr>))"

definition close_connection :: "TcpGateway \<Rightarrow> int \<Rightarrow> TcpGateway" where
  "close_connection g fd =
     (case tg_connections g fd of
        None \<Rightarrow> g
      | Some c \<Rightarrow>
          g\<lparr>tg_session_to_fd := (if cn_session_id c \<noteq> 0 then (tg_session_to_fd g)(cn_session_id c := None) else tg_session_to_fd g),
            tg_interest := (tg_interest g)(fd := None),
            tg_connections := (tg_connections g)(fd := None)\<rparr>)"

definition deliver_response :: "TcpGateway \<Rightarrow> GatewayResponse \<Rightarrow> TcpGateway option" where
  "deliver_response g response =
     (case tg_session_to_fd g (gs_session_id response) of
        None \<Rightarrow> Some g
      | Some fd \<Rightarrow>
          (case tg_connections g fd of
             None \<Rightarrow> Some (close_connection g fd)
           | Some c \<Rightarrow> do {
               (ok, g1, c1) \<leftarrow> queue_response g c \<lparr>rp_session_id = gs_session_id response,
                  rp_client_sequence = gs_client_sequence response, rp_event = gs_event response\<rparr>;
               let g2 = g1\<lparr>tg_connections := (tg_connections g1)(fd \<mapsto> c1)\<rparr>;
               Some (if ok then g2 else close_connection g2 fd)
             }))"

partial_function (option) drain_engine_responses :: "TcpGateway \<Rightarrow> TcpGateway option" where [code]:
  "drain_engine_responses g =
     do {
       (popped, responses) \<leftarrow> try_pop (rn_output (tg_runner g));
       let g1 = g\<lparr>tg_runner := (tg_runner g)\<lparr>rn_output := responses\<rparr>\<rparr>;
       case popped of
         None \<Rightarrow> Some g1
       | Some response \<Rightarrow> do {
           g2 \<leftarrow> deliver_response g1 response;
           drain_engine_responses g2
         }
     }"

subsection \<open>The event loop\<close>

text \<open>A ready descriptor, its flags, and the outcomes of the socket calls made for it.\<close>

record socket_event =
  se_fd :: int
  se_hangup :: bool
  se_in :: bool
  se_out :: bool
  se_recv :: "recv_result list"
  se_send :: "send_result list"
  se_accept :: "accept_result list"

definition handle_event :: "TcpGateway \<Rightarrow> socket_event \<Rightarrow> TcpGateway option" where
  "handle_event g ev =
     (if se_fd ev = tg_listen_fd g then Some (accept_connections (se_accept ev) g)
      else case tg_connections g (se_fd ev) of
        None \<Rightarrow> Some g
      | Some c \<Rightarrow> do {
          let keep = \<not> se_hangup ev;
          (keep1, g1, c1) \<leftarrow> (if keep \<and> se_in ev then read_requests (se_recv ev) g c else Some (keep, g, c));
          let (keep2, g2, c2, wire) = (if keep1 \<and> se_out ev then flush_output (se_send ev) g1 c1 else (keep1, g1, c1, []));
          let g3 = g2\<lparr>tg_connections := (tg_connections g2)(se_fd ev \<mapsto> c2)\<rparr>;
          Some (if keep2 then g3 else close_connection g3 (se_fd ev))
        })"

fun handle_events :: "TcpGateway \<Rightarrow> socket_event list \<Rightarrow> TcpGateway option" where
  "handle_events g [] = Some g"
| "handle_events g (ev # events) = do { g1 \<leftarrow> handle_event g ev; handle_events g1 events }"

datatype wait_result = Ready "socket_event list" | WaitInterrupted | WaitFailed

text \<open>One pass of \<^verbatim>\<open>run\<close>; a number is the value it returns.\<close>

definition run_pass :: "bool \<Rightarrow> wait_result \<Rightarrow> TcpGateway \<Rightarrow> (TcpGateway \<times> int option) option" where
  "run_pass interrupted waited g =
     (if interrupted then Some (g\<lparr>tg_stop := True\<rparr>, Some 0)
      else do {
        g1 \<leftarrow> drain_engine_responses g;
        case waited of
          WaitInterrupted \<Rightarrow> Some (g1, None)
        | WaitFailed \<Rightarrow> Some (g1, Some 1)
        | Ready events \<Rightarrow> do { g2 \<leftarrow> handle_events g1 (take maximum_events events); Some (g2, None) }
      })"
end
