(* ===== verification/Tcp_Ok.thy ===== *)
theory Tcp_Ok
  imports Tcp_Gateway
begin

text \<open>
  The invariant of the gateway thread and its preservation by every operation: buffers within
  their bounds, the session map in step with the connections, epoll told about pending output.
\<close>

subsection \<open>Connections and their buffers\<close>

definition unread :: "Connection \<Rightarrow> u8 list" where
  "unread c = take (cn_received c) (cn_receive c)"

definition pending :: "Connection \<Rightarrow> u8 list" where
  "pending c = take (cn_transmit_end c - cn_transmit_begin c) (drop (cn_transmit_begin c) (cn_transmit c))"

definition conn_ok :: "Connection \<Rightarrow> bool" where
  "conn_ok c \<longleftrightarrow> length (cn_receive c) = receive_capacity \<and> cn_received c \<le> receive_capacity \<and>
     length (cn_transmit c) = transmit_capacity \<and> cn_transmit_begin c \<le> cn_transmit_end c \<and>
     cn_transmit_end c \<le> transmit_capacity \<and>
     (cn_validator c = None \<longleftrightarrow> cn_session_id c = 0) \<and>
     (\<forall>v. cn_validator c = Some v \<longrightarrow> sv_session_id v = cn_session_id c \<and> sv_limits v = default_limits)"

lemma length_pending: "conn_ok c \<Longrightarrow> length (pending c) = cn_transmit_end c - cn_transmit_begin c"
  by (auto simp: conn_ok_def pending_def)

lemma pending_empty_iff: "conn_ok c \<Longrightarrow> pending c = [] \<longleftrightarrow> cn_transmit_begin c = cn_transmit_end c"
  using length_pending [of c] by (auto simp: conn_ok_def)

lemma conn_ok_connection [simp]: "conn_ok (connection fd)"
  by (simp add: conn_ok_def connection_def)

lemma take_overwrite_end:
  "n \<le> length xs \<Longrightarrow> take (n + length ys) (overwrite xs n ys) = take n xs @ ys"
  by (simp add: overwrite_def)

text \<open>Everything of a connection but its output.\<close>

definition same_input :: "Connection \<Rightarrow> Connection \<Rightarrow> bool" where
  "same_input c c' \<longleftrightarrow> cn_fd c' = cn_fd c \<and> cn_session_id c' = cn_session_id c \<and> cn_validator c' = cn_validator c \<and>
     cn_receive c' = cn_receive c \<and> cn_received c' = cn_received c"

lemma compact_transmit_ok:
  assumes "conn_ok c"
  shows "conn_ok (compact_transmit c)" "same_input c (compact_transmit c)" "pending (compact_transmit c) = pending c"
    "transmit_capacity - cn_transmit_end (compact_transmit c) < 68 \<longleftrightarrow> transmit_capacity < length (pending c) + 68"
proof -
  note ok = assms [unfolded conn_ok_def]
  show "conn_ok (compact_transmit c)" using ok
    by (auto simp: compact_transmit_def conn_ok_def Let_def overwrite_def split: option.splits)
  show "same_input c (compact_transmit c)" by (simp add: compact_transmit_def same_input_def Let_def)
  show "pending (compact_transmit c) = pending c" using ok
    by (auto simp: compact_transmit_def pending_def Let_def overwrite_def)
  show "transmit_capacity - cn_transmit_end (compact_transmit c) < 68 \<longleftrightarrow> transmit_capacity < length (pending c) + 68"
    using ok length_pending [OF assms]
    by (auto simp: compact_transmit_def Let_def response_frame_size_def)
qed

lemma append_pending:
  assumes "conn_ok c" "length bytes \<le> transmit_capacity - cn_transmit_end c"
    "c' = c\<lparr>cn_transmit := overwrite (cn_transmit c) (cn_transmit_end c)
        (bytes @ drop (length bytes) (take (transmit_capacity - cn_transmit_end c) (drop (cn_transmit_end c) (cn_transmit c)))),
      cn_transmit_end := cn_transmit_end c + length bytes\<rparr>"
  shows "conn_ok c'" "same_input c c'" "pending c' = pending c @ bytes"
proof -
  note ok = assms(1) [unfolded conn_ok_def]
  have le: "cn_transmit_end c + length bytes \<le> transmit_capacity" using ok assms(2) by linarith
  then show "conn_ok c'" using ok assms(2,3) by (auto simp: conn_ok_def overwrite_def split: option.splits)
  show "same_input c c'" using assms(3) by (simp add: same_input_def)
  have "drop (cn_transmit_begin c) (take (cn_transmit_end c + length bytes) (cn_transmit c')) =
      drop (cn_transmit_begin c) (take (cn_transmit_end c) (cn_transmit c)) @ bytes"
    using ok assms(2,3) by (simp add: overwrite_def)
  then show "pending c' = pending c @ bytes" using ok assms(2,3) by (simp add: pending_def take_drop)
qed

lemma queue_response_ok:
  assumes "conn_ok c"
  shows "\<exists>c'. queue_response g c response =
      Some (addressed response \<and> length (pending c) + 68 \<le> transmit_capacity,
        if addressed response \<and> length (pending c) + 68 \<le> transmit_capacity then update_interest g c' else g, c') \<and>
    conn_ok c' \<and> same_input c c' \<and>
    pending c' = pending c @ (if addressed response \<and> length (pending c) + 68 \<le> transmit_capacity then response_bytes response else [])"
proof -
  let ?c1 = "compact_transmit c"
  note c1 = compact_transmit_ok [OF assms]
  have len: "length (take (transmit_capacity - cn_transmit_end ?c1) (drop (cn_transmit_end ?c1) (cn_transmit ?c1))) =
      transmit_capacity - cn_transmit_end ?c1" using c1(1) by (simp add: conn_ok_def)
  show ?thesis
  proof (cases "addressed response \<and> length (pending c) + 68 \<le> transmit_capacity")
    case False
    then have "encode_response response (take (transmit_capacity - cn_transmit_end ?c1) (drop (cn_transmit_end ?c1) (cn_transmit ?c1))) =
        Some (False, 0, take (transmit_capacity - cn_transmit_end ?c1) (drop (cn_transmit_end ?c1) (cn_transmit ?c1)))"
      using c1(4) len by (auto simp: encode_response_bytes addressed_def)
    then show ?thesis using False c1(1-3) by (auto simp: queue_response_def Let_def)
  next
    case True
    let ?c2 = "?c1\<lparr>cn_transmit := overwrite (cn_transmit ?c1) (cn_transmit_end ?c1)
        (response_bytes response @ drop 68 (take (transmit_capacity - cn_transmit_end ?c1) (drop (cn_transmit_end ?c1) (cn_transmit ?c1)))),
      cn_transmit_end := cn_transmit_end ?c1 + 68\<rparr>"
    have room: "68 \<le> transmit_capacity - cn_transmit_end ?c1" using True c1(4) by linarith
    have "queue_response g c response = Some (True, update_interest g ?c2, ?c2)"
      using True room len by (simp add: queue_response_def encode_response_bytes addressed_def Let_def)
    moreover have "conn_ok ?c2" "same_input ?c1 ?c2" "pending ?c2 = pending ?c1 @ response_bytes response"
      using append_pending [OF c1(1), of "response_bytes response" ?c2] room by simp_all
    ultimately show ?thesis using True c1(2,3) by (auto simp: same_input_def)
  qed
qed

subsection \<open>The gateway\<close>

definition gateway_ok :: "TcpGateway \<Rightarrow> bool" where
  "gateway_ok g \<longleftrightarrow> sq_invar (rn_input (tg_runner g)) \<and> sq_invar (rn_output (tg_runner g)) \<and>
     (\<forall>fd. case tg_connections g fd of
        None \<Rightarrow> tg_interest g fd = None
      | Some c \<Rightarrow> conn_ok c \<and> cn_fd c = fd \<and> tg_interest g fd = Some (pending c \<noteq> [])) \<and>
     (\<forall>sid fd. tg_session_to_fd g sid = Some fd \<longleftrightarrow>
        sid \<noteq> 0 \<and> (\<exists>c. tg_connections g fd = Some c \<and> cn_session_id c = sid))"

text \<open>An operation works on one connection, which it reaches by reference: the gateway with that connection stored.\<close>

definition store :: "TcpGateway \<Rightarrow> Connection \<Rightarrow> TcpGateway" where
  "store g c = g\<lparr>tg_connections := (tg_connections g)(cn_fd c \<mapsto> c)\<rparr>"

lemma gateway_ok_entry:
  "gateway_ok g \<Longrightarrow> case tg_connections g fd of
      None \<Rightarrow> tg_interest g fd = None
    | Some c \<Rightarrow> conn_ok c \<and> cn_fd c = fd \<and> tg_interest g fd = Some (pending c \<noteq> [])"
  unfolding gateway_ok_def by blast

lemma gateway_ok_session:
  "gateway_ok g \<Longrightarrow> tg_session_to_fd g sid = Some fd \<longleftrightarrow>
    sid \<noteq> 0 \<and> (\<exists>c. tg_connections g fd = Some c \<and> cn_session_id c = sid)"
  unfolding gateway_ok_def by blast

lemma store_fields [simp]:
  "tg_runner (store g c) = tg_runner g" "tg_listen_fd (store g c) = tg_listen_fd g" "tg_stop (store g c) = tg_stop g"
  "tg_session_to_fd (store g c) = tg_session_to_fd g" "tg_interest (store g c) = tg_interest g"
  "tg_connections (store g c) = (tg_connections g)(cn_fd c \<mapsto> c)"
  by (simp_all add: store_def)

lemma gateway_okD:
  assumes "gateway_ok (store g c)"
  shows "conn_ok c" "tg_interest g (cn_fd c) = Some (pending c \<noteq> [])" "sq_invar (rn_input (tg_runner g))"
    "sq_invar (rn_output (tg_runner g))"
  using gateway_ok_entry [OF assms, of "cn_fd c"] assms by (simp_all add: gateway_ok_def)

lemma gateway_ok_connection:
  assumes "gateway_ok g" "tg_connections g fd = Some c"
  shows "gateway_ok (store g c)" "cn_fd c = fd" "store g c = g"
proof -
  show "cn_fd c = fd" using gateway_ok_entry [OF assms(1), of fd] assms(2) by simp
  then show "store g c = g" using assms(2) by (simp add: store_def fun_upd_idem)
  then show "gateway_ok (store g c)" using assms(1) by simp
qed

text \<open>Replacing a connection by one of the same session.\<close>

lemma gateway_ok_replace:
  assumes ok: "gateway_ok (store g c)" and c': "conn_ok c'" "cn_fd c' = cn_fd c" "cn_session_id c' = cn_session_id c"
    and g': "tg_connections g' = tg_connections g" "tg_session_to_fd g' = tg_session_to_fd g"
      "tg_interest g' = (tg_interest g)(cn_fd c \<mapsto> (pending c' \<noteq> []))"
      "sq_invar (rn_input (tg_runner g'))" "sq_invar (rn_output (tg_runner g'))"
  shows "gateway_ok (store g' c')"
  unfolding gateway_ok_def
proof (intro conjI allI)
  show "sq_invar (rn_input (tg_runner (store g' c')))" "sq_invar (rn_output (tg_runner (store g' c')))"
    using g'(4,5) by (simp_all add: store_def)
next
  fix fd
  show "case tg_connections (store g' c') fd of None \<Rightarrow> tg_interest (store g' c') fd = None
      | Some c \<Rightarrow> conn_ok c \<and> cn_fd c = fd \<and> tg_interest (store g' c') fd = Some (pending c \<noteq> [])"
    using gateway_ok_entry [OF ok, of fd] c' g' by (cases "fd = cn_fd c") (auto split: option.splits)
next
  fix sid fd
  show "tg_session_to_fd (store g' c') sid = Some fd \<longleftrightarrow>
      sid \<noteq> 0 \<and> (\<exists>c1. tg_connections (store g' c') fd = Some c1 \<and> cn_session_id c1 = sid)"
    using gateway_ok_session [OF ok, of sid fd] c' g' by (cases "fd = cn_fd c") auto
qed

lemma update_interest_ok:
  assumes "gateway_ok (store g c)" "conn_ok c'" "same_input c c'"
  shows "gateway_ok (store (update_interest g c') c')"
  by (rule gateway_ok_replace [OF assms(1,2)])
    (use assms gateway_okD [OF assms(1)] pending_empty_iff [OF assms(2)] in \<open>auto simp: update_interest_def same_input_def\<close>)

lemma same_pending_ok:
  assumes "gateway_ok (store g c)" "conn_ok c'" "cn_fd c' = cn_fd c" "cn_session_id c' = cn_session_id c"
    "pending c' = [] \<longleftrightarrow> pending c = []"
  shows "gateway_ok (store g c')"
  by (rule gateway_ok_replace [OF assms(1-4)])
    (use assms gateway_okD [OF assms(1)] in \<open>auto simp: fun_upd_idem\<close>)

text \<open>
  What the operations do to the engine's queues are steps of the runner's clients, and the
  requests they send have an identity and respect the risk limits.
\<close>

definition admissible :: "GatewayRequest \<Rightarrow> bool" where
  "admissible x \<longleftrightarrow> gq_session_id x \<noteq> 0 \<and> gq_client_sequence x \<noteq> 0 \<and>
     \<not> violates_risk (session_validator (gq_session_id x) default_limits) (gq_command x)"

definition client :: "TcpGateway \<Rightarrow> TcpGateway \<Rightarrow> bool" where
  "client g g' \<longleftrightarrow> (\<forall>s. sy_runner s = tg_runner g \<longrightarrow>
     (\<exists>s'. (system_step gateway_run_step)\<^sup>*\<^sup>* s s' \<and> sy_runner s' = tg_runner g' \<and> sy_stop s' = sy_stop s \<and>
       (\<forall>x \<in> set (sy_sent s'). x \<in> set (sy_sent s) \<or> admissible x)))"

lemma client_refl [simp]: "tg_runner g' = tg_runner g \<Longrightarrow> client g g'"
  unfolding client_def by auto

lemma client_trans: "client g g1 \<Longrightarrow> client g1 g2 \<Longrightarrow> client g g2"
  unfolding client_def by (metis (no_types, lifting) rtranclp_trans)

lemma client_push:
  assumes "try_push (rn_input (tg_runner g)) x = Some (pushed, q)" "tg_runner g' = (tg_runner g)\<lparr>rn_input := q\<rparr>"
    "admissible x"
  shows "client g g'"
  unfolding client_def
proof (intro allI impI)
  fix s :: "(Sequence, GatewayRequest, GatewayResponse) runner_system"
  assume "sy_runner s = tg_runner g"
  then have "system_step gateway_run_step s (s\<lparr>sy_runner := tg_runner g', sy_sent := (if pushed then sy_sent s @ [x] else sy_sent s)\<rparr>)"
    using feeds [of s x pushed q gateway_run_step] assms by simp
  then show "\<exists>s'. (system_step gateway_run_step)\<^sup>*\<^sup>* s s' \<and> sy_runner s' = tg_runner g' \<and> sy_stop s' = sy_stop s \<and>
      (\<forall>x \<in> set (sy_sent s'). x \<in> set (sy_sent s) \<or> admissible x)"
    by (intro exI conjI, rule r_into_rtranclp) (use assms in \<open>auto split: option.splits\<close>)
qed

lemma client_pop:
  assumes "try_pop (rn_output (tg_runner g)) = Some (popped, q)" "tg_runner g' = (tg_runner g)\<lparr>rn_output := q\<rparr>"
  shows "client g g'"
  unfolding client_def
proof (intro allI impI)
  fix s :: "(Sequence, GatewayRequest, GatewayResponse) runner_system"
  assume "sy_runner s = tg_runner g"
  then have "system_step gateway_run_step s (s\<lparr>sy_runner := tg_runner g',
      sy_received := (case popped of None \<Rightarrow> sy_received s | Some y \<Rightarrow> sy_received s @ [y])\<rparr>)"
    using takes [of s popped q gateway_run_step] assms by simp
  then show "\<exists>s'. (system_step gateway_run_step)\<^sup>*\<^sup>* s s' \<and> sy_runner s' = tg_runner g' \<and> sy_stop s' = sy_stop s \<and>
      (\<forall>x \<in> set (sy_sent s'). x \<in> set (sy_sent s) \<or> admissible x)"
    by (intro exI conjI, rule r_into_rtranclp) (use assms in \<open>auto split: option.splits\<close>)
qed

text \<open>What every operation on a connection keeps.\<close>

definition keeps :: "TcpGateway \<Rightarrow> Connection \<Rightarrow> TcpGateway \<Rightarrow> Connection \<Rightarrow> bool" where
  "keeps g c g' c' \<longleftrightarrow> gateway_ok (store g' c') \<and> client g g' \<and> cn_fd c' = cn_fd c \<and>
     tg_listen_fd g' = tg_listen_fd g \<and> tg_stop g' = tg_stop g \<and> tg_connections g' = tg_connections g"

lemma keeps_refl: "gateway_ok (store g c) \<Longrightarrow> keeps g c g c"
  by (simp add: keeps_def)

lemma keeps_trans: "keeps g c g1 c1 \<Longrightarrow> keeps g1 c1 g2 c2 \<Longrightarrow> keeps g c g2 c2"
  using client_trans by (auto simp: keeps_def)

lemma update_interest_fields [simp]:
  "tg_runner (update_interest g c) = tg_runner g" "tg_listen_fd (update_interest g c) = tg_listen_fd g"
  "tg_stop (update_interest g c) = tg_stop g" "tg_connections (update_interest g c) = tg_connections g"
  "tg_session_to_fd (update_interest g c) = tg_session_to_fd g"
  by (simp_all add: update_interest_def)

lemma queue_response_keeps:
  assumes "gateway_ok (store g c)"
  shows "\<exists>ok g' c'. queue_response g c response = Some (ok, g', c') \<and> keeps g c g' c' \<and> same_input c c'"
proof -
  let ?ok = "addressed response \<and> length (pending c) + 68 \<le> transmit_capacity"
  from queue_response_ok [OF gateway_okD(1) [OF assms], of g response] obtain c' where
    c': "queue_response g c response = Some (?ok, if ?ok then update_interest g c' else g, c')" "conn_ok c'" "same_input c c'"
      "pending c' = pending c @ (if ?ok then response_bytes response else [])" by blast
  have "gateway_ok (store (if ?ok then update_interest g c' else g) c')"
    using update_interest_ok [OF assms c'(2,3)] same_pending_ok [OF assms c'(2)] c'(3,4)
    by (auto simp: same_input_def)
  then have "keeps g c (if ?ok then update_interest g c' else g) c'" using c'(3) by (simp add: keeps_def same_input_def)
  then show ?thesis using c'(1,3) by blast
qed

subsection \<open>Requests\<close>

lemma bind_session_keeps:
  assumes ok: "gateway_ok (store g c)" and id: "rq_session_id request \<noteq> 0"
  shows "\<exists>bound g1 c1. bind_session g c request = (bound, g1, c1) \<and> keeps g c g1 c1 \<and>
    cn_receive c1 = cn_receive c \<and> cn_received c1 = cn_received c \<and> (bound \<longrightarrow> cn_validator c1 \<noteq> None)"
proof (cases "cn_validator c \<noteq> None \<or> tg_session_to_fd g (rq_session_id request) \<noteq> None")
  case True
  then show ?thesis using keeps_refl [OF ok] by (auto simp: bind_session_def)
next
  case False
  let ?sid = "rq_session_id request"
  let ?g = "g\<lparr>tg_session_to_fd := (tg_session_to_fd g)(?sid \<mapsto> cn_fd c)\<rparr>"
  let ?c = "c\<lparr>cn_session_id := ?sid, cn_validator := Some (session_validator ?sid default_limits)\<rparr>"
  note D = gateway_okD [OF ok]
  have c: "conn_ok ?c" "pending ?c = pending c" "cn_session_id c = 0"
    using D(1) id False by (simp_all add: conn_ok_def pending_def session_validator_def)
  have "gateway_ok (store ?g ?c)"
    unfolding gateway_ok_def
  proof (intro conjI allI)
    fix fd
    show "case tg_connections (store ?g ?c) fd of None \<Rightarrow> tg_interest (store ?g ?c) fd = None
        | Some c \<Rightarrow> conn_ok c \<and> cn_fd c = fd \<and> tg_interest (store ?g ?c) fd = Some (pending c \<noteq> [])"
      using gateway_ok_entry [OF ok, of fd] c(1,2) D(2) by (cases "fd = cn_fd c") (simp_all cong: option.case_cong)
  next
    fix sid fd
    show "tg_session_to_fd (store ?g ?c) sid = Some fd \<longleftrightarrow>
        sid \<noteq> 0 \<and> (\<exists>c. tg_connections (store ?g ?c) fd = Some c \<and> cn_session_id c = sid)"
      using gateway_ok_session [OF ok, of sid fd] c(3) id False
      by (cases "sid = ?sid"; cases "fd = cn_fd c") auto
  qed (use D(3,4) in simp_all)
  then have "keeps g c ?g ?c" by (simp add: keeps_def)
  then show ?thesis using False by (intro exI [of _ True] exI [of _ ?g] exI [of _ ?c]) (simp add: bind_session_def)
qed

lemma validator_keeps:
  assumes "gateway_ok (store g c)" "cn_validator c = Some v" "validate_and_advance v request = (reason, v')"
  shows "keeps g c g (c\<lparr>cn_validator := Some v'\<rparr>)"
proof -
  have "sv_session_id v' = sv_session_id v" "sv_limits v' = sv_limits v"
    by (rule validate_and_advance_cases [of v request]; use assms(3) in auto)+
  then have "conn_ok (c\<lparr>cn_validator := Some v'\<rparr>)" using gateway_okD(1) [OF assms(1)] assms(2) by (simp add: conn_ok_def)
  then have "gateway_ok (store g (c\<lparr>cn_validator := Some v'\<rparr>))"
    by (rule same_pending_ok [OF assms(1)]) (simp_all add: pending_def)
  then show ?thesis by (simp add: keeps_def)
qed

lemma reject_keeps:
  assumes "gateway_ok (store g c)"
  shows "\<exists>ok g' c'. gateway_reject g c request reason = Some (ok, g', c') \<and> keeps g c g' c' \<and> same_input c c'"
  unfolding gateway_reject_def by (rule queue_response_keeps [OF assms])

lemma push_keeps:
  assumes "gateway_ok (store g c)" "admissible x"
  shows "\<exists>pushed q. try_push (rn_input (tg_runner g)) x = Some (pushed, q) \<and>
    keeps g c (g\<lparr>tg_runner := (tg_runner g)\<lparr>rn_input := q\<rparr>\<rparr>) c"
proof -
  obtain pushed q where q: "try_push (rn_input (tg_runner g)) x = Some (pushed, q)" "sq_invar q"
    by (rule spsc.push_cases [OF gateway_okD(3) [OF assms(1)], of x]) (use gateway_okD(3) [OF assms(1)] in auto)
  let ?g = "g\<lparr>tg_runner := (tg_runner g)\<lparr>rn_input := q\<rparr>\<rparr>"
  note D = gateway_okD [OF assms(1)]
  have "gateway_ok (store ?g c)"
    by (rule gateway_ok_replace [OF assms(1)]) (use D q in \<open>simp_all add: fun_upd_idem\<close>)
  moreover have "client g ?g" by (rule client_push [OF q(1) _ assms(2)]) simp
  ultimately show ?thesis using q(1) by (simp add: keeps_def)
qed

lemma violates_risk_limits: "sv_limits v = sv_limits v' \<Longrightarrow> violates_risk v c = violates_risk v' c"
  by (simp add: violates_risk_def)

lemma validated_admissible:
  assumes "conn_ok c" "cn_validator c = Some v" "validate_and_advance v request = (NoReason, v')" "identified request"
  shows "admissible \<lparr>gq_session_id = rq_session_id request, gq_client_sequence = rq_client_sequence request,
    gq_command = rq_command request\<rparr>"
proof -
  have "sv_limits v = default_limits" using assms(1,2) by (simp add: conn_ok_def)
  then have "violates_risk v (rq_command request) =
      violates_risk (session_validator (rq_session_id request) default_limits) (rq_command request)"
    by (intro violates_risk_limits) (simp add: session_validator_def)
  moreover have "\<not> violates_risk v (rq_command request)"
    by (rule validate_and_advance_cases [of v request]) (use assms(3) in auto)
  ultimately show ?thesis using assms(4) by (simp add: admissible_def identified_def)
qed

lemma handle_request_keeps:
  assumes ok: "gateway_ok (store g c)" and id: "identified request"
  shows "\<exists>keep g' c'. handle_request g c request = Some (keep, g', c') \<and> keeps g c g' c' \<and>
    cn_receive c' = cn_receive c \<and> cn_received c' = cn_received c"
proof -
  obtain bound g1 c1 where b: "bind_session g c request = (bound, g1, c1)" "keeps g c g1 c1"
    "cn_receive c1 = cn_receive c" "cn_received c1 = cn_received c" "bound \<longrightarrow> cn_validator c1 \<noteq> None"
    using bind_session_keeps [OF ok, of request] id unfolding identified_def by blast
  show ?thesis
  proof (cases bound)
    case False
    then show ?thesis using b by (intro exI [of _ False] exI [of _ g1] exI [of _ c1]) (simp add: handle_request_def)
  next
    case True
    then obtain v where v: "cn_validator c1 = Some v" using b(5) by auto
    obtain reason v' where va: "validate_and_advance v request = (reason, v')" by fastforce
    let ?c2 = "c1\<lparr>cn_validator := Some v'\<rparr>"
    have k2: "keeps g c g1 ?c2"
      using keeps_trans [OF b(2) validator_keeps [OF _ v va]] b(2) by (simp add: keeps_def)
    then have ok2: "gateway_ok (store g1 ?c2)" by (simp add: keeps_def)
    have rej: "\<exists>keep g' c'. gateway_reject g2 ?c2 request r = Some (keep, g', c') \<and> keeps g c g' c' \<and>
        cn_receive c' = cn_receive c \<and> cn_received c' = cn_received c" if "keeps g c g2 ?c2" for g2 r
    proof -
      have "gateway_ok (store g2 ?c2)" using that by (simp add: keeps_def)
      then obtain keep g' c' where "gateway_reject g2 ?c2 request r = Some (keep, g', c')" "keeps g2 ?c2 g' c'" "same_input ?c2 c'"
        using reject_keeps by blast
      then show ?thesis using keeps_trans [OF that] b(3,4) by (auto simp: same_input_def)
    qed
    let ?x = "\<lparr>gq_session_id = rq_session_id request, gq_client_sequence = rq_client_sequence request,
      gq_command = rq_command request\<rparr>"
    show ?thesis
    proof (cases "reason = NoReason")
      case False
      then have "handle_request g c request = gateway_reject g1 ?c2 request reason"
        using True b(1) v va by (simp add: handle_request_def Let_def)
      then show ?thesis using rej [OF k2] by simp
    next
      case none: True
      have ok1: "conn_ok c1" using b(2) gateway_okD(1) [of g1 c1] by (simp add: keeps_def)
      have adm: "admissible ?x" using validated_admissible [OF ok1 v _ id] va none by simp
      obtain pushed q where q: "try_push (rn_input (tg_runner g1)) ?x = Some (pushed, q)"
        "keeps g1 ?c2 (g1\<lparr>tg_runner := (tg_runner g1)\<lparr>rn_input := q\<rparr>\<rparr>) ?c2"
        using push_keeps [OF ok2 adm] by blast
      note k3 = keeps_trans [OF k2 q(2)]
      have eq: "handle_request g c request =
          (if pushed then Some (True, g1\<lparr>tg_runner := (tg_runner g1)\<lparr>rn_input := q\<rparr>\<rparr>, ?c2)
           else gateway_reject (g1\<lparr>tg_runner := (tg_runner g1)\<lparr>rn_input := q\<rparr>\<rparr>) ?c2 request GatewayBackpressure)"
        using True b(1) v va q(1) none by (simp add: handle_request_def Let_def)
      show ?thesis
      proof (cases pushed)
        case True
        then show ?thesis using eq k3 b(3,4)
          by (intro exI [of _ True] exI [of _ "g1\<lparr>tg_runner := (tg_runner g1)\<lparr>rn_input := q\<rparr>\<rparr>"] exI [of _ ?c2]) simp
      next
        case False
        then show ?thesis unfolding eq using rej [OF k3] by simp
      qed
    qed
  qed
qed

lemma receive_loop_ok:
  assumes "conn_ok c" "receive_loop results c = (open, c')"
  shows "conn_ok c' \<and> pending c' = pending c \<and> cn_fd c' = cn_fd c \<and> cn_session_id c' = cn_session_id c"
  using assms
proof (induction results c rule: receive_loop.induct)
  case (2 result results c)
  show ?case
  proof (cases "cn_received c < receive_capacity \<and> (\<exists>bytes. result = Data bytes \<and> bytes \<noteq> [])")
    case True
    then obtain bytes where d: "result = Data bytes" "bytes \<noteq> []" "cn_received c < receive_capacity" by blast
    let ?chunk = "take (receive_capacity - cn_received c) bytes"
    let ?c = "c\<lparr>cn_receive := overwrite (cn_receive c) (cn_received c) ?chunk, cn_received := cn_received c + length ?chunk\<rparr>"
    have chunk: "?chunk \<noteq> []" using d by simp
    have "length ?chunk \<le> receive_capacity - cn_received c" by simp
    then have "cn_received c + length ?chunk \<le> receive_capacity" using d(3) by linarith
    then have "conn_ok ?c" using 2(3) by (auto simp: conn_ok_def overwrite_def split: option.splits)
    moreover have "receive_loop results ?c = (open, c')" using 2(4) d chunk by (simp add: Let_def)
    ultimately have "conn_ok c' \<and> pending c' = pending ?c \<and> cn_fd c' = cn_fd ?c \<and> cn_session_id c' = cn_session_id ?c"
      using 2(1) [OF d(3,1) refl refl] chunk by blast
    then show ?thesis by (simp add: pending_def)
  next
    case False
    then show ?thesis using 2 by (cases result) (auto split: if_splits)
  qed
qed simp

lemma decode_request_frame:
  obtains (ok) decoded where "decode_request xs = Some decoded" "rqd_status decoded = Ok"
      "0 < rqd_bytes_consumed decoded" "rqd_bytes_consumed decoded \<le> length xs"
      "identified (rqd_request decoded)" "wire_request (rqd_request decoded) = rqd_request decoded"
  | (more) decoded where "decode_request xs = Some decoded" "rqd_status decoded = NeedMoreData" "length xs < 80"
  | (bad) decoded where "decode_request xs = Some decoded" "rqd_status decoded \<noteq> Ok" "rqd_status decoded \<noteq> NeedMoreData"
proof -
  obtain decoded where d: "decode_request xs = Some decoded"
    "rqd_status decoded = Ok \<longrightarrow> 0 < rqd_bytes_consumed decoded \<and> rqd_bytes_consumed decoded \<le> length xs \<and>
      identified (rqd_request decoded) \<and> wire_request (rqd_request decoded) = rqd_request decoded"
    using requests.decode_total [of xs] by (auto simp: request_result_def)
  have "length xs < 80" if "rqd_status decoded = NeedMoreData"
    using requests.decode_bounded [of xs "rqd_bytes_consumed decoded" "rqd_request decoded"] d(1) that
    by (cases "80 \<le> length xs") (simp_all add: request_result_def)
  then show thesis using that d by blast
qed

lemma decode_loop_keeps:
  assumes "gateway_ok (store g c)" "consumed \<le> cn_received c"
  shows "\<exists>keep g' c' n. decode_loop g c consumed = Some (keep, g', c', n) \<and> keeps g c g' c' \<and>
    cn_receive c' = cn_receive c \<and> cn_received c' = cn_received c \<and> n \<le> cn_received c \<and>
    (keep \<longrightarrow> cn_received c - n < 80)"
  using assms
proof (induction "cn_received c - consumed" arbitrary: g c consumed rule: less_induct)
  case less
  note D = gateway_okD [OF less.prems(1)]
  show ?case
  proof (cases "consumed < cn_received c")
    case False
    then show ?thesis using less.prems keeps_refl [OF less.prems(1)]
      by (intro exI [of _ True] exI [of _ g] exI [of _ c] exI [of _ consumed]) (simp add: decode_loop.simps)
  next
    case True
    let ?in = "take (cn_received c - consumed) (drop consumed (cn_receive c))"
    have len: "length ?in = cn_received c - consumed" using D(1) by (auto simp: conn_ok_def)
    show ?thesis
    proof (rule decode_request_frame [of ?in])
      fix d assume d: "decode_request ?in = Some d" "rqd_status d = NeedMoreData" "length ?in < 80"
      then show ?thesis using True less.prems keeps_refl [OF less.prems(1)] len
        by (intro exI [of _ True] exI [of _ g] exI [of _ c] exI [of _ consumed]) (simp add: decode_loop.simps)
    next
      fix d assume d: "decode_request ?in = Some d" "rqd_status d \<noteq> Ok" "rqd_status d \<noteq> NeedMoreData"
      then show ?thesis using True less.prems keeps_refl [OF less.prems(1)]
        by (intro exI [of _ False] exI [of _ g] exI [of _ c] exI [of _ consumed]) (simp add: decode_loop.simps)
    next
      fix d assume d: "decode_request ?in = Some d" "rqd_status d = Ok" "0 < rqd_bytes_consumed d"
        "rqd_bytes_consumed d \<le> length ?in" "identified (rqd_request d)"
      let ?n = "consumed + rqd_bytes_consumed d"
      have n: "?n \<le> cn_received c" using d(4) len True by linarith
      obtain keep g1 c1 where h: "handle_request g c (rqd_request d) = Some (keep, g1, c1)" "keeps g c g1 c1"
        "cn_receive c1 = cn_receive c" "cn_received c1 = cn_received c"
        using handle_request_keeps [OF less.prems(1) d(5)] by blast
      show ?thesis
      proof (cases keep)
        case False
        then show ?thesis using True d(1,2) h less.prems(2)
          by (intro exI [of _ False] exI [of _ g1] exI [of _ c1] exI [of _ consumed]) (simp add: decode_loop.simps)
      next
        case keep: True
        have "cn_received c1 - ?n < cn_received c - consumed" using h(4) True d(3) by linarith
        moreover have "gateway_ok (store g1 c1)" "?n \<le> cn_received c1" using h n by (simp_all add: keeps_def)
        ultimately obtain k2 g2 c2 m where r: "decode_loop g1 c1 ?n = Some (k2, g2, c2, m)" "keeps g1 c1 g2 c2"
          "cn_receive c2 = cn_receive c1" "cn_received c2 = cn_received c1" "m \<le> cn_received c1"
          "k2 \<longrightarrow> cn_received c1 - m < 80"
          using less.hyps by blast
        have "decode_loop g c consumed = Some (k2, g2, c2, m)"
          using True d(1,2) h(1) keep r(1) by (simp add: decode_loop.simps [of g c consumed])
        then show ?thesis using r h keeps_trans [OF h(2) r(2)]
          by (intro exI [of _ k2] exI [of _ g2] exI [of _ c2] exI [of _ m]) simp
      qed
    qed
  qed
qed

lemma read_requests_keeps:
  assumes "gateway_ok (store g c)"
  shows "\<exists>keep g' c'. read_requests results g c = Some (keep, g', c') \<and> keeps g c g' c' \<and> (keep \<longrightarrow> cn_received c' < 80)"
proof -
  obtain opn c1 where r: "receive_loop results c = (opn, c1)" by fastforce
  note c1 = receive_loop_ok [OF gateway_okD(1) [OF assms] r]
  have ok1: "gateway_ok (store g c1)" using same_pending_ok [OF assms] c1 by simp
  then have k1: "keeps g c g c1" using c1 by (simp add: keeps_def)
  show ?thesis
  proof (cases opn)
    case False
    then show ?thesis using r k1 by (intro exI [of _ False] exI [of _ g] exI [of _ c1]) (simp add: read_requests_def)
  next
    case True
    obtain keep g2 c2 n where d: "decode_loop g c1 0 = Some (keep, g2, c2, n)" "keeps g c1 g2 c2"
      "cn_receive c2 = cn_receive c1" "cn_received c2 = cn_received c1" "n \<le> cn_received c1" "keep \<longrightarrow> cn_received c1 - n < 80"
      using decode_loop_keeps [OF ok1, of 0] by auto
    note k2 = keeps_trans [OF k1 d(2)]
    show ?thesis
    proof (cases keep)
      case False
      then show ?thesis using True r d(1) k2
        by (intro exI [of _ False] exI [of _ g2] exI [of _ c2]) (simp add: read_requests_def)
    next
      case keep: True
      let ?m = "cn_received c2 - n"
      let ?c3 = "if n \<noteq> 0 then c2\<lparr>cn_receive := overwrite (cn_receive c2) 0 (take ?m (drop n (cn_receive c2))),
          cn_received := ?m\<rparr> else c2"
      have ok2: "gateway_ok (store g2 c2)" using d(2) by (simp add: keeps_def)
      have m: "?m < 80" using d(4,6) keep by simp
      then have small: "cn_received ?c3 < 80" by (cases "n = 0") simp_all
      have "conn_ok ?c3" using gateway_okD(1) [OF ok2] by (auto simp: conn_ok_def overwrite_def split: option.splits)
      then have "gateway_ok (store g2 ?c3)" by (rule same_pending_ok [OF ok2]) (simp_all add: pending_def)
      then have "keeps g c g2 ?c3" using k2 by (simp add: keeps_def)
      moreover have "read_requests results g c = Some (True, g2, ?c3)"
        using r True d(1) keep small by (simp add: read_requests_def Let_def receive_capacity_def)
      ultimately show ?thesis using small by blast
    qed
  qed
qed

lemma send_loop_ok:
  assumes "conn_ok c" "send_loop results c wire = (keep, c', wire')"
  shows "conn_ok c' \<and> same_input c c' \<and> (\<exists>sent. wire' = wire @ sent \<and> sent @ pending c' = pending c) \<and>
    (\<not> keep \<longrightarrow> cn_transmit_begin c' \<noteq> cn_transmit_end c')"
  using assms
proof (induction results c wire rule: send_loop.induct)
  case (2 result results c wire)
  show ?case
  proof (cases "cn_transmit_begin c \<noteq> cn_transmit_end c \<and> (\<exists>n. result = Sent n \<and> 0 < n)")
    case True
    then obtain n where n: "result = Sent n" "0 < n" "cn_transmit_begin c \<noteq> cn_transmit_end c" by blast
    let ?k = "min n (cn_transmit_end c - cn_transmit_begin c)"
    let ?c = "c\<lparr>cn_transmit_begin := cn_transmit_begin c + ?k\<rparr>"
    let ?sent = "take ?k (drop (cn_transmit_begin c) (cn_transmit c))"
    have k: "0 < ?k" "cn_transmit_begin c + ?k \<le> cn_transmit_end c"
      using n 2(3) by (auto simp: conn_ok_def)
    have ok: "conn_ok ?c" using 2(3) k(2) by (simp add: conn_ok_def)
    have "send_loop results ?c (wire @ ?sent) = (keep, c', wire')" using 2(4) n k(1) by (simp add: Let_def)
    then have "conn_ok c' \<and> same_input ?c c' \<and> (\<exists>sent. wire' = (wire @ ?sent) @ sent \<and> sent @ pending c' = pending ?c) \<and>
        (\<not> keep \<longrightarrow> cn_transmit_begin c' \<noteq> cn_transmit_end c')"
      using 2(1) [OF n(3,1) refl k(1) ok] by blast
    moreover have "?sent @ pending ?c = pending c"
    proof -
      have "pending c = take (?k + (cn_transmit_end c - (cn_transmit_begin c + ?k))) (drop (cn_transmit_begin c) (cn_transmit c))"
        using k(2) by (simp add: pending_def)
      then show ?thesis by (simp only: take_add) (simp add: pending_def add.commute)
    qed
    ultimately show ?thesis by (auto simp: same_input_def)
  next
    case False
    then show ?thesis using 2 by (cases result) (auto simp: same_input_def split: if_splits)
  qed
qed (simp add: same_input_def)

text \<open>What a flush hands to the socket is the front of what was pending.\<close>

lemma flush_output_keeps:
  assumes "gateway_ok (store g c)"
  shows "\<exists>keep g' c' wire. flush_output results g c = (keep, g', c', wire) \<and> keeps g c g' c' \<and> wire @ pending c' = pending c"
proof -
  obtain ok c1 wire where s: "send_loop results c [] = (ok, c1, wire)" by (cases "send_loop results c []") auto
  from send_loop_ok [OF gateway_okD(1) [OF assms] s] have c1: "conn_ok c1" "same_input c c1" "wire @ pending c1 = pending c"
    "\<not> ok \<longrightarrow> cn_transmit_begin c1 \<noteq> cn_transmit_end c1" by auto
  show ?thesis
  proof (cases ok)
    case True
    let ?c2 = "if cn_transmit_begin c1 = cn_transmit_end c1 then c1\<lparr>cn_transmit_begin := 0, cn_transmit_end := 0\<rparr> else c1"
    have c2: "conn_ok ?c2" "same_input c ?c2" "pending ?c2 = pending c1"
      using c1 by (auto simp: conn_ok_def same_input_def pending_def)
    have "keeps g c (update_interest g ?c2) ?c2"
      using update_interest_ok [OF assms c2(1,2)] c2(2) by (simp add: keeps_def same_input_def)
    moreover have "flush_output results g c = (True, update_interest g ?c2, ?c2, wire)"
      using s True by (simp add: flush_output_def Let_def)
    ultimately show ?thesis using c1(3) c2(3) by metis
  next
    case False
    then have "pending c1 \<noteq> []" "pending c \<noteq> []" using c1 pending_empty_iff by auto
    then have "gateway_ok (store g c1)" using same_pending_ok [OF assms c1(1)] c1(2) by (simp add: same_input_def)
    then have "keeps g c g c1" using c1(2) by (simp add: keeps_def same_input_def)
    then show ?thesis using s False c1(3)
      by (intro exI [of _ False] exI [of _ g] exI [of _ c1] exI [of _ wire]) (simp add: flush_output_def)
  qed
qed

subsection \<open>Connections\<close>

text \<open>What every operation on the gateway keeps.\<close>

definition evolves :: "TcpGateway \<Rightarrow> TcpGateway \<Rightarrow> bool" where
  "evolves g g' \<longleftrightarrow> gateway_ok g' \<and> client g g' \<and> tg_listen_fd g' = tg_listen_fd g \<and> tg_stop g' = tg_stop g"

lemma evolves_refl: "gateway_ok g \<Longrightarrow> evolves g g"
  by (simp add: evolves_def)

lemma evolves_trans: "evolves g g1 \<Longrightarrow> evolves g1 g2 \<Longrightarrow> evolves g g2"
  using client_trans by (auto simp: evolves_def)

lemma keeps_evolves: "keeps g c g' c' \<Longrightarrow> evolves g (store g' c')"
  by (auto simp: keeps_def evolves_def client_def)

lemma close_connection_evolves:
  assumes ok: "gateway_ok g"
  shows "evolves g (close_connection g fd)"
proof (cases "tg_connections g fd")
  case None
  then show ?thesis using evolves_refl [OF ok] by (simp add: close_connection_def)
next
  case (Some c)
  let ?g = "close_connection g fd"
  have f: "tg_connections ?g = (tg_connections g)(fd := None)" "tg_interest ?g = (tg_interest g)(fd := None)"
    "tg_session_to_fd ?g = (if cn_session_id c \<noteq> 0 then (tg_session_to_fd g)(cn_session_id c := None) else tg_session_to_fd g)"
    "tg_runner ?g = tg_runner g" "tg_listen_fd ?g = tg_listen_fd g" "tg_stop ?g = tg_stop g"
    using Some by (simp_all add: close_connection_def)
  have "gateway_ok ?g"
    unfolding gateway_ok_def
  proof (intro conjI allI)
    fix fd'
    show "case tg_connections ?g fd' of None \<Rightarrow> tg_interest ?g fd' = None
        | Some c \<Rightarrow> conn_ok c \<and> cn_fd c = fd' \<and> tg_interest ?g fd' = Some (pending c \<noteq> [])"
      using gateway_ok_entry [OF ok, of fd'] f(1,2) by (cases "fd' = fd") (simp_all cong: option.case_cong)
  next
    fix sid fd'
    have "cn_session_id c \<noteq> 0 \<Longrightarrow> tg_session_to_fd g (cn_session_id c) = Some fd"
      using gateway_ok_session [OF ok, of "cn_session_id c" fd] Some by simp
    then show "tg_session_to_fd ?g sid = Some fd' \<longleftrightarrow>
        sid \<noteq> 0 \<and> (\<exists>c. tg_connections ?g fd' = Some c \<and> cn_session_id c = sid)"
      using gateway_ok_session [OF ok, of sid fd'] gateway_ok_session [OF ok, of sid fd] Some
      by (cases "fd' = fd"; cases "sid = cn_session_id c") (auto simp: f)
  qed (use ok in \<open>simp_all add: f gateway_ok_def\<close>)
  then show ?thesis using f by (simp add: evolves_def)
qed

lemma evolves_close: "evolves g g1 \<Longrightarrow> evolves g (close_connection g1 fd)"
  using evolves_trans [of g g1] close_connection_evolves [of g1 fd] by (simp add: evolves_def)

lemma accept_connections_evolves: "gateway_ok g \<Longrightarrow> evolves g (accept_connections results g)"
proof (induction results g rule: accept_connections.induct)
  case (3 fd nonblocking registered results g)
  show ?case
  proof (cases "nonblocking \<and> registered \<and> tg_interest g fd = None")
    case False
    then show ?thesis using 3 by auto
  next
    case True
    then have none: "tg_connections g fd = None"
      using gateway_ok_entry [OF "3.prems", of fd] by (simp split: option.splits)
    let ?g = "g\<lparr>tg_interest := (tg_interest g)(fd \<mapsto> False), tg_connections := (tg_connections g)(fd \<mapsto> connection fd)\<rparr>"
    have "gateway_ok ?g"
      unfolding gateway_ok_def
    proof (intro conjI allI)
      fix fd'
      show "case tg_connections ?g fd' of None \<Rightarrow> tg_interest ?g fd' = None
          | Some c \<Rightarrow> conn_ok c \<and> cn_fd c = fd' \<and> tg_interest ?g fd' = Some (pending c \<noteq> [])"
        using gateway_ok_entry [OF "3.prems", of fd']
        by (cases "fd' = fd") (simp_all add: connection_def pending_def conn_ok_def cong: option.case_cong)
    next
      fix sid fd'
      show "tg_session_to_fd ?g sid = Some fd' \<longleftrightarrow>
          sid \<noteq> 0 \<and> (\<exists>c. tg_connections ?g fd' = Some c \<and> cn_session_id c = sid)"
        using gateway_ok_session [OF "3.prems", of sid fd'] none
        by (cases "fd' = fd") (auto simp: connection_def)
    qed (use "3.prems" in \<open>simp_all add: gateway_ok_def\<close>)
    then have e: "evolves ?g (accept_connections results ?g)" "evolves g ?g"
      using "3.IH"(3) True none by (simp_all add: evolves_def)
    then show ?thesis using True none evolves_trans [OF e(2,1)] by simp
  qed
qed (simp_all add: evolves_refl)

subsection \<open>Responses\<close>

lemma deliver_response_evolves:
  assumes ok: "gateway_ok g"
  shows "\<exists>g'. deliver_response g response = Some g' \<and> evolves g g' \<and> rn_output (tg_runner g') = rn_output (tg_runner g)"
proof (cases "tg_session_to_fd g (gs_session_id response)")
  case None
  then show ?thesis using evolves_refl [OF ok] by (simp add: deliver_response_def)
next
  case (Some fd)
  then obtain c where c: "tg_connections g fd = Some c" using gateway_ok_session [OF ok] by blast
  note s = gateway_ok_connection [OF ok c]
  let ?r = "\<lparr>rp_session_id = gs_session_id response, rp_client_sequence = gs_client_sequence response, rp_event = gs_event response\<rparr>"
  from queue_response_keeps [OF s(1), of ?r] obtain keep g1 c1 where
    q: "queue_response g c ?r = Some (keep, g1, c1)" "keeps g c g1 c1" by blast
  have runner: "tg_runner g1 = tg_runner g"
    using q(1) queue_response_ok [OF gateway_okD(1) [OF s(1)], of g ?r] by (auto split: if_splits)
  have st: "g1\<lparr>tg_connections := (tg_connections g1)(fd \<mapsto> c1)\<rparr> = store g1 c1"
    using q(2) s(2) by (simp add: store_def keeps_def)
  have e: "evolves g (store g1 c1)" by (rule keeps_evolves [OF q(2)])
  then have "evolves g (close_connection (store g1 c1) fd)" by (rule evolves_close)
  moreover have "tg_runner (close_connection (store g1 c1) fd) = tg_runner g"
    using runner by (simp add: close_connection_def split: option.split)
  ultimately show ?thesis
    using Some c q(1) st e runner by (cases keep) (simp_all add: deliver_response_def)
qed

lemma pop_evolves:
  assumes ok: "gateway_ok g"
  obtains (empty) q where "try_pop (rn_output (tg_runner g)) = Some (None, q)"
      "evolves g (g\<lparr>tg_runner := (tg_runner g)\<lparr>rn_output := q\<rparr>\<rparr>)" "sq_contents (rn_output (tg_runner g)) = []" "sq_contents q = []"
  | (next_response) y ys q where "try_pop (rn_output (tg_runner g)) = Some (Some y, q)"
      "evolves g (g\<lparr>tg_runner := (tg_runner g)\<lparr>rn_output := q\<rparr>\<rparr>)"
      "sq_contents (rn_output (tg_runner g)) = y # ys" "sq_contents q = ys"
proof -
  have inv: "sq_invar (rn_output (tg_runner g))" using ok by (simp add: gateway_ok_def)
  have ev: "evolves g (g\<lparr>tg_runner := (tg_runner g)\<lparr>rn_output := q\<rparr>\<rparr>)"
    if "try_pop (rn_output (tg_runner g)) = Some (popped, q)" "sq_invar q" for popped q
    using ok that(2) client_pop [OF that(1), of "g\<lparr>tg_runner := (tg_runner g)\<lparr>rn_output := q\<rparr>\<rparr>"]
    by (simp add: evolves_def gateway_ok_def cong: option.case_cong)
  show thesis by (rule spsc.pop_cases [OF inv]) (use ev inv empty next_response in metis)+
qed

lemma drain_evolves:
  assumes "gateway_ok g"
  shows "\<exists>g'. drain_engine_responses g = Some g' \<and> evolves g g' \<and> sq_contents (rn_output (tg_runner g')) = []"
  using assms
proof (induction "sq_contents (rn_output (tg_runner g))" arbitrary: g)
  case Nil
  show ?case
    by (rule pop_evolves [OF Nil.prems]) (use Nil.hyps in \<open>auto simp: drain_engine_responses.simps [of g]\<close>)
next
  case (Cons y ys)
  obtain q where q: "try_pop (rn_output (tg_runner g)) = Some (Some y, q)"
    "evolves g (g\<lparr>tg_runner := (tg_runner g)\<lparr>rn_output := q\<rparr>\<rparr>)" "sq_contents q = ys"
    by (rule pop_evolves [OF Cons.prems]) (use Cons.hyps(2) in auto)
  let ?g = "g\<lparr>tg_runner := (tg_runner g)\<lparr>rn_output := q\<rparr>\<rparr>"
  have "gateway_ok ?g" using q(2) by (simp add: evolves_def)
  from deliver_response_evolves [OF this, of y] obtain g2 where
    g2: "deliver_response ?g y = Some g2" "evolves ?g g2" "rn_output (tg_runner g2) = q" by auto
  from Cons.hyps(1) [of g2] g2(2,3) q(3) obtain g' where
    g': "drain_engine_responses g2 = Some g'" "evolves g2 g'" "sq_contents (rn_output (tg_runner g')) = []"
    by (auto simp: evolves_def)
  have "drain_engine_responses g = Some g'" using q(1) g2(1) g'(1) by (simp add: drain_engine_responses.simps [of g])
  then show ?case using evolves_trans [OF q(2) evolves_trans [OF g2(2) g'(2)]] g'(3) by blast
qed

subsection \<open>The event loop\<close>

lemma handle_event_evolves:
  assumes ok: "gateway_ok g"
  shows "\<exists>g'. handle_event g ev = Some g' \<and> evolves g g'"
proof (cases "se_fd ev = tg_listen_fd g \<or> tg_connections g (se_fd ev) = None")
  case True
  then show ?thesis using accept_connections_evolves [OF ok] evolves_refl [OF ok] by (auto simp: handle_event_def)
next
  case False
  then obtain c where c: "tg_connections g (se_fd ev) = Some c" by auto
  note s = gateway_ok_connection [OF ok c]
  obtain k1 g1 c1 where r: "(if \<not> se_hangup ev \<and> se_in ev then read_requests (se_recv ev) g c else Some (\<not> se_hangup ev, g, c)) =
      Some (k1, g1, c1)" "keeps g c g1 c1"
    using read_requests_keeps [OF s(1), of "se_recv ev"] keeps_refl [OF s(1)]
    by (cases "\<not> se_hangup ev \<and> se_in ev") auto
  have "gateway_ok (store g1 c1)" using r(2) by (simp add: keeps_def)
  then obtain k2 g2 c2 wire where w: "(if k1 \<and> se_out ev then flush_output (se_send ev) g1 c1 else (k1, g1, c1, [])) = (k2, g2, c2, wire)"
    "keeps g1 c1 g2 c2"
    using flush_output_keeps [of g1 c1 "se_send ev"] keeps_refl [of g1 c1] by (cases "k1 \<and> se_out ev") auto
  note k = keeps_trans [OF r(2) w(2)]
  have "cn_fd c2 = se_fd ev" using k s(2) by (simp add: keeps_def)
  then have st: "g2\<lparr>tg_connections := (tg_connections g2)(se_fd ev \<mapsto> c2)\<rparr> = store g2 c2" by (simp add: store_def)
  have e: "evolves g (store g2 c2)" by (rule keeps_evolves [OF k])
  then have "evolves g (close_connection (store g2 c2) (se_fd ev))" by (rule evolves_close)
  then show ?thesis using False c r(1) w(1) st e by (simp add: handle_event_def Let_def)
qed

lemma handle_events_evolves:
  assumes "gateway_ok g"
  shows "\<exists>g'. handle_events g events = Some g' \<and> evolves g g'"
  using assms
proof (induction events arbitrary: g)
  case (Cons ev events)
  obtain g1 where g1: "handle_event g ev = Some g1" "evolves g g1" using handle_event_evolves [OF Cons.prems] by blast
  then obtain g2 where g2: "handle_events g1 events = Some g2" "evolves g1 g2" using Cons.IH [of g1] by (auto simp: evolves_def)
  then show ?case using g1(1) evolves_trans [OF g1(2) g2(2)] by simp
qed (simp add: evolves_refl)

lemma run_pass_evolves:
  assumes "gateway_ok g"
  shows "\<exists>g' code. run_pass interrupted waited g = Some (g', code) \<and> gateway_ok g' \<and> client g g'"
proof (cases interrupted)
  case True
  have "gateway_ok (g\<lparr>tg_stop := True\<rparr>)" using assms by (simp add: gateway_ok_def cong: option.case_cong)
  then show ?thesis using True by (simp add: run_pass_def)
next
  case False
  obtain g1 where g1: "drain_engine_responses g = Some g1" "evolves g g1" using drain_evolves [OF assms] by blast
  show ?thesis
  proof (cases waited)
    case (Ready events)
    obtain g2 where "handle_events g1 (take maximum_events events) = Some g2" "evolves g1 g2"
      using handle_events_evolves [of g1] g1(2) by (auto simp: evolves_def)
    then show ?thesis using False Ready g1 evolves_trans [OF g1(2)] by (auto simp: run_pass_def evolves_def)
  qed (use False g1 in \<open>auto simp: run_pass_def evolves_def\<close>)
qed

end
