(* ===== verification/Tcp_Stream.thy ===== *)
theory Tcp_Stream
  imports Tcp_Ok
begin

text \<open>
  The byte streams of a connection.  Inbound, how TCP cuts the stream into chunks does not
  matter; outbound, the bytes sent are the frames of the responses queued, in order.
\<close>

subsection \<open>Inbound\<close>

text \<open>Handling a sequence of requests, up to one that closes the connection.\<close>

fun handle_all :: "TcpGateway \<Rightarrow> Connection \<Rightarrow> Request list \<Rightarrow> (bool \<times> TcpGateway \<times> Connection) option" where
  "handle_all g c [] = Some (True, g, c)"
| "handle_all g c (m # ms) =
     do {
       (keep, g1, c1) \<leftarrow> handle_request g c m;
       if keep then handle_all g1 c1 ms else Some (False, g1, c1)
     }"

text \<open>Handling a request neither reads nor changes the receive buffer.\<close>

definition with_input :: "u8 list \<Rightarrow> nat \<Rightarrow> Connection \<Rightarrow> Connection" where
  "with_input xs n c = c\<lparr>cn_receive := xs, cn_received := n\<rparr>"

definition on_input :: "u8 list \<Rightarrow> nat \<Rightarrow> (bool \<times> TcpGateway \<times> Connection) option \<Rightarrow> (bool \<times> TcpGateway \<times> Connection) option" where
  "on_input xs n = map_option (\<lambda>(keep, g, c). (keep, g, with_input xs n c))"

lemma with_input_sel [simp]:
  "cn_fd (with_input xs n c) = cn_fd c" "cn_session_id (with_input xs n c) = cn_session_id c"
  "cn_validator (with_input xs n c) = cn_validator c" "cn_transmit (with_input xs n c) = cn_transmit c"
  "cn_transmit_begin (with_input xs n c) = cn_transmit_begin c" "cn_transmit_end (with_input xs n c) = cn_transmit_end c"
  "cn_receive (with_input xs n c) = xs" "cn_received (with_input xs n c) = n"
  by (simp_all add: with_input_def)

lemma with_input_same: "with_input (cn_receive c) (cn_received c) c = c"
  by (simp add: with_input_def)

lemma with_input_with_input [simp]: "with_input xs n (with_input ys m c) = with_input xs n c"
  by (simp add: with_input_def)

lemma queue_response_input:
  "queue_response g (with_input xs n c) response = on_input xs n (queue_response g c response)"
proof -
  have c: "compact_transmit (with_input xs n c) = with_input xs n (compact_transmit c)"
    by (simp add: compact_transmit_def with_input_def Let_def)
  have t: "(with_input xs n c)\<lparr>cn_transmit := a, cn_transmit_end := b\<rparr> = with_input xs n (c\<lparr>cn_transmit := a, cn_transmit_end := b\<rparr>)"
    "update_interest g (with_input xs n c) = update_interest g c" for c a b
    by (simp_all add: with_input_def update_interest_def)
  show ?thesis
    by (cases "encode_response response (take (transmit_capacity - cn_transmit_end (compact_transmit c))
          (drop (cn_transmit_end (compact_transmit c)) (cn_transmit (compact_transmit c))))")
      (auto simp: queue_response_def c t on_input_def Let_def)
qed

lemma bind_session_input:
  "bind_session g c request = (bound, g1, c1) \<Longrightarrow>
    bind_session g (with_input xs n c) request = (bound, g1, with_input xs n c1)"
  by (auto simp: bind_session_def with_input_def split: if_splits)

lemma handle_request_input: "handle_request g (with_input xs n c) request = on_input xs n (handle_request g c request)"
proof -
  obtain bound g1 c1 where b: "bind_session g c request = (bound, g1, c1)" by (cases "bind_session g c request") auto
  have v: "(with_input xs n c1)\<lparr>cn_validator := v\<rparr> = with_input xs n (c1\<lparr>cn_validator := v\<rparr>)" for v
    by (simp add: with_input_def)
  show ?thesis
    using b bind_session_input [OF b, of xs n]
    by (auto simp: handle_request_def gateway_reject_def queue_response_input v Let_def on_input_def
        split: Option.bind_splits prod.splits)
qed

lemma handle_all_input: "handle_all g (with_input xs n c) ms = on_input xs n (handle_all g c ms)"
proof (induction ms arbitrary: g c)
  case (Cons m ms)
  show ?case
    by (cases "handle_request g c m") (auto simp: handle_request_input on_input_def Cons.IH split: prod.splits)
qed (simp add: on_input_def)

lemma handle_request_receive:
  assumes "handle_request g c m = Some (keep, g1, c1)"
  shows "cn_receive c1 = cn_receive c" "cn_received c1 = cn_received c"
proof -
  have "Some (keep, g1, c1) = on_input (cn_receive c) (cn_received c) (Some (keep, g1, c1))"
    using handle_request_input [of g "cn_receive c" "cn_received c" c m] assms by (simp add: with_input_same)
  then have "c1 = with_input (cn_receive c) (cn_received c) c1" by (simp add: on_input_def)
  then show "cn_receive c1 = cn_receive c" "cn_received c1 = cn_received c" by (metis with_input_sel(7,8))+
qed

abbreviation wf_request :: "Request \<Rightarrow> bool" where
  "wf_request m \<equiv> identified m \<and> wire_request m = m"

lemma decode_frame_request:
  "wf_request m \<Longrightarrow> decode_request (request_bytes m @ rest) =
    Some \<lparr>rqd_status = Ok, rqd_bytes_consumed = length (request_bytes m), rqd_request = m\<rparr>"
  using requests.decode_frame [of m rest] by (auto simp: request_result_def)

lemma decode_partial_request:
  assumes "wf_request m" "k < length (request_bytes m)"
  obtains d where "decode_request (take k (request_bytes m)) = Some d" "rqd_status d = NeedMoreData" "k < 80"
proof -
  obtain d where d: "decode_request (take k (request_bytes m)) = Some d" "rqd_status d = NeedMoreData"
    using requests.decode_partial [OF assms] by (auto simp: request_result_def)
  have "length (take k (request_bytes m)) < 80"
    by (rule decode_request_frame [of "take k (request_bytes m)"]) (use d in auto)
  then show thesis using that d assms(2) by simp
qed

text \<open>The bytes that the decoding loop has not consumed.\<close>

definition unconsumed :: "Connection \<Rightarrow> nat \<Rightarrow> u8 list" where
  "unconsumed c n = take (cn_received c - n) (drop n (cn_receive c))"

lemma decode_loop_done: "unconsumed c n = [] \<Longrightarrow> cn_received c \<le> length (cn_receive c) \<Longrightarrow> decode_loop g c n = Some (True, g, c, n)"
  by (auto simp: decode_loop.simps unconsumed_def)

lemma handle_all_append:
  "handle_all g c (ms1 @ ms2) = do { (keep, g1, c1) \<leftarrow> handle_all g c ms1; if keep then handle_all g1 c1 ms2 else Some (False, g1, c1) }"
proof (induction ms1 arbitrary: g c)
  case (Cons m ms1)
  then show ?case by (cases "handle_request g c m") (auto split: prod.splits)
qed simp

text \<open>
  The decoding loop handles exactly the requests whose frames are complete, up to one that
  closes the connection.  The bytes left over are fewer than the next frame has.
\<close>

fun no_frame :: "nat \<Rightarrow> Request list \<Rightarrow> bool" where
  "no_frame left [] \<longleftrightarrow> left = 0"
| "no_frame left (m # ms) \<longleftrightarrow> left < length (request_bytes m)"

lemma decode_loop_frames:
  notes [simp del] = length_request_bytes
  assumes "gateway_ok (store g c)" "\<forall>m \<in> set ms. wf_request m" "unconsumed c n @ rest = concat (map request_bytes ms)"
    "n \<le> cn_received c" "cn_received c \<le> length (cn_receive c)"
  shows "\<exists>k g2 c2 n2 ms1 ms2. decode_loop g c n = Some (k, g2, c2, n2) \<and> ms = ms1 @ ms2 \<and>
    handle_all g c ms1 = Some (k, g2, c2) \<and> cn_receive c2 = cn_receive c \<and> cn_received c2 = cn_received c \<and>
    (k \<longrightarrow> n2 \<le> cn_received c \<and> unconsumed c n2 @ rest = concat (map request_bytes ms2) \<and> no_frame (cn_received c - n2) ms2)"
  using assms
proof (induction ms arbitrary: g c n)
  case Nil
  then have u: "unconsumed c n = []" by simp
  then have "cn_received c = n" using Nil.prems(4,5) by (auto simp: unconsumed_def)
  then show ?case using decode_loop_done [OF u Nil.prems(5), of g] Nil.prems u
    by (intro exI [of _ True] exI [of _ g] exI [of _ c] exI [of _ n] exI [of _ "[]"]) simp
next
  case (Cons m ms)
  have m: "wf_request m" and ms: "\<forall>m \<in> set ms. wf_request m" using Cons.prems(2) by auto
  have len: "length (unconsumed c n) = cn_received c - n" using Cons.prems(5) by (auto simp: unconsumed_def)
  note split = Cons.prems(3)
  let ?k = "length (request_bytes m)"
  show ?case
  proof (cases "length (unconsumed c n) < ?k")
    case True
    then have u: "unconsumed c n = take (length (unconsumed c n)) (request_bytes m)"
      using arg_cong [OF split, of "take (length (unconsumed c n))"] by simp
    obtain d where d: "decode_request (unconsumed c n) = Some d" "rqd_status d = NeedMoreData"
      by (rule decode_partial_request [OF m True]) (use u in auto)
    have "decode_loop g c n = Some (True, g, c, n)"
      using d by (simp add: decode_loop.simps [of g c n] unconsumed_def)
    then show ?thesis using Cons.prems True len
      by (intro exI [of _ True] exI [of _ g] exI [of _ c] exI [of _ n] exI [of _ "[]"] exI [of _ "m # ms"]) simp
  next
    case False
    have u: "unconsumed c n = request_bytes m @ drop ?k (unconsumed c n)"
      using False arg_cong [OF split, of "take ?k"] append_take_drop_id [of ?k "unconsumed c n"] by simp
    have d: "decode_request (unconsumed c n) = Some \<lparr>rqd_status = Ok, rqd_bytes_consumed = ?k, rqd_request = m\<rparr>"
      using decode_frame_request [OF m] u by metis
    have "identified m" using m by simp
    from handle_request_keeps [OF Cons.prems(1) this] obtain k1 g1 c1 where h: "handle_request g c m = Some (k1, g1, c1)"
      "keeps g c g1 c1" "cn_receive c1 = cn_receive c" "cn_received c1 = cn_received c" by blast
    have "0 < ?k" using requests.frame_nonempty [OF m] by auto
    then have n: "n < cn_received c" "n + ?k \<le> cn_received c" using False len by linarith+
    have step: "decode_loop g c n = (if k1 then decode_loop g1 c1 (n + ?k) else Some (False, g1, c1, n))"
      using n(1) d h(1) by (simp add: decode_loop.simps [of g c n] unconsumed_def)
    show ?thesis
    proof (cases k1)
      case False
      then show ?thesis using step h
        by (intro exI [of _ False] exI [of _ g1] exI [of _ c1] exI [of _ n] exI [of _ "[m]"] exI [of _ ms]) simp
    next
      case True
      have eq: "unconsumed c1 (n + ?k) = drop ?k (unconsumed c n)" using h(3,4) n by (simp add: unconsumed_def drop_take add.commute)
      have "request_bytes m @ (drop ?k (unconsumed c n) @ rest) = request_bytes m @ concat (map request_bytes ms)"
        using split u by (metis append.assoc concat.simps(2) list.map(2))
      then have "unconsumed c1 (n + ?k) @ rest = concat (map request_bytes ms)" unfolding eq by (simp only: same_append_eq)
      moreover have "gateway_ok (store g1 c1)" using h(2) by (simp add: keeps_def)
      ultimately obtain k g2 c2 n2 ms1 ms2 where i: "decode_loop g1 c1 (n + ?k) = Some (k, g2, c2, n2)" "ms = ms1 @ ms2"
        "handle_all g1 c1 ms1 = Some (k, g2, c2)" "cn_receive c2 = cn_receive c1" "cn_received c2 = cn_received c1"
        "k \<longrightarrow> n2 \<le> cn_received c1 \<and> unconsumed c1 n2 @ rest = concat (map request_bytes ms2) \<and> no_frame (cn_received c1 - n2) ms2"
        using Cons.IH [OF _ ms, of g1 c1 "n + ?k"] n(2) h(3,4) Cons.prems(5) by auto
      have "unconsumed c n2 = unconsumed c1 n2" "cn_received c1 = cn_received c"
        using h(3,4) by (simp_all add: unconsumed_def)
      then show ?thesis using i h step True
        by (intro exI [of _ k] exI [of _ g2] exI [of _ c2] exI [of _ n2] exI [of _ "m # ms1"] exI [of _ ms2]) simp
    qed
  qed
qed

text \<open>
  What \<^verbatim>\<open>recv\<close> returns on one readiness event while \<open>stream\<close> is in flight: the \<open>i\<close>-th call is
  interrupted when the \<open>i\<close>-th number is 0, and otherwise delivers at most that many bytes, at
  most the bytes asked for and at least one.  The call after the last number would block.
\<close>

fun recv_calls :: "nat list \<Rightarrow> nat \<Rightarrow> u8 list \<Rightarrow> recv_result list \<times> u8 list" where
  "recv_calls [] room stream = ([], stream)"
| "recv_calls (n # ns) room stream =
     (if room = 0 \<or> stream = [] then ([], stream)
      else if n = 0 then (case recv_calls ns room stream of (results, rest) \<Rightarrow> (RecvInterrupted # results, rest))
      else
        let k = min n (min room (length stream)) in
        case recv_calls ns (room - k) (drop k stream) of (results, rest) \<Rightarrow> (Data (take k stream) # results, rest))"

definition delivers :: "nat list \<Rightarrow> bool" where
  "delivers ns \<longleftrightarrow> (\<exists>n \<in> set ns. 0 < n)"

fun read_stream :: "TcpGateway \<Rightarrow> Connection \<Rightarrow> nat list list \<Rightarrow> u8 list \<Rightarrow> (bool \<times> TcpGateway \<times> Connection \<times> u8 list) option" where
  "read_stream g c [] stream = Some (True, g, c, stream)"
| "read_stream g c (ns # events) stream =
     (case recv_calls ns (receive_capacity - cn_received c) stream of (results, stream1) \<Rightarrow>
      do {
        (keep, g1, c1) \<leftarrow> read_requests results g c;
        if keep then read_stream g1 c1 events stream1 else Some (False, g1, c1, stream1)
      })"

lemma receive_stream:
  assumes "length (cn_receive c) = receive_capacity" "cn_received c \<le> receive_capacity"
    "recv_calls ns (receive_capacity - cn_received c) stream = (results, rest)"
  shows "\<exists>c1 x. receive_loop results c = (True, c1) \<and> stream = x @ rest \<and> unread c1 = unread c @ x \<and>
    c1 = with_input (cn_receive c1) (cn_received c1) c \<and> length (cn_receive c1) = receive_capacity \<and>
    cn_received c1 \<le> receive_capacity \<and>
    (delivers ns \<and> stream \<noteq> [] \<and> cn_received c < receive_capacity \<longrightarrow> x \<noteq> [])"
  using assms
proof (induction ns arbitrary: c stream results rest)
  case Nil
  then show ?case by (intro exI [of _ c] exI [of _ "[]"]) (simp add: with_input_same delivers_def)
next
  case (Cons n ns)
  show ?case
  proof (cases "cn_received c = receive_capacity \<or> stream = []")
    case True
    then show ?thesis using Cons.prems by (intro exI [of _ c] exI [of _ "[]"]) (auto simp: with_input_same)
  next
    case open_: False
    then have room: "cn_received c < receive_capacity" using Cons.prems(2) by simp
    show ?thesis
    proof (cases "n = 0")
      case True
      then obtain rs where rs: "recv_calls ns (receive_capacity - cn_received c) stream = (rs, rest)" "results = RecvInterrupted # rs"
        using Cons.prems(3) open_ room by (auto split: prod.splits)
      from Cons.IH [OF Cons.prems(1,2) rs(1)] show ?thesis using rs(2) room True by (auto simp: delivers_def)
    next
      case False
      define k where "k = min n (min (receive_capacity - cn_received c) (length stream))"
      let ?x = "take k stream"
      let ?c = "with_input (overwrite (cn_receive c) (cn_received c) ?x) (cn_received c + length ?x) c"
      have k: "0 < k" "k \<le> receive_capacity - cn_received c" "length ?x = k" using False open_ room by (auto simp: k_def)
      obtain rs where rs: "recv_calls ns (receive_capacity - cn_received c - k) (drop k stream) = (rs, rest)" "results = Data ?x # rs"
        using Cons.prems(3) open_ room False by (auto simp: k_def [symmetric] Let_def split: prod.splits)
      have c1: "length (cn_receive ?c) = receive_capacity" "cn_received ?c \<le> receive_capacity"
        "receive_capacity - cn_received ?c = receive_capacity - cn_received c - k"
        using Cons.prems(1) k room by (simp_all add: overwrite_def)
      have "receive_loop results c = receive_loop rs ?c"
        using rs(2) room k by (auto simp: Let_def with_input_def)
      moreover have "unread ?c = unread c @ ?x" using Cons.prems(1,2) k by (simp add: unread_def overwrite_def)
      moreover from Cons.IH [OF c1(1,2)] rs(1) c1(3) obtain c2 y where
        "receive_loop rs ?c = (True, c2)" "drop k stream = y @ rest" "unread c2 = unread ?c @ y"
        "c2 = with_input (cn_receive c2) (cn_received c2) ?c" "length (cn_receive c2) = receive_capacity" "cn_received c2 \<le> receive_capacity"
        by metis
      ultimately show ?thesis using k(1) open_ append_take_drop_id [of k stream]
        by (intro exI [of _ c2] exI [of _ "?x @ y"]) auto
    qed
  qed
qed

lemma unread_moved:
  assumes "cn_received c \<le> length (cn_receive c)" "n \<le> cn_received c"
  shows "unread (c\<lparr>cn_receive := overwrite (cn_receive c) 0 (take (cn_received c - n) (drop n (cn_receive c))),
      cn_received := cn_received c - n\<rparr>) = unconsumed c n"
  using assms by (simp add: unread_def unconsumed_def overwrite_def)

lemma no_frame_less: "no_frame left ms \<Longrightarrow> left < 80"
  using request_frame_size_bounds(2) by (cases ms) (auto intro: order_less_le_trans)

lemma read_requests_stream:
  assumes ok: "gateway_ok (store g c)" and calls: "recv_calls ns (receive_capacity - cn_received c) stream = (results, rest)"
    and ms: "\<forall>m \<in> set ms. wf_request m" "unread c @ stream = concat (map request_bytes ms)"
  shows "\<exists>k g2 c2 ms1 ms2. read_requests results g c = Some (k, g2, c2) \<and> ms = ms1 @ ms2 \<and>
    handle_all g c ms1 = Some (k, g2, with_input (cn_receive c) (cn_received c) c2) \<and>
    (k \<longrightarrow> gateway_ok (store g2 c2) \<and> unread c2 @ rest = concat (map request_bytes ms2) \<and> no_frame (cn_received c2) ms2) \<and>
    (stream = [] \<or> length rest + (if delivers ns then 1 else 0) \<le> length stream \<or> cn_received c = receive_capacity)"
proof -
  have c: "length (cn_receive c) = receive_capacity" "cn_received c \<le> receive_capacity"
    using gateway_okD(1) [OF ok] by (simp_all add: conn_ok_def)
  obtain c1 x where r: "receive_loop results c = (True, c1)" "stream = x @ rest" "unread c1 = unread c @ x"
    "c1 = with_input (cn_receive c1) (cn_received c1) c" "length (cn_receive c1) = receive_capacity" "cn_received c1 \<le> receive_capacity"
    "delivers ns \<and> stream \<noteq> [] \<and> cn_received c < receive_capacity \<longrightarrow> x \<noteq> []"
    using receive_stream [OF c calls] by blast
  have ok1: "gateway_ok (store g c1)"
    using receive_loop_ok [OF gateway_okD(1) [OF ok] r(1)] by (intro same_pending_ok [OF ok]) auto
  have "unconsumed c1 0 @ rest = concat (map request_bytes ms)"
    using ms(2) r(2,3) by (simp add: unread_def unconsumed_def)
  from decode_loop_frames [OF ok1 ms(1) this] r(5,6) obtain k g2 c2 n ms1 ms2 where
    d: "decode_loop g c1 0 = Some (k, g2, c2, n)" "ms = ms1 @ ms2" "handle_all g c1 ms1 = Some (k, g2, c2)"
      "cn_receive c2 = cn_receive c1" "cn_received c2 = cn_received c1"
      "k \<longrightarrow> n \<le> cn_received c1 \<and> unconsumed c1 n @ rest = concat (map request_bytes ms2) \<and> no_frame (cn_received c1 - n) ms2"
    by auto
  have all: "handle_all g c ms1 = Some (k, g2, with_input (cn_receive c) (cn_received c) c2)"
    using handle_all_input [of g "cn_receive c" "cn_received c" c1 ms1] d(3) r(4)
    by (metis (no_types, lifting) on_input_def option.map(2) case_prod_conv with_input_same with_input_with_input)
  have progress: "stream = [] \<or> length rest + (if delivers ns then 1 else 0) \<le> length stream \<or> cn_received c = receive_capacity"
    using r(2,7) c(2) by (cases x) auto
  show ?thesis
  proof (cases k)
    case False
    then have "read_requests results g c = Some (False, g2, c2)" using r(1) d(1) by (simp add: read_requests_def)
    then show ?thesis using False all d(2) progress
      by (intro exI [of _ False] exI [of _ g2] exI [of _ c2] exI [of _ ms1] exI [of _ ms2]) simp
  next
    case True
    let ?c3 = "if n \<noteq> 0 then c2\<lparr>cn_receive := overwrite (cn_receive c2) 0 (take (cn_received c2 - n) (drop n (cn_receive c2))),
      cn_received := cn_received c2 - n\<rparr> else c2"
    have left: "cn_received ?c3 = cn_received c1 - n" using d(5) by simp
    have "cn_received ?c3 \<noteq> receive_capacity"
      using d(6) True no_frame_less [of "cn_received c1 - n" ms2] left by (simp add: receive_capacity_def)
    then have rr: "read_requests results g c = Some (True, g2, ?c3)" using r(1) d(1) True by (simp add: read_requests_def Let_def)
    have "gateway_ok (store g2 ?c3)" using read_requests_keeps [OF ok, of results] rr by (auto simp: keeps_def)
    moreover have "unread ?c3 = unconsumed c1 n"
      using unread_moved [of c2 n] d(4-6) r(5,6) True by (auto simp: unread_def unconsumed_def)
    moreover have "with_input (cn_receive c) (cn_received c) ?c3 = with_input (cn_receive c) (cn_received c) c2"
      by (simp add: with_input_def)
    ultimately show ?thesis using rr all d(2,6) True left progress
      by (intro exI [of _ True] exI [of _ g2] exI [of _ ?c3] exI [of _ ms1] exI [of _ ms2]) auto
  qed
qed

text \<open>Over all events, the connection has handled exactly the requests that have arrived completely.\<close>

lemma read_stream_requests:
  assumes "gateway_ok (store g c)" "\<forall>m \<in> set ms. wf_request m" "unread c @ stream = concat (map request_bytes ms)"
    "no_frame (cn_received c) ms"
  shows "\<exists>k g2 c2 rest ms1 ms2. read_stream g c events stream = Some (k, g2, c2, rest) \<and> ms = ms1 @ ms2 \<and>
    handle_all g c ms1 = Some (k, g2, with_input (cn_receive c) (cn_received c) c2) \<and>
    (k \<longrightarrow> unread c2 @ rest = concat (map request_bytes ms2) \<and> no_frame (length (unread c2)) ms2 \<and>
      (rest = [] \<or> length rest + length (filter delivers events) \<le> length stream))"
  using assms
proof (induction events arbitrary: g c stream ms)
  case Nil
  have "length (unread c) = cn_received c"
    using gateway_okD(1) [OF Nil.prems(1)] by (simp add: conn_ok_def unread_def)
  then show ?case using Nil.prems
    by (intro exI [of _ True] exI [of _ g] exI [of _ c] exI [of _ stream] exI [of _ "[]"] exI [of _ ms]) (simp add: with_input_same)
next
  case (Cons ns events)
  obtain results rest1 where calls: "recv_calls ns (receive_capacity - cn_received c) stream = (results, rest1)" by fastforce
  have "cn_received c \<noteq> receive_capacity" using no_frame_less [OF Cons.prems(4)] by (auto simp: receive_capacity_def)
  with read_requests_stream [OF Cons.prems(1) calls Cons.prems(2,3)] obtain k1 g1 c1 ms1 ms2 where
    r: "read_requests results g c = Some (k1, g1, c1)" "ms = ms1 @ ms2"
      "handle_all g c ms1 = Some (k1, g1, with_input (cn_receive c) (cn_received c) c1)"
      "k1 \<longrightarrow> gateway_ok (store g1 c1) \<and> unread c1 @ rest1 = concat (map request_bytes ms2) \<and> no_frame (cn_received c1) ms2"
      "stream = [] \<or> length rest1 + (if delivers ns then 1 else 0) \<le> length stream" by blast
  show ?case
  proof (cases k1)
    case False
    then show ?thesis using r calls
      by (intro exI [of _ False] exI [of _ g1] exI [of _ c1] exI [of _ rest1] exI [of _ ms1] exI [of _ ms2]) simp
  next
    case True
    then have "\<forall>m \<in> set ms2. wf_request m" using r(2) Cons.prems(2) by simp
    with Cons.IH [of g1 c1 ms2 rest1] r(4) True obtain k g2 c2 rest ms3 ms4 where
      i: "read_stream g1 c1 events rest1 = Some (k, g2, c2, rest)" "ms2 = ms3 @ ms4"
        "handle_all g1 c1 ms3 = Some (k, g2, with_input (cn_receive c1) (cn_received c1) c2)"
        "k \<longrightarrow> unread c2 @ rest = concat (map request_bytes ms4) \<and> no_frame (length (unread c2)) ms4 \<and>
          (rest = [] \<or> length rest + length (filter delivers events) \<le> length rest1)" by blast
    have "handle_all g c (ms1 @ ms3) = Some (k, g2, with_input (cn_receive c) (cn_received c) c2)"
      using r(3) True i(3) by (simp add: handle_all_append handle_all_input on_input_def)
    moreover have "read_stream g c (ns # events) stream = Some (k, g2, c2, rest)" using calls r(1) i(1) True by simp
    moreover have "ms = (ms1 @ ms3) @ ms4" using r(2) i(2) by simp
    moreover have "stream = [] \<Longrightarrow> rest1 = []" using calls by (cases ns) auto
    then have "rest = [] \<or> length rest + length (filter delivers (ns # events)) \<le> length stream" if k
      using i(4) r(5) that by (auto split: if_splits)
    ultimately show ?thesis using i(4) by blast
  qed
qed

subsection \<open>Outbound\<close>

text \<open>What happens to the output of a connection: responses are queued and the socket is written to.\<close>

datatype output_step = Queue Response | Flush "send_result list"

fun output_run :: "TcpGateway \<Rightarrow> Connection \<Rightarrow> output_step list \<Rightarrow> (TcpGateway \<times> Connection \<times> Response list \<times> u8 list) option" where
  "output_run g c [] = Some (g, c, [], [])"
| "output_run g c (Queue r # steps) =
     do {
       (ok, g1, c1) \<leftarrow> queue_response g c r;
       (g2, c2, rs, wire) \<leftarrow> output_run g1 c1 steps;
       Some (g2, c2, (if ok then [r] else []) @ rs, wire)
     }"
| "output_run g c (Flush results # steps) =
     (case flush_output results g c of (ok, g1, c1, sent) \<Rightarrow>
      do {
        (g2, c2, rs, wire) \<leftarrow> output_run g1 c1 steps;
        Some (g2, c2, rs, sent @ wire)
      })"

lemma flush_output_pending:
  assumes "conn_ok c" "flush_output results g c = (keep, g', c', wire)"
  shows "conn_ok c' \<and> wire @ pending c' = pending c"
proof -
  obtain ok c1 w where s: "send_loop results c [] = (ok, c1, w)" by (cases "send_loop results c []") auto
  from send_loop_ok [OF assms(1) s] have "conn_ok c1" "w @ pending c1 = pending c" by auto
  moreover have "conn_ok (c1\<lparr>cn_transmit_begin := 0, cn_transmit_end := 0\<rparr>) \<and>
      pending (c1\<lparr>cn_transmit_begin := 0, cn_transmit_end := 0\<rparr>) = pending c1"
    if "cn_transmit_begin c1 = cn_transmit_end c1"
    using that \<open>conn_ok c1\<close> by (auto simp: conn_ok_def pending_def)
  ultimately show ?thesis using assms(2) s by (auto simp: flush_output_def Let_def split: if_splits)
qed

lemma output_run_stream:
  assumes "conn_ok c"
  shows "\<exists>g' c' rs wire. output_run g c steps = Some (g', c', rs, wire) \<and> conn_ok c' \<and>
    wire @ pending c' = pending c @ concat (map response_bytes rs) \<and> (\<forall>r \<in> set rs. addressed r)"
  using assms
proof (induction g c steps rule: output_run.induct)
  case (2 g c r steps)
  let ?ok = "addressed r \<and> length (pending c) + 68 \<le> transmit_capacity"
  from queue_response_ok [OF "2.prems", of g r] obtain c1 where
    q: "queue_response g c r = Some (?ok, if ?ok then update_interest g c1 else g, c1)" "conn_ok c1"
      "pending c1 = pending c @ (if ?ok then response_bytes r else [])" by blast
  from "2.IH" [OF q(1) refl refl q(2)] obtain g' c' rs wire where
    i: "output_run (if ?ok then update_interest g c1 else g) c1 steps = Some (g', c', rs, wire)" "conn_ok c'"
      "wire @ pending c' = pending c1 @ concat (map response_bytes rs)" "\<forall>r \<in> set rs. addressed r" by blast
  then show ?case using q
    by (intro exI [of _ g'] exI [of _ c'] exI [of _ "(if ?ok then [r] else []) @ rs"] exI [of _ wire]) auto
next
  case (3 g c results steps)
  obtain ok g1 c1 sent where f: "flush_output results g c = (ok, g1, c1, sent)" by (cases "flush_output results g c") auto
  note p = flush_output_pending [OF "3.prems" f]
  from "3.IH" [OF f [symmetric] refl refl] p obtain g' c' rs wire where
    i: "output_run g1 c1 steps = Some (g', c', rs, wire)" "conn_ok c'"
      "wire @ pending c' = pending c1 @ concat (map response_bytes rs)" "\<forall>r \<in> set rs. addressed r" by blast
  have "(sent @ wire) @ pending c' = pending c @ concat (map response_bytes rs)" using i(3) p by (metis append.assoc)
  then show ?case using f i
    by (intro exI [of _ g'] exI [of _ c'] exI [of _ rs] exI [of _ "sent @ wire"]) simp
qed simp

text \<open>
  C18.  Output is a faithful stream.  Whatever responses are queued on a new connection and however
  the socket accepts bytes in between, the bytes sent followed by the bytes pending are
  exactly the frames of the responses accepted, in order; every one of them decodes.  A
  response is refused exactly when it has no address or the pending bytes leave no room for
  its frame, and then nothing is added.
\<close>

theorem output_stream_faithful:
  "\<exists>g' c' rs wire. output_run g (connection fd) steps = Some (g', c', rs, wire) \<and>
    wire @ pending c' = concat (map response_bytes rs) \<and> (\<forall>r \<in> set rs. addressed r) \<and>
    (\<exists>g2 c2. queue_response g' c' response = Some (addressed response \<and> length (pending c') + 68 \<le> transmit_capacity, g2, c2) \<and>
      pending c2 = pending c' @ (if addressed response \<and> length (pending c') + 68 \<le> transmit_capacity
        then response_bytes response else []))"
proof -
  have "pending (connection fd) = []" by (simp add: pending_def connection_def)
  with output_run_stream [OF conn_ok_connection [of fd], of g steps] obtain g' c' rs wire where
    o: "output_run g (connection fd) steps = Some (g', c', rs, wire)" "conn_ok c'"
      "wire @ pending c' = concat (map response_bytes rs)" "\<forall>r \<in> set rs. addressed r" by auto
  with queue_response_ok [OF o(2), of g' response] show ?thesis by blast
qed
end
