(* ===== verification/Runner_Theorems.thy ===== *)
theory Runner_Theorems
  imports Runner
begin

text \<open>
  What the engine threads promise: requests are served in order and at most once, a response is
  dropped on a full output queue only after the stop flag was raised, a gateway never sees a
  sequence gap, and a journal rebuilds the book of the engine that wrote it.
\<close>

subsection \<open>No deadlock\<close>

lemma drain_output:
  assumes "sq_invar (rn_output (sy_runner s))"
  shows "\<exists>q. (system_step step)\<^sup>*\<^sup>* s (s\<lparr>sy_runner := (sy_runner s)\<lparr>rn_output := q\<rparr>,
      sy_received := sy_received s @ sq_contents (rn_output (sy_runner s))\<rparr>) \<and> sq_invar q \<and> sq_contents q = []"
  using assms
proof (induction "sq_contents (rn_output (sy_runner s))" arbitrary: s)
  case Nil
  then have "s = s\<lparr>sy_runner := (sy_runner s)\<lparr>rn_output := rn_output (sy_runner s)\<rparr>, sy_received := sy_received s @ []\<rparr>"
    by simp
  then show ?case using Nil by (metis rtranclp.rtrancl_refl)
next
  case (Cons y ys)
  obtain q where q: "try_pop (rn_output (sy_runner s)) = Some (Some y, q)" "sq_invar q" "sq_contents q = ys"
    using spsc.pop_next [OF Cons.prems Cons.hyps(2) [symmetric]] by blast
  let ?s1 = "s\<lparr>sy_runner := (sy_runner s)\<lparr>rn_output := q\<rparr>, sy_received := sy_received s @ [y]\<rparr>"
  have "system_step step s ?s1" using takes [OF q(1)] by simp
  moreover obtain q' where "(system_step step)\<^sup>*\<^sup>* ?s1 (?s1\<lparr>sy_runner := (sy_runner ?s1)\<lparr>rn_output := q'\<rparr>,
      sy_received := sy_received ?s1 @ sq_contents (rn_output (sy_runner ?s1))\<rparr>)" "sq_invar q'" "sq_contents q' = []"
    using Cons.hyps(1) [of ?s1] q by auto
  ultimately show ?case using q(3) Cons.hyps(2) converse_rtranclp_into_rtranclp [of "system_step step" s ?s1]
    by (intro exI [of _ q']) simp
qed

definition quiet :: "('s, 'i, 'o) runner_system \<Rightarrow> bool" where
  "quiet s \<longleftrightarrow> sq_invar (rn_input (sy_runner s)) \<and> sq_invar (rn_output (sy_runner s)) \<and> sq_contents (rn_output (sy_runner s)) = []"

lemma publish_one:
  assumes "quiet s" "rn_phase (sy_runner s) = Publishing x (e # es)"
  shows "\<exists>s'. (system_step (run_step prepare reply))\<^sup>*\<^sup>* s s' \<and> quiet s' \<and> rn_phase (sy_runner s') = Publishing x es \<and>
    rn_input (sy_runner s') = rn_input (sy_runner s) \<and> rn_book (sy_runner s') = rn_book (sy_runner s) \<and> sy_sent s' = sy_sent s"
proof -
  have out: "sq_invar (rn_output (sy_runner s))" "sq_contents (rn_output (sy_runner s)) = []" using assms(1) by (simp_all add: quiet_def)
  have "length (sq_contents (rn_output (sy_runner s))) < sq_capacity (rn_output (sy_runner s))"
    using out by (simp add: sq_capacity_def sq_invar_def)
  then obtain q where q: "try_push (rn_output (sy_runner s)) (reply x e) = Some (True, q)" "sq_invar q"
    using spsc.push_room [OF out(1)] by blast
  let ?s1 = "s\<lparr>sy_runner := (sy_runner s)\<lparr>rn_output := q, rn_phase := Publishing x es\<rparr>\<rparr>"
  have st: "system_step (run_step prepare reply) s ?s1"
    by (rule runs [where stop = False and padding = "[0, 0, 0, 0]"]) (simp_all add: run_step_def assms(2) publish_def q(1))
  obtain q' where q': "(system_step (run_step prepare reply))\<^sup>*\<^sup>* ?s1 (?s1\<lparr>sy_runner := (sy_runner ?s1)\<lparr>rn_output := q'\<rparr>,
      sy_received := sy_received ?s1 @ sq_contents (rn_output (sy_runner ?s1))\<rparr>)" "sq_invar q'" "sq_contents q' = []"
    using drain_output [of ?s1] q(2) by auto
  show ?thesis
    by (rule exI, rule conjI, rule converse_rtranclp_into_rtranclp [OF st q'(1)])
      (use assms(1) q'(2,3) in \<open>simp add: quiet_def\<close>)
qed

lemma publish_all:
  assumes "quiet s" "rn_phase (sy_runner s) = Publishing x es"
  shows "\<exists>s'. (system_step (run_step prepare reply))\<^sup>*\<^sup>* s s' \<and> quiet s' \<and> rn_phase (sy_runner s') = Polling \<and>
    rn_input (sy_runner s') = rn_input (sy_runner s) \<and> rn_book (sy_runner s') = rn_book (sy_runner s) \<and> sy_sent s' = sy_sent s"
  using assms
proof (induction es arbitrary: s)
  case Nil
  have "system_step (run_step prepare reply) s (s\<lparr>sy_runner := (sy_runner s)\<lparr>rn_phase := Polling\<rparr>\<rparr>)"
    by (rule runs [where stop = False and padding = "[0, 0, 0, 0]"]) (simp_all add: run_step_def Nil publish_def)
  then show ?case
    by (intro exI [of _ "s\<lparr>sy_runner := (sy_runner s)\<lparr>rn_phase := Polling\<rparr>\<rparr>"] conjI r_into_rtranclp)
      (use Nil in \<open>simp_all add: quiet_def\<close>)
next
  case (Cons e es)
  from publish_one [OF Cons.prems, of prepare reply] obtain s1 where s1: "(system_step (run_step prepare reply))\<^sup>*\<^sup>* s s1"
    "quiet s1" "rn_phase (sy_runner s1) = Publishing x es" "rn_input (sy_runner s1) = rn_input (sy_runner s)"
    "rn_book (sy_runner s1) = rn_book (sy_runner s)" "sy_sent s1 = sy_sent s" by blast
  from Cons.IH [OF s1(2,3)] obtain s2 where s2: "(system_step (run_step prepare reply))\<^sup>*\<^sup>* s1 s2"
    "quiet s2" "rn_phase (sy_runner s2) = Polling" "rn_input (sy_runner s2) = rn_input (sy_runner s1)"
    "rn_book (sy_runner s2) = rn_book (sy_runner s1)" "sy_sent s2 = sy_sent s1" by blast
  show ?case by (rule exI [of _ s2]) (use s1 s2 rtranclp_trans [OF s1(1) s2(1)] in simp)
qed

lemma serve_one:
  assumes s: "quiet s" "rn_phase (sy_runner s) = Polling" "sq_contents (rn_input (sy_runner s)) = x # xs"
    and book: "reachable cfg (rn_book (sy_runner s))"
  shows "\<exists>s'. (system_step (run_step prepare reply))\<^sup>*\<^sup>* s s' \<and> quiet s' \<and> rn_phase (sy_runner s') = Polling \<and>
    sq_contents (rn_input (sy_runner s')) = xs \<and> reachable cfg (rn_book (sy_runner s')) \<and> sy_sent s' = sy_sent s"
proof -
  have inv: "sq_invar (rn_input (sy_runner s))" using s(1) by (simp add: quiet_def)
  obtain q where q: "try_pop (rn_input (sy_runner s)) = Some (Some x, q)" "sq_invar q" "sq_contents q = xs"
    using spsc.pop_next [OF inv s(3)] by blast
  obtain c n where p: "prepare (rn_sequence (sy_runner s)) x = (c, n)" by fastforce
  obtain j where j: "log_command (rn_journal (sy_runner s)) None [0, 0, 0, 0] [0, 0, 0, 0] c = (Inr (), j)"
    by (cases "rn_journal (sy_runner s)") (simp_all add: log_command_def journal_append_def Let_def)
  obtain b es where b: "process (rn_book (sy_runner s)) c [] = Some (b, es)" "reachable cfg b"
    using book by (rule process_defined)
  let ?s1 = "s\<lparr>sy_runner := (sy_runner s)\<lparr>rn_input := q, rn_sequence := n, rn_journal := j, rn_book := b,
    rn_phase := Publishing x es\<rparr>\<rparr>"
  have st: "system_step (run_step prepare reply) s ?s1"
    by (rule runs [where stop = False and failure = None and padding = "[0, 0, 0, 0]"])
      (simp_all add: run_step_def s(2) poll_def q(1) p j b(1))
  have "quiet ?s1" using s(1) q(2) by (simp add: quiet_def)
  from publish_all [OF this, of x es prepare reply] obtain s2 where s2: "(system_step (run_step prepare reply))\<^sup>*\<^sup>* ?s1 s2" "quiet s2"
    "rn_phase (sy_runner s2) = Polling" "rn_input (sy_runner s2) = q" "rn_book (sy_runner s2) = b" "sy_sent s2 = sy_sent s"
    by auto
  show ?thesis
    by (rule exI [of _ s2]) (use q(3) b(2) s2 converse_rtranclp_into_rtranclp [of _ s, OF st s2(1)] in simp)
qed

lemma serve_all:
  assumes "quiet s" "rn_phase (sy_runner s) = Polling" "reachable cfg (rn_book (sy_runner s))"
  shows "\<exists>s'. (system_step (run_step prepare reply))\<^sup>*\<^sup>* s s' \<and> quiet s' \<and> rn_phase (sy_runner s') = Polling \<and>
    sq_contents (rn_input (sy_runner s')) = [] \<and> sy_sent s' = sy_sent s"
  using assms
proof (induction "sq_contents (rn_input (sy_runner s))" arbitrary: s)
  case Nil
  then show ?case by (intro exI [of _ s]) simp
next
  case (Cons x xs)
  from serve_one [OF Cons.prems(1,2) Cons.hyps(2) [symmetric] Cons.prems(3), of prepare reply]
  obtain s1 where s1: "(system_step (run_step prepare reply))\<^sup>*\<^sup>* s s1" "quiet s1" "rn_phase (sy_runner s1) = Polling"
    "sq_contents (rn_input (sy_runner s1)) = xs" "reachable cfg (rn_book (sy_runner s1))" "sy_sent s1 = sy_sent s" by blast
  from Cons.hyps(1) [OF s1(4) [symmetric] s1(2,3,5)] obtain s2 where s2: "(system_step (run_step prepare reply))\<^sup>*\<^sup>* s1 s2"
    "quiet s2" "rn_phase (sy_runner s2) = Polling" "sq_contents (rn_input (sy_runner s2)) = []" "sy_sent s2 = sy_sent s1" by blast
  show ?case by (rule exI [of _ s2]) (use s1 s2 rtranclp_trans [OF s1(1) s2(1)] in simp)
qed

lemma runner_drains:
  assumes fresh: "fresh_runner cfg r0" and start: "(system_step (run_step prepare reply))\<^sup>*\<^sup>* (system_start r0) s"
    and pc: "rn_phase (sy_runner s) = Polling \<or> (\<exists>x es. rn_phase (sy_runner s) = Publishing x es)"
  shows "\<exists>s'. (system_step (run_step prepare reply))\<^sup>*\<^sup>* s s' \<and> quiet s' \<and> rn_phase (sy_runner s') = Polling \<and>
    sq_contents (rn_input (sy_runner s')) = [] \<and> sy_sent s' = sy_sent s"
proof -
  obtain served lost unpublished where acc: "accounts prepare reply r0 s served lost unpublished"
    by (rule system_accounts [OF fresh start])
  note a = acc [unfolded accounts_simps]
  have book: "reachable cfg (rn_book (sy_runner s))" using a fresh serve_reachable by (metis fresh_runner_def)
  have inv: "sq_invar (rn_input (sy_runner s))" "sq_invar (rn_output (sy_runner s))" using a by simp_all
  from drain_output [OF inv(2), of "run_step prepare reply"] obtain q where
    q: "(system_step (run_step prepare reply))\<^sup>*\<^sup>* s (s\<lparr>sy_runner := (sy_runner s)\<lparr>rn_output := q\<rparr>,
      sy_received := sy_received s @ sq_contents (rn_output (sy_runner s))\<rparr>)" "sq_invar q" "sq_contents q = []" by blast
  let ?s1 = "s\<lparr>sy_runner := (sy_runner s)\<lparr>rn_output := q\<rparr>, sy_received := sy_received s @ sq_contents (rn_output (sy_runner s))\<rparr>"
  have quiet: "quiet ?s1" using inv q(2,3) by (simp add: quiet_def)
  obtain s2 where s2: "(system_step (run_step prepare reply))\<^sup>*\<^sup>* ?s1 s2" "quiet s2" "rn_phase (sy_runner s2) = Polling"
    "reachable cfg (rn_book (sy_runner s2))" "sy_sent s2 = sy_sent s"
  proof (cases "rn_phase (sy_runner s) = Polling")
    case True
    then show thesis using that [of ?s1] quiet book by simp
  next
    case False
    then obtain x es where "rn_phase (sy_runner ?s1) = Publishing x es" using pc by auto
    from publish_all [OF quiet this, of prepare reply] show thesis using that book by auto
  qed
  from serve_all [OF s2(2-4), of prepare reply] obtain s3 where s3: "(system_step (run_step prepare reply))\<^sup>*\<^sup>* s2 s3"
    "quiet s3" "rn_phase (sy_runner s3) = Polling" "sq_contents (rn_input (sy_runner s3)) = []" "sy_sent s3 = sy_sent s2" by blast
  show ?thesis
    by (rule exI [of _ s3]) (use s3 s2(5) rtranclp_trans [OF q(1) rtranclp_trans [OF s2(1) s3(1)]] in simp)
qed

subsection \<open>Sequence numbers\<close>

lemma spec_match_reason:
  "spec_match command limit r os = (es, r', os') \<Longrightarrow> \<forall>e \<in> set es. e_reason e = NoReason"
proof (induction os arbitrary: r es)
  case (Cons ro os)
  then show ?case by (auto simp: Let_def split: if_splits prod.splits dest!: Cons.IH)
qed simp

lemma spec_execute_reason: "\<forall>e \<in> set (snd (spec_execute cfg A command replacement)). e_reason e = NoReason"
  by (rule spec_execute_cases [of command cfg A replacement]) (auto dest: spec_match_reason)

lemma spec_process_no_gap:
  assumes "c_sequence command = sb_last_sequence A + 1"
  shows "\<forall>e \<in> set (snd (spec_process_with fill cfg A command)). e_reason e \<noteq> SequenceGap"
proof -
  have submit: "\<forall>e \<in> set (snd (spec_submit fill cfg A c r)). e_reason e \<noteq> SequenceGap" for A c r
    using spec_execute_reason [of cfg A c r] by (auto simp: spec_submit_def spec_reject_def)
  show ?thesis
    using assms submit
    by (auto simp: spec_process_with_def spec_cancel_def spec_replace_def spec_reject_def Let_def
        split: CommandType.split option.split prod.split) (metis snd_conv)+
qed

lemma serve_gateway_sequence:
  assumes "serve gateway_prepare gateway_reply n b xs = Some (b', n', out)" "reachable cfg b"
    "n = st_last_sequence (ob_stats b) + 1"
  shows "st_last_sequence (ob_stats b') = st_last_sequence (ob_stats b) + of_nat (length xs) \<and>
    (\<forall>y \<in> set out. e_reason (gs_event y) \<noteq> SequenceGap)"
  using assms
proof (induction xs arbitrary: n b out)
  case (Cons x xs)
  let ?c = "fst (gateway_prepare n x)"
  have c: "c_sequence ?c = sb_last_sequence (view b) + 1" using Cons.prems(3) by (simp add: gateway_prepare_def view_def)
  obtain d b1 where b1: "process b ?c [] = Some (b1, [] @ snd (spec_process_with (\<lambda>_ _. d) cfg (view b) ?c))"
    "view b1 = fst (spec_process_with (\<lambda>_ _. d) cfg (view b) ?c)"
    by (rule book_invar_step [OF reachable_invar [OF Cons.prems(2)], of ?c "[]"])
  let ?es = "snd (spec_process_with (\<lambda>_ _. d) cfg (view b) ?c)"
  have p: "snd (gateway_prepare n x) = n + 1" by (simp add: gateway_prepare_def)
  obtain out1 where out: "serve gateway_prepare gateway_reply (n + 1) b1 xs = Some (b', n', out1)"
    "out = map (gateway_reply x) ?es @ out1"
    using Cons.prems(1) b1(1) p by (auto split: Option.bind_splits)
  have "sb_last_sequence (view b1) = n"
    using spec_process_last [of "\<lambda>_ _. d" cfg "view b" ?c] c b1(2) by (simp add: gateway_prepare_def)
  then have last: "st_last_sequence (ob_stats b1) = n" by (simp add: view_def)
  have "\<forall>e \<in> set ?es. e_reason e \<noteq> SequenceGap" by (rule spec_process_no_gap [OF c])
  then have "\<forall>y \<in> set (map (gateway_reply x) ?es). e_reason (gs_event y) \<noteq> SequenceGap" by (simp add: gateway_reply_def)
  moreover have "n + 1 = st_last_sequence (ob_stats b1) + 1" using last by simp
  note Cons.IH [OF out(1) reachable.step [OF Cons.prems(2) b1(1)] this]
  ultimately show ?case using out(2) last Cons.prems(3) by (auto simp: algebra_simps)
qed simp

subsection \<open>Properties of the gateway's engine thread\<close>

lemma fresh_gateway:
  assumes "reachable cfg b" "spsc_queue fill_in n_in = Inr qi" "spsc_queue fill_out n_out = Inr qo"
  shows "fresh_runner cfg (gateway_engine_runner b qi qo journal)"
  using assms(1) spsc_queue_new(1,2) [OF assms(2)] spsc_queue_new(1,2) [OF assms(3)]
  by (simp add: fresh_runner_def gateway_engine_runner_def)

lemma fresh_engine:
  assumes "reachable cfg b" "spsc_queue fill_in n_in = Inr qi" "spsc_queue fill_out n_out = Inr qo"
  shows "fresh_runner cfg (engine_runner b qi qo journal)"
  using assms(1) spsc_queue_new(1,2) [OF assms(2)] spsc_queue_new(1,2) [OF assms(3)]
  by (simp add: fresh_runner_def engine_runner_def)

text \<open>
  C12.  The gateway's engine thread serves requests in order and at most once.  However its
  steps interleave with the threads that feed it, take its responses and raise the stop flag,
  the requests sent are the requests served, at most one more, and those still queued; one
  more is there only when the loop has a journal and has thrown because it could not write the
  record.  The book is the one that serving the requests one after the other gives, and the
  responses taken and queued are, in order, the first of the responses to the requests served.
  While the loop waits for requests none is missing; while it publishes, it still holds the
  missing ones; only a loop that has returned after the stop flag was raised leaves responses
  unpublished, all of them responses to the last request served.
\<close>

theorem gateway_serves_in_order:
  assumes "reachable cfg b" "spsc_queue fill_in n_in = Inr qi" "spsc_queue fill_out n_out = Inr qo"
    "(system_step gateway_run_step)\<^sup>*\<^sup>* (system_start (gateway_engine_runner b qi qo journal)) s"
  shows "\<exists>served lost unpublished next_sequence.
    sy_sent s = served @ lost @ sq_contents (rn_input (sy_runner s)) \<and>
    (lost \<noteq> [] \<longrightarrow> length lost = 1 \<and> journal \<noteq> None \<and> rn_phase (sy_runner s) = Thrown RuntimeError) \<and>
    serve gateway_prepare gateway_reply (st_last_sequence (ob_stats b) + 1) b served =
      Some (rn_book (sy_runner s), next_sequence, sy_received s @ sq_contents (rn_output (sy_runner s)) @ unpublished) \<and>
    (case rn_phase (sy_runner s) of
       Polling \<Rightarrow> unpublished = []
     | Publishing x events \<Rightarrow> served \<noteq> [] \<and> last served = x \<and> unpublished = map (gateway_reply x) events
     | Returned \<Rightarrow> sy_stop s \<and>
         (unpublished \<noteq> [] \<longrightarrow> served \<noteq> [] \<and> (\<exists>events. unpublished = map (gateway_reply (last served)) events))
     | Thrown e \<Rightarrow> unpublished = [] \<and> journal \<noteq> None)"
proof -
  obtain served lost unpublished where
    "accounts gateway_prepare gateway_reply (gateway_engine_runner b qi qo journal) s served lost unpublished"
    by (rule system_accounts [OF fresh_gateway [OF assms(1-3)] assms(4) [unfolded gateway_run_step_def]])
  note a = this [unfolded accounts_simps]
  have ph: "phase_ok gateway_reply (sy_stop s) served lost unpublished (rn_phase (sy_runner s))" using a by simp
  have "rn_journal (sy_runner s) \<noteq> None \<Longrightarrow> journal \<noteq> None"
    using a by (auto simp: journal_ok_def gateway_engine_runner_def split: option.splits)
  then have thrown: "\<forall>e. rn_phase (sy_runner s) = Thrown e \<longrightarrow> journal \<noteq> None" using a by blast
  have "lost \<noteq> [] \<longrightarrow> length lost = 1 \<and> journal \<noteq> None \<and> rn_phase (sy_runner s) = Thrown RuntimeError"
    using ph thrown by (cases "rn_phase (sy_runner s)") (auto simp: le_Suc_eq)
  moreover have "case rn_phase (sy_runner s) of
       Polling \<Rightarrow> unpublished = []
     | Publishing x events \<Rightarrow> served \<noteq> [] \<and> last served = x \<and> unpublished = map (gateway_reply x) events
     | Returned \<Rightarrow> sy_stop s \<and>
         (unpublished \<noteq> [] \<longrightarrow> served \<noteq> [] \<and> (\<exists>events. unpublished = map (gateway_reply (last served)) events))
     | Thrown e \<Rightarrow> unpublished = [] \<and> journal \<noteq> None"
    using ph thrown by (cases "rn_phase (sy_runner s)") auto
  moreover have "\<exists>next_sequence. serve gateway_prepare gateway_reply (st_last_sequence (ob_stats b) + 1) b served =
      Some (rn_book (sy_runner s), next_sequence, sy_received s @ sq_contents (rn_output (sy_runner s)) @ unpublished)"
    using a by (simp add: gateway_engine_runner_def)
  ultimately show ?thesis using a by blast
qed

text \<open>
  C17.  Every request accepted by the input queue can be answered.  From every state of a gateway
  whose engine loop is running, there is a continuation, without further requests, after which
  the responses received are exactly those of all requests ever sent: neither a full output
  queue nor a half published request leads to a deadlock.
\<close>

theorem gateway_answers_everything:
  assumes "reachable cfg b" "spsc_queue fill_in n_in = Inr qi" "spsc_queue fill_out n_out = Inr qo"
    "(system_step gateway_run_step)\<^sup>*\<^sup>* (system_start (gateway_engine_runner b qi qo journal)) s"
    "rn_phase (sy_runner s) = Polling \<or> (\<exists>x es. rn_phase (sy_runner s) = Publishing x es)"
  shows "\<exists>s' next_sequence. (system_step gateway_run_step)\<^sup>*\<^sup>* s s' \<and> sy_sent s' = sy_sent s \<and>
    serve gateway_prepare gateway_reply (st_last_sequence (ob_stats b) + 1) b (sy_sent s) =
      Some (rn_book (sy_runner s'), next_sequence, sy_received s')"
proof -
  let ?r0 = "gateway_engine_runner b qi qo journal"
  note start = assms(4) [unfolded gateway_run_step_def] and fresh = fresh_gateway [OF assms(1-3), of journal]
  obtain s' where
    s': "(system_step (run_step gateway_prepare gateway_reply))\<^sup>*\<^sup>* s s'" "quiet s'" "rn_phase (sy_runner s') = Polling"
      "sq_contents (rn_input (sy_runner s')) = []" "sy_sent s' = sy_sent s"
    using runner_drains [OF fresh start assms(5)] by blast
  obtain served lost unpublished where "accounts gateway_prepare gateway_reply ?r0 s' served lost unpublished"
    by (rule system_accounts [OF fresh rtranclp_trans [OF start s'(1)]])
  then have "serve gateway_prepare gateway_reply (st_last_sequence (ob_stats b) + 1) b (sy_sent s) =
      Some (rn_book (sy_runner s'), prepared_state gateway_prepare (st_last_sequence (ob_stats b) + 1) served, sy_received s')"
    using s'(2-5) by (simp add: accounts_simps quiet_def gateway_engine_runner_def)
  then show ?thesis using s'(1,5) unfolding gateway_run_step_def by blast
qed

text \<open>
  C19.  A gateway never reports a sequence gap.  The engine thread numbers the commands itself, one
  after the other from the last sequence of the book, so no response taken or queued is a
  sequence-gap rejection, and the book has counted exactly the requests served.
\<close>

theorem gateway_never_gaps:
  assumes "reachable cfg b" "spsc_queue fill_in n_in = Inr qi" "spsc_queue fill_out n_out = Inr qo"
    "(system_step gateway_run_step)\<^sup>*\<^sup>* (system_start (gateway_engine_runner b qi qo journal)) s"
  shows "(\<forall>y \<in> set (sy_received s @ sq_contents (rn_output (sy_runner s))). e_reason (gs_event y) \<noteq> SequenceGap) \<and>
    (\<exists>served lost. sy_sent s = served @ lost @ sq_contents (rn_input (sy_runner s)) \<and> length lost \<le> 1 \<and>
      st_last_sequence (ob_stats (rn_book (sy_runner s))) = st_last_sequence (ob_stats b) + of_nat (length served))"
proof -
  let ?r0 = "gateway_engine_runner b qi qo journal"
  obtain served lost unpublished where "accounts gateway_prepare gateway_reply ?r0 s served lost unpublished"
    by (rule system_accounts [OF fresh_gateway [OF assms(1-3)] assms(4) [unfolded gateway_run_step_def]])
  note a = this [unfolded accounts_simps]
  have "phase_ok gateway_reply (sy_stop s) served lost unpublished (rn_phase (sy_runner s))" using a by simp
  then have "length lost \<le> 1" by (cases "rn_phase (sy_runner s)") simp_all
  moreover have "serve gateway_prepare gateway_reply (st_last_sequence (ob_stats b) + 1) b served =
      Some (rn_book (sy_runner s), prepared_state gateway_prepare (st_last_sequence (ob_stats b) + 1) served,
        sy_received s @ sq_contents (rn_output (sy_runner s)) @ unpublished)"
    using a by (simp add: gateway_engine_runner_def)
  from serve_gateway_sequence [OF this assms(1) refl]
  have "st_last_sequence (ob_stats (rn_book (sy_runner s))) = st_last_sequence (ob_stats b) + of_nat (length served)"
    "\<forall>y \<in> set (sy_received s @ sq_contents (rn_output (sy_runner s))). e_reason (gs_event y) \<noteq> SequenceGap"
    by auto
  moreover have "sy_sent s = served @ lost @ sq_contents (rn_input (sy_runner s))" using a by simp
  ultimately show ?thesis by blast
qed

subsection \<open>Recovery from the journal\<close>

lemma prepared_engine [simp]: "prepared engine_prepare s xs = xs"
  by (induction xs arbitrary: s) (simp_all add: engine_prepare_def)

lemma replay_config_ok: "\<exists>b. order_book replay_config = Inr b"
proof -
  have "checked_price_count replay_config = Inr 1000000" by code_simp
  then show ?thesis by (simp add: order_book_accepts replay_config_def)
qed

lemma replay_main_journal:
  assumes "order_book replay_config = Inr b" "replay_journal journal = Inr (cs, replayed k clean)" "replay_into b cs = Some bk"
  shows "replay_main 2 journal = Some (if clean \<and> st_rejected (ob_stats bk) = 0 then 0 else 1,
    Some \<lparr>rp_result = replayed k clean, rp_resting_orders = st_resting_orders (ob_stats bk),
      rp_trades = st_trades (ob_stats bk), rp_rejected = st_rejected (ob_stats bk)\<rparr>)"
  using assms by (simp add: replay_main_def) (simp add: replayed_def)

lemma replay_main_refused:
  assumes "order_book replay_config = Inr b" "replay_journal journal = Inl RuntimeError"
  shows "replay_main 2 journal = Some (1, None)"
  using assms by (simp add: replay_main_def)

text \<open>The journal of an engine thread: a prefix of the records of the commands served and of a lost one.\<close>

lemma engine_journal:
  assumes "reachable cfg b" "journal_writer None synchronous True True = Inr w"
    "spsc_queue fill_in n_in = Inr qi" "spsc_queue fill_out n_out = Inr qo"
    "(system_step engine_run_step)\<^sup>*\<^sup>* (system_start (engine_runner b qi qo (Some w))) s"
  obtains w' served lost ps m where "rn_journal (sy_runner s) = Some w'" "padded ps" "map snd ps = served @ lost"
    "jw_contents w' = take (16 + 48 * length served + m) (journal_file ps)"
    "sy_sent s = served @ lost @ sq_contents (rn_input (sy_runner s))"
    "lost \<noteq> [] \<longrightarrow> length lost = 1 \<and> rn_phase (sy_runner s) = Thrown RuntimeError"
    "replay_into b served = Some (rn_book (sy_runner s))"
proof -
  let ?r0 = "engine_runner b qi qo (Some w)"
  obtain served lost unpublished where "accounts engine_prepare engine_reply ?r0 s served lost unpublished"
    by (rule system_accounts [OF fresh_engine [OF assms(1,3,4)] assms(5) [unfolded engine_run_step_def]])
  note a = this [unfolded accounts_simps]
  have w: "jw_contents w = journal_file []" using journal_writer_contents [of None "[]" synchronous] assms(2) by auto
  have "journal_ok (Some w) served lost (rn_journal (sy_runner s))" using a by (simp add: engine_runner_def)
  then obtain w' ps qs m where w': "rn_journal (sy_runner s) = Some w'" "padded (ps @ qs)" "map snd ps = served" "map snd qs = lost"
    "jw_contents w' = jw_contents w @ concat (map record_bytes ps) @ take m (concat (map record_bytes qs))"
    unfolding journal_ok_def by (auto simp del: padded_append split: option.splits)
  have len: "length (journal_file ps) = 16 + 48 * length served" using length_journal_file [of ps] w'(2,3) by auto
  have "journal_file (ps @ qs) = journal_file ps @ concat (map record_bytes qs)" by (simp add: journal_file_def)
  then have "jw_contents w' = take (16 + 48 * length served + m) (journal_file (ps @ qs))"
    using len w'(5) w by (simp add: journal_file_def)
  moreover have "lost \<noteq> [] \<longrightarrow> length lost = 1 \<and> rn_phase (sy_runner s) = Thrown RuntimeError"
    using a by (cases "rn_phase (sy_runner s)") (auto simp: le_Suc_eq)
  moreover have "replay_into b served = Some (rn_book (sy_runner s))"
    using serve_replay [of engine_prepare engine_reply "()" b served] a by (simp add: engine_runner_def)
  ultimately show thesis using that [OF w'(1,2)] w'(3,4) a by simp
qed

text \<open>
  C13.  The journal rebuilds the engine.  Let an engine thread run on any reachable book with a new
  journal.  At any moment the journal holds the records of the commands processed so far and,
  when the thread has thrown because a write failed, at most the record of one more.  Feeding
  the processed commands into the book the engine started from gives the engine's book.  If
  any prefix of the journal survives, replay refuses it when the header is incomplete, and
  otherwise hands out exactly the commands whose records are complete; when the engine started
  from a new book of the replay tool's configuration, the tool's report and exit status are
  those of the book after these commands.
\<close>

theorem replay_rebuilds_engine:
  assumes "reachable cfg b" "journal_writer None synchronous True True = Inr w"
    "spsc_queue fill_in n_in = Inr qi" "spsc_queue fill_out n_out = Inr qo"
    "(system_step engine_run_step)\<^sup>*\<^sup>* (system_start (engine_runner b qi qo (Some w))) s"
  shows "\<exists>w' served lost. rn_journal (sy_runner s) = Some w' \<and>
    sy_sent s = served @ lost @ sq_contents (rn_input (sy_runner s)) \<and>
    (lost \<noteq> [] \<longrightarrow> length lost = 1 \<and> rn_phase (sy_runner s) = Thrown RuntimeError) \<and>
    16 + 48 * length served \<le> length (jw_contents w') \<and> length (jw_contents w') \<le> 16 + 48 * length (served @ lost) \<and>
    replay_into b served = Some (rn_book (sy_runner s)) \<and>
    (\<forall>n \<le> length (jw_contents w').
      replay_journal (Some (take n (jw_contents w'))) =
        (if n < 16 then Inl RuntimeError
         else Inr (take ((n - 16) div 48) (served @ lost), replayed ((n - 16) div 48) (48 dvd (n - 16)))) \<and>
      (\<exists>bk. replay_into b (take ((n - 16) div 48) (served @ lost)) = Some bk \<and>
        (order_book replay_config = Inr b \<longrightarrow>
          replay_main 2 (Some (take n (jw_contents w'))) =
            (if n < 16 then Some (1, None)
             else Some (if 48 dvd (n - 16) \<and> st_rejected (ob_stats bk) = 0 then 0 else 1,
               Some \<lparr>rp_result = replayed ((n - 16) div 48) (48 dvd (n - 16)),
                 rp_resting_orders = st_resting_orders (ob_stats bk), rp_trades = st_trades (ob_stats bk),
                 rp_rejected = st_rejected (ob_stats bk)\<rparr>)))))"
proof -
  obtain w' served lost ps m where j: "rn_journal (sy_runner s) = Some w'" "padded ps" "map snd ps = served @ lost"
    "jw_contents w' = take (16 + 48 * length served + m) (journal_file ps)"
    "sy_sent s = served @ lost @ sq_contents (rn_input (sy_runner s))"
    "lost \<noteq> [] \<longrightarrow> length lost = 1 \<and> rn_phase (sy_runner s) = Thrown RuntimeError"
    "replay_into b served = Some (rn_book (sy_runner s))"
    by (rule engine_journal [OF assms])
  have len: "length (journal_file ps) = 16 + 48 * length (served @ lost)"
    using length_journal_file [OF j(2)] arg_cong [OF j(3), of length] by simp
  have replay: "replay_journal (Some (take n (jw_contents w'))) =
      (if n < 16 then Inl RuntimeError
       else Inr (take ((n - 16) div 48) (served @ lost), replayed ((n - 16) div 48) (48 dvd (n - 16))))"
    if "n \<le> length (jw_contents w')" for n
    using replay_any_prefix [OF j(2), of n] that unfolding j(3,4) by (simp add: min_def split: if_splits)
  have into: "\<exists>bk. replay_into b cs = Some bk" for cs
    using replay_into_defined [OF assms(1)] by blast
  have "\<exists>bk. replay_into b (take ((n - 16) div 48) (served @ lost)) = Some bk \<and>
        (order_book replay_config = Inr b \<longrightarrow>
          replay_main 2 (Some (take n (jw_contents w'))) =
            (if n < 16 then Some (1, None)
             else Some (if 48 dvd (n - 16) \<and> st_rejected (ob_stats bk) = 0 then 0 else 1,
               Some \<lparr>rp_result = replayed ((n - 16) div 48) (48 dvd (n - 16)),
                 rp_resting_orders = st_resting_orders (ob_stats bk), rp_trades = st_trades (ob_stats bk),
                 rp_rejected = st_rejected (ob_stats bk)\<rparr>)))"
    if "n \<le> length (jw_contents w')" for n
    using into [of "take ((n - 16) div 48) (served @ lost)"] replay [OF that]
      replay_main_journal [of b "Some (take n (jw_contents w'))"] replay_main_refused [of b "Some (take n (jw_contents w'))"] by auto
  with replay show ?thesis using j(1,5-7) len j(4)
    by (intro exI [of _ w'] exI [of _ served] exI [of _ lost]) simp
qed

subsection \<open>A run with one order\<close>

lemma feed_one:
  assumes "fresh_runner cfg r0"
  shows "\<exists>s. (system_step (run_step prepare reply))\<^sup>*\<^sup>* (system_start r0) s \<and> sy_sent s = [x] \<and> rn_phase (sy_runner s) = Polling"
proof -
  have i: "sq_invar (rn_input r0)" "sq_contents (rn_input r0) = []" "rn_phase r0 = Polling"
    using assms by (simp_all add: fresh_runner_def)
  then have "length (sq_contents (rn_input r0)) < sq_capacity (rn_input r0)" by (simp add: sq_capacity_def sq_invar_def)
  then obtain q where q: "try_push (rn_input r0) x = Some (True, q)" using spsc.push_room [OF i(1)] by blast
  have "system_step (run_step prepare reply) (system_start r0)
      ((system_start r0)\<lparr>sy_runner := r0\<lparr>rn_input := q\<rparr>, sy_sent := [x]\<rparr>)"
    using feeds [of "system_start r0" x True q] q by (simp add: system_start_def)
  then show ?thesis by (rule exI [of _ "(system_start r0)\<lparr>sy_runner := r0\<lparr>rn_input := q\<rparr>, sy_sent := [x]\<rparr>",
        OF conjI, OF r_into_rtranclp]) (simp add: i)
qed

lemma feed_and_drain:
  assumes "fresh_runner cfg r0"
  shows "\<exists>s. (system_step (run_step prepare reply))\<^sup>*\<^sup>* (system_start r0) s \<and> sy_sent s = [x] \<and> quiet s \<and>
    rn_phase (sy_runner s) = Polling \<and> sq_contents (rn_input (sy_runner s)) = []"
proof -
  from feed_one [OF assms, of prepare reply x] obtain s where
    s: "(system_step (run_step prepare reply))\<^sup>*\<^sup>* (system_start r0) s" "sy_sent s = [x]" "rn_phase (sy_runner s) = Polling" by blast
  from runner_drains [OF assms s(1)] s(3) obtain s' where s': "(system_step (run_step prepare reply))\<^sup>*\<^sup>* s s'" "quiet s'"
    "rn_phase (sy_runner s') = Polling" "sq_contents (rn_input (sy_runner s')) = []" "sy_sent s' = sy_sent s" by blast
  show ?thesis by (rule exI [of _ s']) (use s(2) s' rtranclp_trans [OF s(1) s'(1)] in simp)
qed

definition demo_request :: GatewayRequest where
  "demo_request = \<lparr>gq_session_id = 7, gq_client_sequence = 1, gq_command = limit_order 0 Sell 1 1 3\<rparr>"

definition demo_response :: "Event \<Rightarrow> GatewayResponse" where
  "demo_response e = \<lparr>gs_session_id = 7, gs_client_sequence = 1, gs_event = e\<rparr>"

definition demo_responses :: "GatewayResponse list" where
  "demo_responses = [demo_response (make_event Accepted (limit_order 1 Sell 1 1 3) 0 0 0 NoReason),
     demo_response (make_event Rested (limit_order 1 Sell 1 1 3) 0 1 3 NoReason)]"

lemma demo_queues: "\<exists>qi qo. spsc_queue demo_request 2 = Inr qi \<and> spsc_queue (demo_response default_event) 2 = Inr qo"
proof -
  have "storage_capacity 2 = Inr 4" by code_simp
  then show ?thesis by (simp add: spsc_queue_def)
qed

lemma serve_demo:
  assumes "order_book tiny_config = Inr b"
  shows "st_last_sequence (ob_stats b) = 0"
    "\<exists>b'. serve gateway_prepare gateway_reply 1 b [demo_request] = Some (b', 2, demo_responses)"
proof -
  let ?e = "\<lparr>sb_bids = [], sb_asks = [], sb_last_sequence = 0\<rparr>" and ?c = "limit_order 1 Sell 1 1 3"
  have v: "view b = ?e" using simulates_view [OF order_book_simulates(1) [OF assms]] by simp
  then show "st_last_sequence (ob_stats b) = 0" by (simp add: view_def)
  have "view_side b Buy = []" "view_side b Sell = []" using v by (simp_all add: view_def)
  then obtain b' where "process_all b [?c] [] = Some (b', [] @ snd (spec_run tiny_config ?e [?c]))"
    using process_all_refines [OF reachable.start [OF assms], of "[?c]" "[]"] unfolding v by (auto simp: limit_order_def)
  moreover have "snd (spec_run tiny_config ?e [?c]) =
      [make_event Accepted ?c 0 0 0 NoReason, make_event Rested ?c 0 1 3 NoReason]" by code_simp
  ultimately have "process b ?c [] = Some (b', [make_event Accepted ?c 0 0 0 NoReason, make_event Rested ?c 0 1 3 NoReason])"
    by (auto split: Option.bind_splits)
  moreover have "gateway_prepare 1 demo_request = (?c, 2)" by (simp add: gateway_prepare_def demo_request_def limit_order_def)
  ultimately show "\<exists>b'. serve gateway_prepare gateway_reply 1 b [demo_request] = Some (b', 2, demo_responses)"
    by (simp add: demo_responses_def demo_response_def gateway_reply_def demo_request_def)
qed

theorem gateway_serves_in_order_witness:
  "\<exists>b qi qo s. order_book tiny_config = Inr b \<and>
    (system_step gateway_run_step)\<^sup>*\<^sup>* (system_start (gateway_engine_runner b qi qo None)) s \<and>
    sy_sent s = [demo_request] \<and> sy_received s = demo_responses"
proof -
  obtain b where b: "order_book tiny_config = Inr b" using tiny_book by blast
  obtain qi qo where q: "spsc_queue demo_request 2 = Inr qi" "spsc_queue (demo_response default_event) 2 = Inr qo"
    using demo_queues by blast
  note r = reachable.start [OF b]
  from feed_and_drain [OF fresh_gateway [OF r q, of None], of gateway_prepare gateway_reply demo_request]
  obtain s where s: "(system_step gateway_run_step)\<^sup>*\<^sup>* (system_start (gateway_engine_runner b qi qo None)) s"
    "sy_sent s = [demo_request]" "quiet s" "rn_phase (sy_runner s) = Polling" "sq_contents (rn_input (sy_runner s)) = []"
    unfolding gateway_run_step_def by blast
  from gateway_serves_in_order [OF r q s(1)] have "sy_received s = demo_responses"
    using s(2-5) serve_demo [OF b] by (auto simp: quiet_def)
  then show ?thesis using b s(1,2) by blast
qed

theorem gateway_answers_everything_witness:
  "\<exists>b qi qo s s'. order_book tiny_config = Inr b \<and> sy_sent s = [demo_request] \<and>
    (system_step gateway_run_step)\<^sup>*\<^sup>* (system_start (gateway_engine_runner b qi qo None)) s \<and>
    (system_step gateway_run_step)\<^sup>*\<^sup>* s s' \<and> sy_sent s' = [demo_request] \<and> sy_received s' = demo_responses"
proof -
  obtain b where b: "order_book tiny_config = Inr b" using tiny_book by blast
  obtain qi qo where q: "spsc_queue demo_request 2 = Inr qi" "spsc_queue (demo_response default_event) 2 = Inr qo"
    using demo_queues by blast
  note r = reachable.start [OF b]
  from feed_one [OF fresh_gateway [OF r q, of None], of gateway_prepare gateway_reply demo_request]
  obtain s where s: "(system_step gateway_run_step)\<^sup>*\<^sup>* (system_start (gateway_engine_runner b qi qo None)) s"
    "sy_sent s = [demo_request]" "rn_phase (sy_runner s) = Polling"
    unfolding gateway_run_step_def by blast
  from gateway_answers_everything [OF r q s(1)] s(3) obtain s' n where s': "(system_step gateway_run_step)\<^sup>*\<^sup>* s s'"
    "sy_sent s' = sy_sent s" "serve gateway_prepare gateway_reply (st_last_sequence (ob_stats b) + 1) b (sy_sent s) =
      Some (rn_book (sy_runner s'), n, sy_received s')" by blast
  have "sy_received s' = demo_responses" using s'(3) serve_demo [OF b] s(2) by auto
  then show ?thesis using b s(1,2) s'(1,2) by (intro exI [of _ b] exI [of _ qi] exI [of _ qo] exI [of _ s] exI [of _ s']) simp
qed

theorem gateway_never_gaps_witness:
  "\<exists>b qi qo s. order_book tiny_config = Inr b \<and>
    (system_step gateway_run_step)\<^sup>*\<^sup>* (system_start (gateway_engine_runner b qi qo None)) s \<and>
    sy_sent s = [demo_request] \<and> st_last_sequence (ob_stats (rn_book (sy_runner s))) = 1 \<and>
    (\<forall>y \<in> set (sy_received s). e_reason (gs_event y) \<noteq> SequenceGap)"
proof -
  obtain b where b: "order_book tiny_config = Inr b" using tiny_book by blast
  obtain qi qo where q: "spsc_queue demo_request 2 = Inr qi" "spsc_queue (demo_response default_event) 2 = Inr qo"
    using demo_queues by blast
  note r = reachable.start [OF b]
  from feed_and_drain [OF fresh_gateway [OF r q, of None], of gateway_prepare gateway_reply demo_request]
  obtain s where s: "(system_step gateway_run_step)\<^sup>*\<^sup>* (system_start (gateway_engine_runner b qi qo None)) s"
    "sy_sent s = [demo_request]" "quiet s" "rn_phase (sy_runner s) = Polling" "sq_contents (rn_input (sy_runner s)) = []"
    unfolding gateway_run_step_def by blast
  obtain served lost unpublished where
    "accounts gateway_prepare gateway_reply (gateway_engine_runner b qi qo None) s served lost unpublished"
    by (rule system_accounts [OF fresh_gateway [OF r q] s(1) [unfolded gateway_run_step_def]])
  then have "serve gateway_prepare gateway_reply 1 b [demo_request] = Some (rn_book (sy_runner s),
      prepared_state gateway_prepare 1 served, sy_received s)"
    using s(2-5) serve_demo(1) [OF b] by (simp add: accounts_simps quiet_def gateway_engine_runner_def)
  from serve_gateway_sequence [OF this r] serve_demo(1) [OF b]
  have "st_last_sequence (ob_stats (rn_book (sy_runner s))) = 1" by simp
  then show ?thesis using gateway_never_gaps [OF r q s(1)] b s(1,2)
    by (intro exI [of _ b] exI [of _ qi] exI [of _ qo] exI [of _ s]) simp
qed

theorem replay_rebuilds_engine_witness:
  "\<exists>b w qi qo s w'. order_book replay_config = Inr b \<and> journal_writer None True True True = Inr w \<and>
    (system_step engine_run_step)\<^sup>*\<^sup>* (system_start (engine_runner b qi qo (Some w))) s \<and>
    sy_sent s = [limit_order 1 Sell 1 1 3] \<and> rn_journal (sy_runner s) = Some w' \<and>
    replay_main 2 (Some (jw_contents w')) = Some (if st_rejected (ob_stats (rn_book (sy_runner s))) = 0 then 0 else 1,
      Some \<lparr>rp_result = replayed 1 True, rp_resting_orders = st_resting_orders (ob_stats (rn_book (sy_runner s))),
        rp_trades = st_trades (ob_stats (rn_book (sy_runner s))), rp_rejected = st_rejected (ob_stats (rn_book (sy_runner s)))\<rparr>)"
proof -
  obtain b where b: "order_book replay_config = Inr b" using replay_config_ok by blast
  obtain w where w: "journal_writer None True True True = Inr w" using journal_writer_contents [of None "[]" True] by blast
  have "storage_capacity 2 = Inr 4" by code_simp
  then obtain qi qo where q: "spsc_queue default_command 2 = Inr qi" "spsc_queue default_event 2 = Inr qo"
    by (simp add: spsc_queue_def)
  note fresh = fresh_engine [OF reachable.start [OF b] q, of "Some w"]
  from feed_and_drain [OF fresh, of engine_prepare engine_reply "limit_order 1 Sell 1 1 3"]
  obtain s where s: "(system_step engine_run_step)\<^sup>*\<^sup>* (system_start (engine_runner b qi qo (Some w))) s"
    "sy_sent s = [limit_order 1 Sell 1 1 3]" "quiet s" "rn_phase (sy_runner s) = Polling" "sq_contents (rn_input (sy_runner s)) = []"
    unfolding engine_run_step_def by blast
  obtain w' served lost where w': "rn_journal (sy_runner s) = Some w'"
    "sy_sent s = served @ lost @ sq_contents (rn_input (sy_runner s))"
    "lost \<noteq> [] \<longrightarrow> length lost = 1 \<and> rn_phase (sy_runner s) = Thrown RuntimeError"
    "16 + 48 * length served \<le> length (jw_contents w')" "length (jw_contents w') \<le> 16 + 48 * length (served @ lost)"
    "replay_into b served = Some (rn_book (sy_runner s))"
    and replay: "\<And>n. n \<le> length (jw_contents w') \<Longrightarrow>
      \<exists>bk. replay_into b (take ((n - 16) div 48) (served @ lost)) = Some bk \<and>
        (order_book replay_config = Inr b \<longrightarrow>
          replay_main 2 (Some (take n (jw_contents w'))) =
            (if n < 16 then Some (1, None)
             else Some (if 48 dvd (n - 16) \<and> st_rejected (ob_stats bk) = 0 then 0 else 1,
               Some \<lparr>rp_result = replayed ((n - 16) div 48) (48 dvd (n - 16)),
                 rp_resting_orders = st_resting_orders (ob_stats bk), rp_trades = st_trades (ob_stats bk),
                 rp_rejected = st_rejected (ob_stats bk)\<rparr>)))"
    using replay_rebuilds_engine [OF reachable.start [OF b] w q s(1)] by blast
  have served: "served = [limit_order 1 Sell 1 1 3]" "lost = []" using w'(2,3) s(2,4,5) by auto
  then have len: "length (jw_contents w') = 64" using w'(4,5) by simp
  from replay [of 64] w'(6) served len show ?thesis
    using b w s(1,2) w'(1) by (intro exI [of _ b] exI [of _ w] exI [of _ qi] exI [of _ qo] exI [of _ s] exI [of _ w']) auto
qed

end
