(* ===== verification/Tcp_Theorems.thy ===== *)
theory Tcp_Theorems
  imports Tcp_Stream Runner_Theorems
begin

text \<open>
  The gateway process as a whole: the gateway thread and the engine thread of \<^verbatim>\<open>apps/gateway.cpp\<close>
  over their shared queues, from start-up on.
\<close>

subsection \<open>The running gateway\<close>

text \<open>
  The gateway thread drains the response queue or handles one ready descriptor, the engine
  thread makes one step of its loop, and a signal raises the stop flag.
\<close>

inductive tcp_reachable :: "int \<Rightarrow> TcpGateway \<Rightarrow> bool" for listen_fd where
  start: "tcp_gateway listen_fd = Inr g \<Longrightarrow> tcp_reachable listen_fd g"
| drains: "tcp_reachable listen_fd g \<Longrightarrow> drain_engine_responses g = Some g' \<Longrightarrow> tcp_reachable listen_fd g'"
| handles: "tcp_reachable listen_fd g \<Longrightarrow> handle_event g ev = Some g' \<Longrightarrow> tcp_reachable listen_fd g'"
| stops: "tcp_reachable listen_fd g \<Longrightarrow> tcp_reachable listen_fd (g\<lparr>tg_stop := True\<rparr>)"
| engine: "tcp_reachable listen_fd g \<Longrightarrow> gateway_run_step (tg_stop g) failure padding padding (tg_runner g) = Some r \<Longrightarrow>
    length padding = 4 \<Longrightarrow> tcp_reachable listen_fd (g\<lparr>tg_runner := r\<rparr>)"

text \<open>The engine side of a reachable state is a state of the runner among clients that send only admissible requests.\<close>

definition engine_side :: "TcpGateway \<Rightarrow> (Sequence, GatewayRequest, GatewayResponse) runner_system \<Rightarrow> bool" where
  "engine_side g s \<longleftrightarrow> sy_runner s = tg_runner g \<and> sy_stop s = tg_stop g \<and> (\<forall>x \<in> set (sy_sent s). admissible x) \<and>
     (\<exists>b qi qo. order_book gateway_book_config = Inr b \<and> spsc_queue default_gateway_request 65536 = Inr qi \<and>
       spsc_queue default_gateway_response 262144 = Inr qo \<and>
       (system_step gateway_run_step)\<^sup>*\<^sup>* (system_start (gateway_engine_runner b qi qo None)) s)"

lemma engine_side_client:
  assumes "engine_side g s" "client g g'" "tg_stop g' = tg_stop g"
  shows "\<exists>s'. engine_side g' s'"
proof -
  have r: "sy_runner s = tg_runner g" using assms(1) by (simp add: engine_side_def)
  obtain s' where s': "(system_step gateway_run_step)\<^sup>*\<^sup>* s s'" "sy_runner s' = tg_runner g'" "sy_stop s' = sy_stop s"
    "\<forall>x \<in> set (sy_sent s'). x \<in> set (sy_sent s) \<or> admissible x"
    using assms(2) r unfolding client_def by blast
  have "engine_side g' s'"
    using assms(1,3) s'(2-4) rtranclp_trans [OF _ s'(1)] unfolding engine_side_def by auto
  then show ?thesis by blast
qed

lemma engine_side_accounts:
  assumes "engine_side g s"
  obtains b r0 served lost unpublished where "order_book gateway_book_config = Inr b" "rn_book r0 = b"
    "rn_sequence r0 = st_last_sequence (ob_stats b) + 1" "fresh_runner gateway_book_config r0"
    "accounts gateway_prepare gateway_reply r0 s served lost unpublished"
proof -
  obtain b qi qo where b: "order_book gateway_book_config = Inr b" "spsc_queue default_gateway_request 65536 = Inr qi"
    "spsc_queue default_gateway_response 262144 = Inr qo"
    "(system_step gateway_run_step)\<^sup>*\<^sup>* (system_start (gateway_engine_runner b qi qo None)) s"
    using assms by (auto simp: engine_side_def)
  note fresh = fresh_gateway [OF reachable.start [OF b(1)] b(2,3), of None]
  obtain served lost unpublished where
    "accounts gateway_prepare gateway_reply (gateway_engine_runner b qi qo None) s served lost unpublished"
    by (rule system_accounts [OF fresh b(4) [unfolded gateway_run_step_def]])
  then show thesis using that [OF b(1) _ _ fresh] by (simp add: gateway_engine_runner_def)
qed

lemma engine_side_queues:
  assumes "engine_side g s"
  shows "sq_invar (rn_input (tg_runner g))" "sq_invar (rn_output (tg_runner g))"
  by (rule engine_side_accounts [OF assms]; use assms in \<open>simp add: accounts_simps engine_side_def\<close>)+

lemma tcp_gateway_start:
  assumes "tcp_gateway listen_fd = Inr g"
  shows "gateway_ok g" "\<exists>s. engine_side g s"
proof -
  obtain b qi qo where b: "order_book gateway_book_config = Inr b" "spsc_queue default_gateway_request 65536 = Inr qi"
    "spsc_queue default_gateway_response 262144 = Inr qo"
    "g = \<lparr>tg_listen_fd = listen_fd, tg_runner = gateway_engine_runner b qi qo None,
      tg_stop = False, tg_connections = Map.empty, tg_session_to_fd = Map.empty, tg_interest = Map.empty\<rparr>"
    using assms by (auto simp: tcp_gateway_def split: sum.splits)
  then show "gateway_ok g" using spsc_queue_new(1) [OF b(2)] spsc_queue_new(1) [OF b(3)] by (simp add: gateway_ok_def gateway_engine_runner_def)
  have "engine_side g (system_start (gateway_engine_runner b qi qo None))"
    using b by (auto simp: engine_side_def system_start_def)
  then show "\<exists>s. engine_side g s" by blast
qed

lemma tcp_reachable_ok: "tcp_reachable listen_fd g \<Longrightarrow> gateway_ok g \<and> (\<exists>s. engine_side g s)"
proof (induction rule: tcp_reachable.induct)
  case (start g)
  then show ?case using tcp_gateway_start by blast
next
  case (drains g g')
  then have "evolves g g'" using drain_evolves [of g] by auto
  moreover obtain s where "engine_side g s" using drains.IH by blast
  ultimately show ?case using engine_side_client [of g s g'] by (simp add: evolves_def)
next
  case (handles g ev g')
  then have "evolves g g'" using handle_event_evolves [of g ev] by auto
  moreover obtain s where "engine_side g s" using handles.IH by blast
  ultimately show ?case using engine_side_client [of g s g'] by (simp add: evolves_def)
next
  case (stops g)
  then obtain s where s: "engine_side g s" by blast
  have "system_step gateway_run_step s (s\<lparr>sy_stop := True\<rparr>)" by (rule raises)
  then have "engine_side (g\<lparr>tg_stop := True\<rparr>) (s\<lparr>sy_stop := True\<rparr>)"
    using s unfolding engine_side_def by (auto intro: rtranclp.rtrancl_into_rtrancl)
  moreover have "gateway_ok (g\<lparr>tg_stop := True\<rparr>)" using stops.IH by (simp add: gateway_ok_def cong: option.case_cong)
  ultimately show ?case by blast
next
  case (engine g failure padding r)
  then obtain s where s: "engine_side g s" by blast
  let ?g = "g\<lparr>tg_runner := r\<rparr>"
  have "system_step gateway_run_step s (s\<lparr>sy_runner := r\<rparr>)"
    using runs [of gateway_run_step "tg_stop g" failure padding s r] engine.hyps(2,3) s by (simp add: engine_side_def)
  then have "engine_side ?g (s\<lparr>sy_runner := r\<rparr>)"
    using s unfolding engine_side_def by (auto intro: rtranclp.rtrancl_into_rtrancl)
  then show ?case
    using engine_side_queues [of ?g] engine.IH by (auto simp: gateway_ok_def cong: option.case_cong)
qed

lemma tcp_reachable_events:
  "tcp_reachable listen_fd g \<Longrightarrow> handle_events g events = Some g' \<Longrightarrow> tcp_reachable listen_fd g'"
  by (induction events arbitrary: g) (auto split: Option.bind_splits intro: handles)

subsection \<open>Properties of the gateway\<close>

text \<open>
  C15.  Every pass of the event loop ends.  In every state the process can reach, whatever epoll
  reports and the sockets deliver, draining the responses, decoding the received bytes and
  handling every ready descriptor come to an end without a fault, in a reachable state.
\<close>

theorem gateway_pass_terminates:
  assumes "tcp_reachable listen_fd g"
  shows "\<exists>g' code. run_pass interrupted waited g = Some (g', code) \<and> tcp_reachable listen_fd g'"
proof (cases interrupted)
  case True
  then show ?thesis using tcp_reachable.stops [OF assms] by (simp add: run_pass_def)
next
  case False
  obtain g1 where g1: "drain_engine_responses g = Some g1" "evolves g g1"
    using drain_evolves tcp_reachable_ok [OF assms] by blast
  note r1 = tcp_reachable.drains [OF assms g1(1)]
  show ?thesis
  proof (cases waited)
    case (Ready events)
    obtain g2 where g2: "handle_events g1 (take maximum_events events) = Some g2"
      using handle_events_evolves [of g1] g1(2) by (auto simp: evolves_def)
    then show ?thesis using False Ready g1(1) tcp_reachable_events [OF r1 g2] by (simp add: run_pass_def)
  qed (use False g1(1) r1 in \<open>simp_all add: run_pass_def\<close>)
qed

text \<open>
  C16.  The state of the gateway is well formed.  In every reachable state the buffers of every
  connection are within their bounds, epoll waits for writability of exactly the connections
  with pending output, a connection has a session identifier exactly when it has a validator,
  and the session map sends every session to the one live connection that owns it.
\<close>

theorem gateway_well_formed:
  assumes "tcp_reachable listen_fd g"
  shows "(\<forall>fd c. tg_connections g fd = Some c \<longrightarrow>
      cn_fd c = fd \<and> length (cn_receive c) = receive_capacity \<and> cn_received c \<le> receive_capacity \<and>
      length (cn_transmit c) = transmit_capacity \<and> cn_transmit_begin c \<le> cn_transmit_end c \<and>
      cn_transmit_end c \<le> transmit_capacity \<and> tg_interest g fd = Some (cn_transmit_begin c \<noteq> cn_transmit_end c) \<and>
      (cn_validator c = None \<longleftrightarrow> cn_session_id c = 0) \<and>
      (cn_session_id c \<noteq> 0 \<longrightarrow> tg_session_to_fd g (cn_session_id c) = Some fd)) \<and>
    (\<forall>session fd. tg_session_to_fd g session = Some fd \<longrightarrow>
      session \<noteq> 0 \<and> (\<exists>c. tg_connections g fd = Some c \<and> cn_session_id c = session))"
proof -
  have ok: "gateway_ok g" using tcp_reachable_ok [OF assms] by blast
  have "conn_ok c \<and> cn_fd c = fd \<and> tg_interest g fd = Some (cn_transmit_begin c \<noteq> cn_transmit_end c) \<and>
      (cn_session_id c \<noteq> 0 \<longrightarrow> tg_session_to_fd g (cn_session_id c) = Some fd)" if "tg_connections g fd = Some c" for fd c
    using gateway_ok_entry [OF ok, of fd] gateway_ok_session [OF ok, of "cn_session_id c" fd] that pending_empty_iff [of c] by auto
  then show ?thesis using gateway_ok_session [OF ok] by (auto simp: conn_ok_def)
qed

text \<open>
  C11.  Only commands within the risk limits reach the book.  In every reachable state the book is
  the one that serving a sequence of requests from an empty book gives, one after the other
  with contiguous engine sequence numbers; every one of these requests, and every one still
  queued, carries a session and a client sequence and passes the gateway's risk check.  The
  responses queued for the gateway thread are the latest of those that serving gives.
\<close>

theorem only_admissible_commands:
  assumes "tcp_reachable listen_fd g"
  shows "\<exists>b served lost received unpublished n. order_book gateway_book_config = Inr b \<and>
    (\<forall>x \<in> set (served @ lost @ sq_contents (rn_input (tg_runner g))). gq_session_id x \<noteq> 0 \<and> gq_client_sequence x \<noteq> 0 \<and>
      \<not> violates_risk (session_validator (gq_session_id x) default_limits) (gq_command x)) \<and>
    serve gateway_prepare gateway_reply (st_last_sequence (ob_stats b) + 1) b served =
      Some (rn_book (tg_runner g), n, received @ sq_contents (rn_output (tg_runner g)) @ unpublished) \<and>
    phase_ok gateway_reply (tg_stop g) served lost unpublished (rn_phase (tg_runner g)) \<and>
    reachable gateway_book_config (rn_book (tg_runner g))"
proof -
  obtain s where s: "engine_side g s" using tcp_reachable_ok [OF assms] by blast
  obtain b r0 served lost unpublished where b: "order_book gateway_book_config = Inr b" "rn_book r0 = b"
    "rn_sequence r0 = st_last_sequence (ob_stats b) + 1" "fresh_runner gateway_book_config r0"
    and acc: "accounts gateway_prepare gateway_reply r0 s served lost unpublished"
    by (rule engine_side_accounts [OF s])
  note a = acc [unfolded accounts_simps]
  have r: "sy_runner s = tg_runner g" and adm: "\<forall>x \<in> set (sy_sent s). admissible x" using s by (simp_all add: engine_side_def)
  have serve: "serve gateway_prepare gateway_reply (st_last_sequence (ob_stats b) + 1) b served =
      Some (rn_book (tg_runner g), prepared_state gateway_prepare (st_last_sequence (ob_stats b) + 1) served,
        sy_received s @ sq_contents (rn_output (tg_runner g)) @ unpublished)"
    using a b(2,3) r by simp
  have "reachable gateway_book_config (rn_book (tg_runner g))"
    by (rule serve_reachable [OF serve reachable.start [OF b(1)]])
  moreover have "\<forall>x \<in> set (served @ lost @ sq_contents (rn_input (tg_runner g))). gq_session_id x \<noteq> 0 \<and> gq_client_sequence x \<noteq> 0 \<and>
      \<not> violates_risk (session_validator (gq_session_id x) default_limits) (gq_command x)"
    using adm a r by (simp add: admissible_def)
  moreover have "phase_ok gateway_reply (tg_stop g) served lost unpublished (rn_phase (tg_runner g))"
    using a r s by (simp add: engine_side_def)
  ultimately show ?thesis using b(1) serve by blast
qed

text \<open>
  C14.  How TCP cuts the byte stream does not matter.  Let the frames of well-formed requests arrive
  on a connection of a reachable gateway whose receive buffer is empty, in any number of
  readiness events, each with any number of \<^verbatim>\<open>recv\<close> calls of any size up to the free space of
  the buffer, which they may fill, and interrupted calls in between, and with nothing else
  happening meanwhile.  Reading ends normally, and the gateway and the connection are in the
  state to which handling the first of the requests one by one leads: those whose frames have
  arrived completely or, when one of them closes the connection, those up to that one.  While
  the connection stays open the bytes kept are the beginning of the next frame, and with as
  many events that deliver something as there are bytes every request is handled.
\<close>

theorem fragmentation_invisible:
  assumes "tcp_reachable listen_fd g" "tg_connections g fd = Some c" "cn_received c = 0"
    "\<forall>m \<in> set ms. identified m \<and> wire_request m = m"
  shows "\<exists>keep g' c' rest handled later.
    read_stream g c events (concat (map request_bytes ms)) = Some (keep, g', c', rest) \<and> ms = handled @ later \<and>
    handle_all g c handled = Some (keep, g', c'\<lparr>cn_receive := cn_receive c, cn_received := cn_received c\<rparr>) \<and>
    (keep \<longrightarrow> unread c' @ rest = concat (map request_bytes later) \<and>
      (later \<noteq> [] \<longrightarrow> length (unread c') < length (request_bytes (hd later))) \<and>
      (rest = [] \<longrightarrow> later = []) \<and>
      (length (concat (map request_bytes ms)) \<le> length (filter delivers events) \<longrightarrow> later = []))"
proof -
  note ok = gateway_ok_connection(1) [OF conjunct1 [OF tcp_reachable_ok [OF assms(1)]] assms(2)]
  let ?stream = "concat (map request_bytes ms)"
  have "0 < length (request_bytes m)" for m using request_frame_size_bounds(1) [of "c_type (rq_command m)"] by simp
  then have start: "unread c @ ?stream = ?stream" "no_frame (cn_received c) ms"
    using assms(3) by (simp add: unread_def, cases ms, simp_all)
  from read_stream_requests [OF ok assms(4) start, of events] obtain k g2 c2 rest ms1 ms2 where
    r: "read_stream g c events ?stream = Some (k, g2, c2, rest)" "ms = ms1 @ ms2"
      "handle_all g c ms1 = Some (k, g2, with_input (cn_receive c) (cn_received c) c2)"
      "k \<longrightarrow> unread c2 @ rest = concat (map request_bytes ms2) \<and> no_frame (length (unread c2)) ms2 \<and>
        (rest = [] \<or> length rest + length (filter delivers events) \<le> length ?stream)" by blast
  have "ms2 = [] \<or> rest \<noteq> []" "ms2 \<noteq> [] \<longrightarrow> length (unread c2) < length (request_bytes (hd ms2))" if k
    using r(4) that by (cases ms2; auto dest: arg_cong [of _ _ length])+
  then have "k \<longrightarrow> unread c2 @ rest = concat (map request_bytes ms2) \<and>
      (ms2 \<noteq> [] \<longrightarrow> length (unread c2) < length (request_bytes (hd ms2))) \<and> (rest = [] \<longrightarrow> ms2 = []) \<and>
      (length ?stream \<le> length (filter delivers events) \<longrightarrow> ms2 = [])"
    using r(4) by (cases rest) auto
  with r(1-3) show ?thesis unfolding with_input_def by blast
qed

subsection \<open>A gateway that is running\<close>

lemma gateway_book_ok: "\<exists>b. order_book gateway_book_config = Inr b"
proof -
  have "checked_price_count gateway_book_config = Inr 2001" by code_simp
  then show ?thesis by (simp add: order_book_accepts gateway_book_config_def)
qed

lemma tcp_gateway_starts: "\<exists>g. tcp_gateway listen_fd = Inr g"
proof -
  have "storage_capacity 65536 = Inr 131072" "storage_capacity 262144 = Inr 524288" by code_simp+
  then show ?thesis using gateway_book_ok by (auto simp: tcp_gateway_def spsc_queue_def)
qed

definition accept_event :: "int \<Rightarrow> int \<Rightarrow> socket_event" where
  "accept_event listen_fd fd = \<lparr>se_fd = listen_fd, se_hangup = False, se_in = True, se_out = False, se_recv = [],
     se_send = [], se_accept = [AcceptedSocket fd True True]\<rparr>"

text \<open>A gateway that has accepted one connection.\<close>

lemma gateway_with_client:
  obtains g where "tcp_reachable 3 g" "tg_connections g = [5 \<mapsto> connection 5]" "tg_session_to_fd g = Map.empty"
    "tg_interest g = [5 \<mapsto> False]" "sq_contents (rn_input (tg_runner g)) = []" "tg_listen_fd g = 3"
proof -
  obtain g where g: "tcp_gateway 3 = Inr g" using tcp_gateway_starts by blast
  have e: "tg_connections g = Map.empty" "tg_session_to_fd g = Map.empty" "tg_interest g = Map.empty" "tg_listen_fd g = 3"
    using g by (auto simp: tcp_gateway_def split: sum.splits)
  have q: "sq_contents (rn_input (tg_runner g)) = []"
    using g spsc_queue_new(2) by (auto simp: tcp_gateway_def gateway_engine_runner_def split: sum.splits)
  let ?g = "g\<lparr>tg_interest := [5 \<mapsto> False], tg_connections := [5 \<mapsto> connection 5]\<rparr>"
  have "handle_event g (accept_event 3 5) = Some ?g" using e by (simp add: handle_event_def accept_event_def)
  then show thesis using that [of ?g] handles [OF start [OF g]] e q by simp
qed

theorem gateway_pass_terminates_witness:
  "\<exists>g g' code. tcp_reachable 3 g \<and> tg_connections g 5 = Some (connection 5) \<and>
    run_pass False (Ready [accept_event 3 6]) g = Some (g', code) \<and> tcp_reachable 3 g'"
proof (rule gateway_with_client)
  fix g assume g: "tcp_reachable 3 g" "tg_connections g = [5 \<mapsto> connection 5]"
  from gateway_pass_terminates [OF g(1), of False "Ready [accept_event 3 6]"] obtain g' code where
    "run_pass False (Ready [accept_event 3 6]) g = Some (g', code)" "tcp_reachable 3 g'" by blast
  then show ?thesis using g by (intro exI [of _ g] exI [of _ g'] exI [of _ code]) simp
qed

theorem gateway_well_formed_witness:
  "\<exists>g. tcp_reachable 3 g \<and> tg_connections g 5 = Some (connection 5) \<and> cn_received (connection 5) \<le> receive_capacity \<and>
    tg_interest g 5 = Some False"
proof (rule gateway_with_client)
  fix g assume g: "tcp_reachable 3 g" "tg_connections g = [5 \<mapsto> connection 5]"
  then have c: "tg_connections g 5 = Some (connection 5)" by simp
  note w = conjunct1 [OF gateway_well_formed [OF g(1)], rule_format, OF c]
  have "tg_interest g 5 = Some (cn_transmit_begin (connection 5) \<noteq> cn_transmit_end (connection 5))"
    "cn_received (connection 5) \<le> receive_capacity" using w by blast+
  moreover have "cn_transmit_begin (connection 5) = cn_transmit_end (connection 5)" by (simp add: connection_def)
  ultimately show ?thesis using g(1) c by (intro exI [of _ g]) simp
qed

theorem only_admissible_commands_witness:
  "\<exists>g b served lost received unpublished n. tcp_reachable 3 g \<and> tg_connections g 5 = Some (connection 5) \<and>
    order_book gateway_book_config = Inr b \<and>
    serve gateway_prepare gateway_reply (st_last_sequence (ob_stats b) + 1) b served =
      Some (rn_book (tg_runner g), n, received @ sq_contents (rn_output (tg_runner g)) @ unpublished) \<and>
    phase_ok gateway_reply (tg_stop g) served lost unpublished (rn_phase (tg_runner g))"
proof (rule gateway_with_client)
  fix g assume g: "tcp_reachable 3 g" "tg_connections g = [5 \<mapsto> connection 5]"
  then have "tg_connections g 5 = Some (connection 5)" by simp
  with only_admissible_commands [OF g(1)] g(1) show ?thesis by blast
qed

lemma sample_handled:
  assumes "tg_session_to_fd g = Map.empty"
  shows "\<exists>g' c'. handle_all g (connection 5) [sample_request] = Some (True, g', c') \<and>
    cn_session_id c' = 7 \<and> tg_connections g' = tg_connections g \<and>
    pending c' = response_bytes \<lparr>rp_session_id = 7, rp_client_sequence = 1, rp_event = gateway_rejection sample_request RiskLimit\<rparr>"
proof -
  let ?r = "\<lparr>rp_session_id = 7, rp_client_sequence = 1, rp_event = gateway_rejection sample_request RiskLimit\<rparr>"
  let ?v = "session_validator 7 default_limits"
  let ?g = "g\<lparr>tg_session_to_fd := [7 \<mapsto> 5]\<rparr>"
  let ?c = "(connection 5)\<lparr>cn_session_id := 7, cn_validator := Some (?v\<lparr>sv_next_sequence := 2\<rparr>)\<rparr>"
  have ids: "rq_session_id sample_request = 7" "rq_client_sequence sample_request = 1" by (simp_all add: sample_request_def)
  have b: "bind_session g (connection 5) sample_request = (True, ?g, (connection 5)\<lparr>cn_session_id := 7, cn_validator := Some ?v\<rparr>)"
    using assms by (simp add: bind_session_def ids connection_def)
  have v: "validate_and_advance ?v sample_request = (RiskLimit, ?v\<lparr>sv_next_sequence := 2\<rparr>)"
    by (simp add: session_validator_def validate_and_advance_def violates_risk_def default_limits_def sample_request_def
        default_command_def Let_def)
  have c: "conn_ok ?c" "pending ?c = []"
    using conn_ok_connection [of 5] by (simp_all add: conn_ok_def session_validator_def pending_def connection_def)
  have "addressed ?r" by (simp add: addressed_def)
  then obtain c' where "queue_response ?g ?c ?r = Some (True, update_interest ?g c', c')" "pending c' = response_bytes ?r"
    "same_input ?c c'"
    using queue_response_ok [OF c(1), of ?g ?r] c(2) by (auto simp: transmit_capacity_def)
  then show ?thesis using b v by (simp add: handle_request_def gateway_reject_def ids same_input_def update_interest_def)
qed

theorem fragmentation_invisible_witness:
  "\<exists>g g' c'. tcp_reachable 3 g \<and>
    read_stream g (connection 5) (replicate 48 [1]) (request_bytes sample_request) = Some (True, g', c', []) \<and>
    pending c' = response_bytes \<lparr>rp_session_id = 7, rp_client_sequence = 1, rp_event = gateway_rejection sample_request RiskLimit\<rparr>"
proof (rule gateway_with_client)
  fix g assume g: "tcp_reachable 3 g" "tg_session_to_fd g = Map.empty" "tg_connections g = [5 \<mapsto> connection 5]"
  let ?r = "response_bytes \<lparr>rp_session_id = 7, rp_client_sequence = 1, rp_event = gateway_rejection sample_request RiskLimit\<rparr>"
  obtain g1 c1 where h: "handle_all g (connection 5) [sample_request] = Some (True, g1, c1)" "pending c1 = ?r"
    using sample_handled [OF g(2)] by blast
  have wf: "\<forall>m \<in> set [sample_request]. identified m \<and> wire_request m = m"
    by (simp add: identified_def wire_request_def wire_command_def sample_request_def default_command_def)
  have len: "length (request_bytes sample_request) = 48" by (simp add: sample_request_def default_command_def)
  have c: "tg_connections g 5 = Some (connection 5)" "cn_received (connection 5) = 0" using g(3) by (simp_all add: connection_def)
  have ev: "length (filter delivers (replicate 48 [1])) = 48" by (simp add: delivers_def filter_replicate)
  let ?s = "concat (map request_bytes [sample_request])"
  from fragmentation_invisible [OF g(1) c wf, of "replicate 48 [1]"] obtain keep g' c' rest handled later where
    r: "read_stream g (connection 5) (replicate 48 [1]) ?s = Some (keep, g', c', rest)"
      "[sample_request] = handled @ later"
      "handle_all g (connection 5) handled =
        Some (keep, g', c'\<lparr>cn_receive := cn_receive (connection 5), cn_received := cn_received (connection 5)\<rparr>)"
      "keep \<longrightarrow> unread c' @ rest = concat (map request_bytes later)"
      "keep \<longrightarrow> length ?s \<le> length (filter delivers (replicate 48 [1])) \<longrightarrow> later = []"
    by blast
  have s: "?s = request_bytes sample_request" by simp
  have "keep \<longrightarrow> later = []" using r(5) unfolding s len ev by simp
  moreover have "keep" using r(2,3) h(1) by (auto simp: Cons_eq_append_conv simp del: handle_all.simps(2))
  ultimately have k: "keep" "handled = [sample_request]" "rest = []" using r(2,4) by simp_all
  then have "pending (c'\<lparr>cn_receive := cn_receive (connection 5), cn_received := cn_received (connection 5)\<rparr>) = ?r"
    using r(3) h by simp
  then show ?thesis using g(1) r(1) k(1,3) by (intro exI [of _ g] exI [of _ g'] exI [of _ c']) (simp add: pending_def)
qed

theorem output_stream_faithful_witness:
  "\<exists>g g' c' rs wire. tcp_reachable 3 g \<and>
    output_run g (connection 5) [Queue sample_response, Flush [Sent 10]] = Some (g', c', rs, wire) \<and>
    wire @ pending c' = concat (map response_bytes rs)"
proof (rule gateway_with_client)
  fix g assume "tcp_reachable 3 g"
  then show ?thesis using output_stream_faithful [of g 5 "[Queue sample_response, Flush [Sent 10]]"] by blast
qed

text \<open>A gateway with two connections, of which the first has bound session 7.\<close>

lemma gateway_with_session:
  obtains g c where "tcp_reachable 3 g" "tg_connections g = [5 \<mapsto> c, 6 \<mapsto> connection 6]" "cn_session_id c = 7"
proof (rule gateway_with_client)
  fix g0 assume g0: "tcp_reachable 3 g0" "tg_connections g0 = [5 \<mapsto> connection 5]" "tg_session_to_fd g0 = Map.empty"
    "tg_interest g0 = [5 \<mapsto> False]" "tg_listen_fd g0 = 3"
  let ?g = "g0\<lparr>tg_interest := [5 \<mapsto> False, 6 \<mapsto> False], tg_connections := [5 \<mapsto> connection 5, 6 \<mapsto> connection 6]\<rparr>"
  have "handle_event g0 (accept_event 3 6) = Some ?g" using g0 by (simp add: handle_event_def accept_event_def)
  then have g: "tcp_reachable 3 ?g" by (rule handles [OF g0(1)])
  have c: "tg_connections ?g 5 = Some (connection 5)" "unread (connection 5) = []" "cn_received (connection 5) = 0"
    by (simp_all add: connection_def unread_def)
  have ok: "gateway_ok (store ?g (connection 5))"
    by (rule gateway_ok_connection(1) [OF conjunct1 [OF tcp_reachable_ok [OF g]] c(1)])
  have len: "length (request_bytes sample_request) = 48" by (simp add: sample_request_def default_command_def)
  then have calls: "recv_calls [48] (receive_capacity - cn_received (connection 5)) (request_bytes sample_request) =
      ([Data (request_bytes sample_request)], [])"
    by (cases "request_bytes sample_request") (simp_all add: c(3) receive_capacity_def del: length_request_bytes)
  have wf: "\<forall>m \<in> set [sample_request]. wf_request m"
    by (simp add: identified_def wire_request_def wire_command_def sample_request_def default_command_def)
  obtain g1 c1 where h: "handle_all ?g (connection 5) [sample_request] = Some (True, g1, c1)" "cn_session_id c1 = 7"
    "tg_connections g1 = tg_connections ?g"
    using sample_handled [of ?g] g0(3) by auto
  obtain k g2 c2 ms1 ms2 where r: "read_requests [Data (request_bytes sample_request)] ?g (connection 5) = Some (k, g2, c2)"
    "[sample_request] = ms1 @ ms2" "handle_all ?g (connection 5) ms1 =
      Some (k, g2, with_input (cn_receive (connection 5)) (cn_received (connection 5)) c2)"
    "k \<longrightarrow> gateway_ok (store g2 c2) \<and> unread c2 = concat (map request_bytes ms2) \<and> no_frame (cn_received c2) ms2"
    using read_requests_stream [OF ok calls wf] c(2) by auto
  have "length (unread c2) = cn_received c2" if k
    using gateway_okD(1) [OF conjunct1 [OF mp [OF r(4) that]]] by (simp add: conn_ok_def unread_def)
  then have "ms1 \<noteq> []" using r(2-4) len by auto
  then have "ms1 = [sample_request]" using r(2) by (auto simp: Cons_eq_append_conv)
  then have 2: "k" "g2 = g1" "cn_session_id c2 = 7" using r(3) h(1,2) by (auto simp: with_input_def)
  let ?ev = "\<lparr>se_fd = 5, se_hangup = False, se_in = True, se_out = False, se_recv = [Data (request_bytes sample_request)],
    se_send = [], se_accept = []\<rparr>"
  let ?g3 = "g1\<lparr>tg_connections := (tg_connections g1)(5 \<mapsto> c2)\<rparr>"
  have "handle_event ?g ?ev = Some ?g3" using r(1) 2(1,2) g0(5) by (simp add: handle_event_def)
  then have "tcp_reachable 3 ?g3" by (rule handles [OF g])
  then show thesis by (rule that) (use h(3) 2(3) in auto)
qed

text \<open>
  C32.  Responses follow the session identifier, not the connection.  When the connection that owns
  a session is closed, the first request with that session on any connection that has no session
  binds it, while the queues to and from the engine are as they were.  Each response of that
  session that is still in them, such as one to a request of the closed connection, is then
  appended to the output of the new connection, if it has room for a response.
\<close>

theorem stale_responses_rerouted:
  assumes "tcp_reachable listen_fd g" "tg_connections g fd = Some c" "cn_session_id c = rq_session_id request"
    "rq_session_id request \<noteq> 0"
    and other: "tg_connections g fd2 = Some d" "fd2 \<noteq> fd" "cn_validator d = None"
  shows "\<exists>g1 d1. bind_session (close_connection g fd) d request = (True, g1, d1) \<and> tg_runner g1 = tg_runner g \<and>
    (\<forall>response. gs_session_id response = rq_session_id request \<longrightarrow> gs_client_sequence response \<noteq> 0 \<longrightarrow>
      length (pending d) + 68 \<le> transmit_capacity \<longrightarrow>
      (\<exists>g2 d2. deliver_response (store g1 d1) response = Some g2 \<and> tg_connections g2 fd2 = Some d2 \<and>
        pending d2 = pending d @ response_bytes \<lparr>rp_session_id = gs_session_id response,
          rp_client_sequence = gs_client_sequence response, rp_event = gs_event response\<rparr>))"
proof -
  note ok = conjunct1 [OF tcp_reachable_ok [OF assms(1)]]
  have d: "cn_fd d = fd2" "conn_ok d"
    using gateway_ok_connection(2) [OF ok other(1)] gateway_okD(1) [OF gateway_ok_connection(1) [OF ok other(1)]] by simp_all
  let ?s = "rq_session_id request" let ?g = "close_connection g fd"
  let ?g1 = "?g\<lparr>tg_session_to_fd := (tg_session_to_fd ?g)(?s \<mapsto> fd2)\<rparr>"
  let ?d1 = "d\<lparr>cn_session_id := ?s, cn_validator := Some (session_validator ?s default_limits)\<rparr>"
  have bound: "bind_session ?g d request = (True, ?g1, ?d1)" "tg_runner ?g1 = tg_runner g"
    using assms d(1) by (simp_all add: bind_session_def close_connection_def)
  have d1: "conn_ok ?d1" "pending ?d1 = pending d" using d(2) assms(4) by (simp_all add: conn_ok_def pending_def session_validator_def)
  have "\<exists>g2 d2. deliver_response (store ?g1 ?d1) response = Some g2 \<and> tg_connections g2 fd2 = Some d2 \<and>
        pending d2 = pending d @ response_bytes \<lparr>rp_session_id = gs_session_id response,
          rp_client_sequence = gs_client_sequence response, rp_event = gs_event response\<rparr>"
    if r: "gs_session_id response = ?s" "gs_client_sequence response \<noteq> 0" "length (pending d) + 68 \<le> transmit_capacity" for response
  proof -
    let ?r = "\<lparr>rp_session_id = gs_session_id response, rp_client_sequence = gs_client_sequence response, rp_event = gs_event response\<rparr>"
    have "addressed ?r" using r(1,2) assms(4) by (simp add: addressed_def)
    then obtain d2 where "queue_response (store ?g1 ?d1) ?d1 ?r = Some (True, update_interest (store ?g1 ?d1) d2, d2)"
      "pending d2 = pending d @ response_bytes ?r"
      using queue_response_ok [OF d1(1), of "store ?g1 ?d1" ?r] d1(2) r(3) by auto
    then show ?thesis using r(1) d(1) by (simp add: deliver_response_def store_def)
  qed
  with bound show ?thesis by blast
qed

theorem stale_responses_rerouted_witness:
  "\<exists>g c g1 d1 g2 d2. tcp_reachable 3 g \<and> tg_connections g 5 = Some c \<and> cn_session_id c = 7 \<and>
    tg_connections g 6 = Some (connection 6) \<and>
    bind_session (close_connection g 5) (connection 6) sample_request = (True, g1, d1) \<and>
    deliver_response (store g1 d1) \<lparr>gs_session_id = 7, gs_client_sequence = 1, gs_event = default_event\<rparr> = Some g2 \<and>
    tg_connections g2 6 = Some d2 \<and>
    pending d2 = response_bytes \<lparr>rp_session_id = 7, rp_client_sequence = 1, rp_event = default_event\<rparr>"
proof (rule gateway_with_session)
  fix g c assume g: "tcp_reachable 3 g" "tg_connections g = [5 \<mapsto> c, 6 \<mapsto> connection 6]" "cn_session_id c = 7"
  have c: "tg_connections g 5 = Some c" "tg_connections g 6 = Some (connection 6)" using g(2) by simp_all
  have s: "cn_session_id c = rq_session_id sample_request" "rq_session_id sample_request \<noteq> 0"
    using g(3) by (simp_all add: sample_request_def)
  have six: "(6 :: int) \<noteq> 5" "cn_validator (connection 6) = None" by (simp_all add: connection_def)
  have empty: "pending (connection 6) = []" by (simp add: pending_def connection_def)
  from stale_responses_rerouted [OF g(1) c(1) s c(2) six] obtain g1 d1 where
    b: "bind_session (close_connection g 5) (connection 6) sample_request = (True, g1, d1)"
      "\<And>response. gs_session_id response = rq_session_id sample_request \<Longrightarrow> gs_client_sequence response \<noteq> 0 \<Longrightarrow>
        length (pending (connection 6)) + 68 \<le> transmit_capacity \<Longrightarrow>
        \<exists>g2 d2. deliver_response (store g1 d1) response = Some g2 \<and> tg_connections g2 6 = Some d2 \<and>
          pending d2 = pending (connection 6) @ response_bytes \<lparr>rp_session_id = gs_session_id response,
            rp_client_sequence = gs_client_sequence response, rp_event = gs_event response\<rparr>"
    by blast
  from b(2) [of "\<lparr>gs_session_id = 7, gs_client_sequence = 1, gs_event = default_event\<rparr>"] show ?thesis
    using g(1,3) c b(1) empty by (simp add: sample_request_def transmit_capacity_def) blast
qed

end
