(* ===== verification/Benchmark.thy ===== *)
theory Benchmark
  imports Engine_Runs Protocol
begin

text \<open>
  The workloads of \<^verbatim>\<open>apps/benchmark.cpp\<close> with the engine and protocol benchmarks that run them.
  Clock readings, and what is computed from them (rates and latency percentiles), are left out.
\<close>

unbundle bit_operations_syntax

subsection \<open>Workloads\<close>

text \<open>A workload struct: its \<^verbatim>\<open>block\<close>, its call operator, and whether it is \<^verbatim>\<open>ReplaceWorkload\<close>.\<close>

record Workload =
  wl_block :: u64
  wl_call :: "u64 \<Rightarrow> Sequence \<Rightarrow> Command"
  wl_replace :: bool

definition bench_order :: "Sequence \<Rightarrow> CommandType \<Rightarrow> Side \<Rightarrow> OrderType \<Rightarrow> OrderId \<Rightarrow> Price \<Rightarrow> Quantity \<Rightarrow> Command" where
  "bench_order sequence type side order_type order_id price quantity =
     \<lparr>c_sequence = sequence, c_type = type, c_side = side, c_order_type = order_type, c_reserved = 0,
      c_order_id = order_id, c_price = price, c_quantity = quantity\<rparr>"

definition CrossWorkload :: Workload where
  "CrossWorkload = \<lparr>wl_block = 2, wl_call = (\<lambda>index sequence.
     if index AND 1 = 0 then bench_order sequence New Sell Limit (index + 1) 10000 100
     else bench_order sequence New Buy ImmediateOrCancel (index + 1) 10000 100), wl_replace = False\<rparr>"

definition CancelWorkload :: Workload where
  "CancelWorkload = \<lparr>wl_block = 2, wl_call = (\<lambda>index sequence.
     let oid = index div 2 + 1 in
     if index AND 1 = 0 then bench_order sequence New Buy Limit oid 9999 100
     else bench_order sequence Cancel Buy Limit oid 0 0), wl_replace = False\<rparr>"

definition ReplaceWorkload :: Workload where
  "ReplaceWorkload = \<lparr>wl_block = 1, wl_call = (\<lambda>index sequence.
     bench_order sequence Replace Buy Limit 1 (if index AND 1 = 0 then 9999 else 10000) 100), wl_replace = True\<rparr>"

definition SweepWorkload :: Workload where
  "SweepWorkload = \<lparr>wl_block = 10, wl_call = (\<lambda>index sequence.
     let position = index mod 10; cycle = index div 10 in
     if position < 9 then bench_order sequence New Sell Limit (cycle * 10 + position + 1) (10000 + position) 10
     else bench_order sequence New Buy Market (cycle * 10 + 10) 0 90), wl_replace = False\<rparr>"

definition MixedWorkload :: Workload where
  "MixedWorkload = \<lparr>wl_block = 6, wl_call = (\<lambda>index sequence.
     let position = index mod 6; base = index div 6 * 4 + 1 in
     if position = 0 then bench_order sequence New Buy Limit base 9999 50
     else if position = 1 then bench_order sequence New Sell Limit (base + 1) 10001 50
     else if position = 2 then bench_order sequence Replace Buy Limit base 10000 60
     else if position = 3 then bench_order sequence New Sell ImmediateOrCancel (base + 2) 10000 30
     else if position = 4 then bench_order sequence Cancel Buy Limit base 0 0
     else bench_order sequence New Buy Market (base + 3) 0 50), wl_replace = False\<rparr>"

subsection \<open>The benchmark of the engine\<close>

definition bench_config :: BookConfig where
  "bench_config = \<lparr>minimum_price = 9000, maximum_price = 11000, tick_size = 1, maximum_orders = 65536\<rparr>"

definition bench_operations :: "Workload \<Rightarrow> u64 \<Rightarrow> u64" where
  "bench_operations w requested = max (wl_block w) (requested - requested mod wl_block w)"

definition bench_prepare :: "Workload \<Rightarrow> OrderBook \<Rightarrow> (OrderBook \<times> Sequence) option" where
  "bench_prepare w book =
     (if wl_replace w
      then do { (book1, events) \<leftarrow> process book (bench_order 1 New Buy Limit 1 9999 100) []; Some (book1, 1) }
      else Some (book, 0))"

partial_function (option) process_range ::
    "(u64 \<Rightarrow> Sequence \<Rightarrow> Command) \<Rightarrow> OrderBook \<Rightarrow> Sequence \<Rightarrow> u64 \<Rightarrow> u64 \<Rightarrow> (OrderBook \<times> Sequence) option" where [code]:
  "process_range call book sequence index limit =
     (if index < limit
      then do {
        (book1, events) \<leftarrow> process book (call index (sequence + 1)) [];
        process_range call book1 (sequence + 1) (index + 1) limit
      }
      else Some (book, sequence))"

text \<open>The number of operations measured, the number of rejections reported, and the book at the end.\<close>

definition run_core :: "Workload \<Rightarrow> u64 \<Rightarrow> (u64 \<times> u64 \<times> OrderBook) option" where
  "run_core w requested =
     (let operations = bench_operations w requested; warmup = 200000 - 200000 mod wl_block w;
          samples = 100000 - 100000 mod wl_block w in
      case order_book bench_config of
        Inl e \<Rightarrow> None
      | Inr book \<Rightarrow> do {
          (book0, s0) \<leftarrow> bench_prepare w book;
          (book1, s1) \<leftarrow> process_range (wl_call w) book0 s0 0 warmup;
          let rejects_before = st_rejected (ob_stats book1);
          (book2, s2) \<leftarrow> process_range (wl_call w) book1 s1 warmup (warmup + operations);
          (book3, s3) \<leftarrow> process_range (wl_call w) book2 s2 (warmup + operations) (warmup + operations + samples);
          Some (operations, st_rejected (ob_stats book3) - rejects_before, book3)
        })"

subsection \<open>The benchmark of the wire protocol\<close>

text \<open>\<^verbatim>\<open>std::abort\<close> is \<open>None\<close>; the bytes of \<open>bytes\<close> survive from one round to the next.\<close>

partial_function (option) protocol_loop :: "u64 \<Rightarrow> u64 \<Rightarrow> u8 list \<Rightarrow> u64 \<Rightarrow> u64 option" where [code]:
  "protocol_loop operations index bytes checksum =
     (if index < operations
      then do {
        let command = bench_order 0 New Buy Limit (index + 1) 10000 100;
        let request = \<lparr>rq_session_id = 7, rq_client_sequence = index + 1, rq_command = command\<rparr>;
        (encoded, written, bytes1) \<leftarrow> encode_request request bytes;
        if \<not> encoded then None
        else do {
          decoded \<leftarrow> decode_request (take written bytes1);
          protocol_loop operations (index + 1) bytes1 (checksum + c_order_id (rq_command (rqd_request decoded)))
        }
      }
      else Some checksum)"

definition run_protocol :: "u64 \<Rightarrow> u64 option" where
  "run_protocol operations = do {
     checksum \<leftarrow> protocol_loop operations 0 (replicate maximum_frame_size 0) 0;
     if checksum = 0 then None else Some operations
   }"

subsection \<open>Runs without rejections\<close>

text \<open>Between commands the book is in a state that the position in the workload determines.\<close>

definition quiet_step :: "SpecBook \<Rightarrow> Command \<Rightarrow> (SpecBook \<Rightarrow> bool) \<Rightarrow> bool" where
  "quiet_step A command Q \<longleftrightarrow>
     resting_quantity (sb_bids A) < 2 ^ 64 \<and> resting_quantity (sb_asks A) < 2 ^ 64 \<and>
     (\<exists>A' es. spec_process bench_config A command = (A', es) \<and>
       sb_last_sequence A' = sb_last_sequence A + 1 \<and> count_events Rejected es = 0 \<and> Q A')"

definition spec_quiet :: "(u64 \<Rightarrow> Sequence \<Rightarrow> Command) \<Rightarrow> (nat \<Rightarrow> SpecBook \<Rightarrow> bool) \<Rightarrow> bool" where
  "spec_quiet call P \<longleftrightarrow> (\<forall>n A. Suc n < 2 ^ 64 \<longrightarrow> P n A \<longrightarrow>
     quiet_step A (call (of_nat n) (sb_last_sequence A + 1)) (P (Suc n)))"

lemma process_quiet:
  assumes "reachable cfg b" "view b = A" "spec_process cfg A command = (A', es)"
    "resting_quantity (sb_bids A) < 2 ^ 64" "resting_quantity (sb_asks A) < 2 ^ 64" "count_events Rejected es = 0"
  obtains b' where "process b command [] = Some (b', es)" "reachable cfg b'" "view b' = A'"
    "st_rejected (ob_stats b') = st_rejected (ob_stats b)"
proof -
  obtain b' where b': "process b command [] = Some (b', [] @ es)" "reachable cfg b'" "view b' = A'"
    using run_spec_step [OF assms(1-5), of "[]"] by blast
  obtain d b'' where "process b command [] = Some (b'', [] @ snd (spec_process_with (\<lambda>_ _. d) cfg (view b) command))"
    "ob_stats b'' = process_stats (ob_stats b) command (snd (spec_process_with (\<lambda>_ _. d) cfg (view b) command)) (view b'')"
    by (rule book_invar_step [OF reachable_invar [OF assms(1)], of command "[]"])
  then have "ob_stats b' = process_stats (ob_stats b) command es (view b')" using b'(1) by auto
  then have "st_rejected (ob_stats b') = st_rejected (ob_stats b)" using assms(6) by (simp add: process_stats_def stats_step_def)
  then show thesis using that b' by simp
qed

lemma process_range_quiet:
  assumes "spec_quiet call P" "reachable bench_config b" "P n (view b)" "n \<le> m" "m < 2 ^ 64"
  shows "\<exists>b' s'. process_range call b (st_last_sequence (ob_stats b)) (of_nat n) (of_nat m) = Some (b', s') \<and>
    reachable bench_config b' \<and> P m (view b') \<and> s' = st_last_sequence (ob_stats b') \<and>
    st_rejected (ob_stats b') = st_rejected (ob_stats b)"
  using assms
proof (induction "m - n" arbitrary: n b)
  case 0
  then show ?case by (simp add: process_range.simps)
next
  case (Suc k)
  have lt: "n < m" "Suc n < 2 ^ 64" using Suc.hyps(2) Suc.prems(5) by simp_all
  have "unat (of_nat n :: u64) = n" "unat (of_nat m :: u64) = m" using lt Suc.prems(5) by (simp_all add: unat_of_nat)
  then have less: "(of_nat n :: u64) < of_nat m" using lt(1) by (simp add: word_less_nat_alt)
  let ?c = "call (of_nat n) (st_last_sequence (ob_stats b) + 1)"
  have last: "sb_last_sequence (view x) = st_last_sequence (ob_stats x)" for x by (simp add: view_def)
  obtain A' es where A': "spec_process bench_config (view b) ?c = (A', es)" "sb_last_sequence A' = st_last_sequence (ob_stats b) + 1"
    "count_events Rejected es = 0" "P (Suc n) A'" "resting_quantity (sb_bids (view b)) < 2 ^ 64" "resting_quantity (sb_asks (view b)) < 2 ^ 64"
    using Suc.prems(1,3) lt(2) last unfolding spec_quiet_def quiet_step_def by metis
  obtain b1 where b1: "process b ?c [] = Some (b1, es)" "reachable bench_config b1" "view b1 = A'"
    "st_rejected (ob_stats b1) = st_rejected (ob_stats b)"
    by (rule process_quiet [OF Suc.prems(2) refl A'(1,5,6,3)])
  have s1: "st_last_sequence (ob_stats b1) = st_last_sequence (ob_stats b) + 1" using A'(2) b1(3) last by metis
  have k: "k = m - Suc n" using Suc.hyps(2) by simp
  obtain b' s' where "process_range call b1 (st_last_sequence (ob_stats b1)) (of_nat (Suc n)) (of_nat m) = Some (b', s')"
    "reachable bench_config b'" "P m (view b')" "s' = st_last_sequence (ob_stats b')" "st_rejected (ob_stats b') = st_rejected (ob_stats b1)"
    using Suc.hyps(1) [OF k Suc.prems(1) b1(2) _ _ Suc.prems(5)] A'(4) b1(3) lt(1) by auto
  then show ?case using b1(1,4) s1 less
    by (intro exI [of _ b'] exI [of _ s']) (simp add: process_range.simps [of call b] add.commute)
qed

subsection \<open>The states of each workload\<close>

lemma bench_prices:
  "valid_price bench_config 9999" "valid_price bench_config 10000" "valid_price bench_config 10001" "valid_price bench_config 10002"
  "valid_price bench_config 10003" "valid_price bench_config 10004" "valid_price bench_config 10005" "valid_price bench_config 10006"
  "valid_price bench_config 10007" "valid_price bench_config 10008"
  "maximum_orders bench_config = 65536" "maximum_price bench_config = 11000" "minimum_price bench_config = 9000"
  by (simp_all add: valid_price_def bench_config_def i64_mod_def signed_modulo_int_def)

lemma word_mod_nat: "n < 2 ^ 64 \<Longrightarrow> (of_nat n :: u64) mod numeral k = of_nat (n mod unat (numeral k :: u64))"
  by (simp add: word_arith_nat_mod unat_of_nat)

lemma word_div_nat: "n < 2 ^ 64 \<Longrightarrow> (of_nat n :: u64) div numeral k = of_nat (n div unat (numeral k :: u64))"
  by (simp add: word_arith_nat_div unat_of_nat)

lemma word_odd_nat: "((of_nat n :: u64) AND 1 = 0) = even n"
  by (simp add: and_one_eq flip: even_iff_mod_2_eq_zero)

definition rest_order :: "Side \<Rightarrow> OrderId \<Rightarrow> Price \<Rightarrow> Quantity \<Rightarrow> Sequence \<Rightarrow> RestingOrder" where
  "rest_order side oid price quantity priority =
     \<lparr>ro_order_id = oid, ro_side = side, ro_price = price, ro_quantity = quantity, ro_priority = priority\<rparr>"

definition spec_book :: "RestingOrder list \<Rightarrow> RestingOrder list \<Rightarrow> Sequence \<Rightarrow> SpecBook" where
  "spec_book bids asks l = \<lparr>sb_bids = bids, sb_asks = asks, sb_last_sequence = l\<rparr>"

lemmas bench_eval = quiet_step_def spec_process_def spec_process_with_def spec_submit_def spec_execute_def spec_find_def
  spec_cancel_def spec_replace_def spec_remove_def spec_size_def spec_fillable_def spec_available_def effective_limit_def
  sb_side_def sb_set_side_def spec_crosses_def as_good_def bench_order_def rest_order_def bench_prices spec_reject_def
  make_event_def spec_book_def

definition cross_state :: "nat \<Rightarrow> SpecBook \<Rightarrow> bool" where
  "cross_state n A \<longleftrightarrow> (\<exists>p l. A = spec_book [] (if even n then [] else [rest_order Sell (of_nat n) 10000 100 p]) l)"

lemma cross_quiet: "spec_quiet (wl_call CrossWorkload) cross_state"
  unfolding spec_quiet_def
proof (intro allI impI)
  fix n A assume n: "Suc n < 2 ^ 64" and "cross_state n A"
  then obtain p l where A: "A = spec_book [] (if even n then [] else [rest_order Sell (of_nat n) 10000 100 p]) l"
    by (auto simp: cross_state_def)
  show "quiet_step A (wl_call CrossWorkload (of_nat n) (sb_last_sequence A + 1)) (cross_state (Suc n))"
    using n by (cases "even n") (simp_all add: A CrossWorkload_def word_odd_nat bench_eval cross_state_def)
qed

definition cancel_state :: "nat \<Rightarrow> SpecBook \<Rightarrow> bool" where
  "cancel_state n A \<longleftrightarrow> (\<exists>p l. A = spec_book (if even n then [] else [rest_order Buy (of_nat (n div 2) + 1) 9999 100 p]) [] l)"

lemma cancel_quiet: "spec_quiet (wl_call CancelWorkload) cancel_state"
  unfolding spec_quiet_def
proof (intro allI impI)
  fix n A assume n: "Suc n < 2 ^ 64" and "cancel_state n A"
  then obtain p l where A: "A = spec_book (if even n then [] else [rest_order Buy (of_nat (n div 2) + 1) 9999 100 p]) [] l"
    by (auto simp: cancel_state_def)
  show "quiet_step A (wl_call CancelWorkload (of_nat n) (sb_last_sequence A + 1)) (cancel_state (Suc n))"
    using n by (cases "even n") (simp_all add: A CancelWorkload_def word_odd_nat word_div_nat bench_eval cancel_state_def)
qed

definition replace_state :: "nat \<Rightarrow> SpecBook \<Rightarrow> bool" where
  "replace_state n A \<longleftrightarrow> (\<exists>price p l. A = spec_book [rest_order Buy 1 price 100 p] [] l)"

lemma replace_quiet: "spec_quiet (wl_call ReplaceWorkload) replace_state"
  unfolding spec_quiet_def
proof (intro allI impI)
  fix n A assume n: "Suc n < 2 ^ 64" and "replace_state n A"
  then obtain price p l where A: "A = spec_book [rest_order Buy 1 price 100 p] [] l" by (auto simp: replace_state_def)
  show "quiet_step A (wl_call ReplaceWorkload (of_nat n) (sb_last_sequence A + 1)) (replace_state (Suc n))"
    using n by (cases "even n") (simp_all add: A ReplaceWorkload_def word_odd_nat bench_eval replace_state_def)
qed

definition mixed_state :: "nat \<Rightarrow> SpecBook \<Rightarrow> bool" where
  "mixed_state n A \<longleftrightarrow> (\<exists>p q l. let base = of_nat (n div 6) * 4 + 1; k = n mod 6 in
     A = spec_book
       (if k = 1 \<or> k = 2 then [rest_order Buy base 9999 50 p] else if k = 3 then [rest_order Buy base 10000 60 p]
        else if k = 4 then [rest_order Buy base 10000 30 p] else [])
       (if 2 \<le> k then [rest_order Sell (base + 1) 10001 50 q] else []) l)"

lemma mixed_quiet: "spec_quiet (wl_call MixedWorkload) mixed_state"
  unfolding spec_quiet_def
proof (intro allI impI)
  fix n A assume n: "Suc n < 2 ^ 64" and "mixed_state n A"
  then obtain p q l where A: "A = spec_book
       (if n mod 6 = 1 \<or> n mod 6 = 2 then [rest_order Buy (of_nat (n div 6) * 4 + 1) 9999 50 p]
        else if n mod 6 = 3 then [rest_order Buy (of_nat (n div 6) * 4 + 1) 10000 60 p]
        else if n mod 6 = 4 then [rest_order Buy (of_nat (n div 6) * 4 + 1) 10000 30 p] else [])
       (if 2 \<le> n mod 6 then [rest_order Sell (of_nat (n div 6) * 4 + 1 + 1) 10001 50 q] else []) l"
    by (auto simp: mixed_state_def Let_def)
  have "n mod 6 \<in> {0, 1, 2, 3, 4, 5}" by simp presburger
  then show "quiet_step A (wl_call MixedWorkload (of_nat n) (sb_last_sequence A + 1)) (mixed_state (Suc n))"
    using n by (elim insertE emptyE)
      (simp_all add: A MixedWorkload_def word_mod_nat word_div_nat bench_eval mixed_state_def mod_Suc div_Suc Let_def)
qed

definition sweep_asks :: "u64 \<Rightarrow> nat \<Rightarrow> (nat \<Rightarrow> Sequence) \<Rightarrow> RestingOrder list" where
  "sweep_asks base k p = map (\<lambda>i. rest_order Sell (base + of_nat i + 1) (10000 + of_nat i) 10 (p i)) [0..<k]"

definition sweep_state :: "nat \<Rightarrow> SpecBook \<Rightarrow> bool" where
  "sweep_state n A \<longleftrightarrow> (\<exists>p l. A = spec_book [] (sweep_asks (of_nat (n div 10) * 10) (n mod 10) p) l)"

lemma nat_less_9_cases: "k < (9 :: nat) \<Longrightarrow> k \<in> {0, 1, 2, 3, 4, 5, 6, 7, 8}"
  by simp presburger

lemma upt_digits:
  "[0..<2] = [0, 1]" "[0..<3] = [0, 1, 2]" "[0..<4] = [0, 1, 2, 3]" "[0..<5] = [0, 1, 2, 3, 4]"
  "[0..<6] = [0, 1, 2, 3, 4, 5]" "[0..<7] = [0, 1, 2, 3, 4, 5, 6]" "[0..<8] = [0, 1, 2, 3, 4, 5, 6, 7]"
  "[0..<9] = [0, 1, 2, 3, 4, 5, 6, 7, 8]"
  by code_simp+

lemma sweep_rest:
  assumes "k < 9"
  shows "quiet_step (spec_book [] (sweep_asks base k p) l) (bench_order (l + 1) New Sell Limit (base + of_nat k + 1) (10000 + of_nat k) 10)
    (\<lambda>A. A = spec_book [] (sweep_asks base (Suc k) (p(k := l + 1))) (l + 1))"
  using nat_less_9_cases [OF assms]
  by (elim insertE emptyE) (simp_all add: sweep_asks_def upt_digits bench_eval)

lemma sweep_market:
  "quiet_step (spec_book [] (sweep_asks base 9 p) l) (bench_order (l + 1) New Buy Market (base + 10) 0 90)
    (\<lambda>A. A = spec_book [] [] (l + 1))"
  by (simp add: sweep_asks_def upt_digits bench_eval)

lemma quiet_step_mono: "quiet_step A c Q \<Longrightarrow> (\<And>A. Q A \<Longrightarrow> R A) \<Longrightarrow> quiet_step A c R"
  unfolding quiet_step_def by blast

lemma sweep_quiet: "spec_quiet (wl_call SweepWorkload) sweep_state"
  unfolding spec_quiet_def
proof (intro allI impI)
  fix n A assume n: "Suc n < 2 ^ 64" and "sweep_state n A"
  then obtain p l where A: "A = spec_book [] (sweep_asks (of_nat (n div 10) * 10) (n mod 10) p) l" by (auto simp: sweep_state_def)
  have l: "sb_last_sequence A = l" by (simp add: A spec_book_def)
  show "quiet_step A (wl_call SweepWorkload (of_nat n) (sb_last_sequence A + 1)) (sweep_state (Suc n))"
  proof (cases "n mod 10 < 9")
    case True
    have lt: "(of_nat (n mod 10) :: u64) < 9" using True by (simp add: word_less_nat_alt unat_of_nat)
    have call: "wl_call SweepWorkload (of_nat n) (l + 1) =
        bench_order (l + 1) New Sell Limit (of_nat (n div 10) * 10 + of_nat (n mod 10) + 1) (10000 + of_nat (n mod 10)) 10"
      using n lt by (simp add: SweepWorkload_def word_mod_nat word_div_nat Let_def)
    show ?thesis unfolding l call unfolding A
      by (rule quiet_step_mono [OF sweep_rest [OF True]]) (use True in \<open>auto simp: sweep_state_def mod_Suc div_Suc\<close>)
  next
    case False
    then have nine: "n mod 10 = 9" by presburger
    then have call: "wl_call SweepWorkload (of_nat n) (l + 1) = bench_order (l + 1) New Buy Market (of_nat (n div 10) * 10 + 10) 0 90"
      using n by (simp add: SweepWorkload_def word_mod_nat word_div_nat Let_def)
    show ?thesis unfolding l call unfolding A nine
      by (rule quiet_step_mono [OF sweep_market])
        (use nine in \<open>auto simp: sweep_state_def sweep_asks_def [of _ 0] mod_Suc div_Suc\<close>)
  qed
qed

subsection \<open>The benchmark rejects nothing\<close>

lemma sub_mod_le: "x - x mod b \<le> (x :: u64)"
  using word_div_mult_le [of x b] by (simp add: minus_mod_eq_div_mult)

lemma bench_book:
  obtains b where "order_book bench_config = Inr b" "reachable bench_config b" "view b = spec_book [] [] 0"
    "st_last_sequence (ob_stats b) = 0" "st_rejected (ob_stats b) = 0"
proof -
  have "checked_price_count bench_config = Inr 2001" by code_simp
  then obtain b where b: "order_book bench_config = Inr b" using order_book_accepts by (auto simp: bench_config_def)
  have "view b = spec_book [] [] 0" using simulates_view [OF order_book_simulates(1) [OF b]] by (simp add: spec_book_def)
  then show thesis using that [OF b reachable.start [OF b]] order_book_rep(3) [OF b] by (simp add: default_stats_def)
qed

lemma run_core_quiet:
  assumes quiet: "spec_quiet (wl_call w) P" and block: "wl_block w \<le> 10" and requested: "requested < 2 ^ 63"
    and start: "order_book bench_config = Inr b" "bench_prepare w b = Some (b0, st_last_sequence (ob_stats b0))"
      "reachable bench_config b0" "st_rejected (ob_stats b0) = 0" "P 0 (view b0)"
  shows "\<exists>book. run_core w requested = Some (bench_operations w requested, 0, book) \<and> st_rejected (ob_stats book) = 0"
proof -
  let ?ops = "bench_operations w requested" and ?warm = "200000 - 200000 mod wl_block w"
    and ?samples = "100000 - 100000 mod wl_block w"
  have "?ops \<le> max 10 requested"
    using block sub_mod_le [of requested "wl_block w"] by (auto simp: bench_operations_def max_def)
  then have ops: "unat ?ops \<le> 2 ^ 63" using requested by (auto simp: word_le_nat_alt word_less_nat_alt max_def split: if_splits)
  have warm: "unat ?warm \<le> 200000" "unat ?samples \<le> 100000"
    using sub_mod_le [of 200000 "wl_block w"] sub_mod_le [of 100000 "wl_block w"] by (simp_all add: word_le_nat_alt)
  let ?n1 = "unat ?warm" let ?n2 = "?n1 + unat ?ops" let ?n3 = "?n2 + unat ?samples"
  have lt: "?n1 < 2 ^ 64" "?n2 < 2 ^ 64" "?n3 < 2 ^ 64" using ops warm by simp_all
  have words: "of_nat ?n1 = ?warm" "of_nat ?n2 = ?warm + ?ops" "of_nat ?n3 = ?warm + ?ops + ?samples" by simp_all
  note range = process_range_quiet [OF quiet]
  obtain b1 s1 where b1: "process_range (wl_call w) b0 (st_last_sequence (ob_stats b0)) 0 ?warm = Some (b1, s1)"
    "reachable bench_config b1" "P ?n1 (view b1)" "s1 = st_last_sequence (ob_stats b1)"
    "st_rejected (ob_stats b1) = st_rejected (ob_stats b0)"
    using range [OF start(3,5) _ lt(1)] words(1) by auto
  obtain b2 s2 where b2: "process_range (wl_call w) b1 (st_last_sequence (ob_stats b1)) ?warm (?warm + ?ops) = Some (b2, s2)"
    "reachable bench_config b2" "P ?n2 (view b2)" "s2 = st_last_sequence (ob_stats b2)"
    "st_rejected (ob_stats b2) = st_rejected (ob_stats b1)"
    using range [OF b1(2,3) _ lt(2)] unfolding words by auto
  obtain b3 s3 where "process_range (wl_call w) b2 (st_last_sequence (ob_stats b2)) (?warm + ?ops) (?warm + ?ops + ?samples) = Some (b3, s3)"
    "st_rejected (ob_stats b3) = st_rejected (ob_stats b2)"
    using range [OF b2(2,3) _ lt(3)] unfolding words by auto
  then show ?thesis using start(1,2,4) b1(1,4,5) b2(1,4,5) by (simp add: run_core_def Let_def)
qed

subsection \<open>The protocol benchmark never aborts\<close>

lemma protocol_loop_checksum:
  assumes "n \<le> m" "m < 2 ^ 64" "length bytes = 80"
  shows "protocol_loop (of_nat m) (of_nat n) bytes checksum = Some (checksum + of_nat (\<Sum>i = n..<m. Suc i))"
  using assms
proof (induction "m - n" arbitrary: n bytes checksum)
  case 0
  then have "n = m" by simp
  then show ?case by (simp add: protocol_loop.simps [of "of_nat m" "of_nat m"])
next
  case (Suc k)
  have lt: "n < m" "Suc n < 2 ^ 64" using Suc.hyps(2) Suc.prems(2) by simp_all
  have "unat (of_nat n :: u64) = n" "unat (of_nat m :: u64) = m" using lt Suc.prems(2) by (simp_all add: unat_of_nat)
  then have less: "(of_nat n :: u64) < of_nat m" using lt(1) by (simp add: word_less_nat_alt)
  have nz: "(of_nat n :: u64) + 1 \<noteq> 0" 
  proof
    assume "(of_nat n :: u64) + 1 = 0"
    then have "of_nat (Suc n) = (0 :: u64)" by (simp add: add.commute)
    then show False using of_nat_inverse [of "Suc n" "0 :: u64"] lt(2) by simp
  qed
  let ?r = "\<lparr>rq_session_id = 7, rq_client_sequence = of_nat n + 1,
    rq_command = bench_order 0 New Buy Limit (of_nat n + 1) 10000 100\<rparr>"
  have id: "identified ?r" using nz by (simp add: identified_def bench_order_def)
  obtain out where out: "encode_request ?r bytes = Some (True, 52, request_bytes ?r @ out)" "length out = 28"
    using nz Suc.prems(3) by (simp add: encode_request_bytes bench_order_def)
  have dec: "decode_request (take 52 (request_bytes ?r @ out)) =
      Some \<lparr>rqd_status = Ok, rqd_bytes_consumed = 52, rqd_request = wire_request ?r\<rparr>"
    using decode_request_bytes [OF id, of "[]"] by (simp add: bench_order_def)
  have oid: "c_order_id (rq_command (wire_request ?r)) = of_nat n + 1"
    by (simp add: wire_request_def wire_command_def bench_order_def)
  have k: "k = m - Suc n" using Suc.hyps(2) by simp
  have "protocol_loop (of_nat m) (of_nat (Suc n)) (request_bytes ?r @ out) (checksum + (of_nat n + 1)) =
      Some (checksum + (of_nat n + 1) + of_nat (\<Sum>i = Suc n..<m. Suc i))"
    using Suc.hyps(1) [OF k _ Suc.prems(2)] lt(1) out(2) by (simp add: bench_order_def)
  then show ?case using less out(1) dec oid sum.atLeast_Suc_lessThan [OF lt(1), of Suc]
    by (simp add: protocol_loop.simps [of _ _ bytes] Let_def add.commute add.left_commute)
qed

lemma triangle_not_multiple:
  assumes "0 < n" "n < 2 ^ 64"
  shows "\<not> 2 ^ 64 dvd (\<Sum>i = 0..<n. Suc i)"
proof
  assume d: "2 ^ 64 dvd (\<Sum>i = 0..<n. Suc i)"
  have "2 * (\<Sum>i = 0..<n. Suc i) = n * Suc n" by (induction n) simp_all
  then have d2: "2 ^ 65 dvd n * Suc n" using mult_dvd_mono [OF dvd_refl d, of 2] by simp
  have two: "coprime (2 ^ k) m" if "odd m" for k m :: nat using that by simp
  show False
  proof (cases "even n")
    case True
    then have "coprime (2 ^ 65) (Suc n)" by (intro two) simp
    then have "2 ^ 65 dvd n" using d2 coprime_dvd_mult_left_iff by blast
    then have "2 ^ 65 \<le> n" using assms(1) by (rule dvd_imp_le)
    then show False using assms(2) by simp
  next
    case False
    then have "coprime (2 ^ 65) n" by (rule two)
    then have "2 ^ 65 dvd Suc n" using d2 coprime_dvd_mult_right_iff by blast
    then have "2 ^ 65 \<le> Suc n" by (rule dvd_imp_le) simp
    then show False using assms(2) by simp
  qed
qed

lemma run_protocol_completes:
  assumes "0 < operations"
  shows "run_protocol operations = Some operations"
proof -
  let ?n = "unat operations"
  have n: "0 < ?n" "?n < 2 ^ 64" using assms unsigned_less [of operations] by (simp_all add: unat_gt_0)
  have "of_nat (\<Sum>i = 0..<?n. Suc i) \<noteq> (0 :: u64)"
    using triangle_not_multiple [OF n] unfolding word_of_nat_eq_0_iff by simp
  then show ?thesis using protocol_loop_checksum [of 0 ?n "replicate 80 0" 0] n
    by (simp add: run_protocol_def maximum_frame_size_def)
qed

text \<open>
  C40.  The benchmark measures only successful operations.  For each of the five workloads and
  any number of operations below \<open>2 ^ 63\<close>, every command of the preparation, the warm-up, the
  measured run and the latency samples is processed to the end and none is rejected: the count
  of rejections that is reported, of which the warm-up is subtracted, is 0, and so is the count
  that the book itself has kept since it was constructed; and the protocol benchmark encodes and decodes every request without
  reaching either \<^verbatim>\<open>std::abort\<close>, its wrapping checksum included.
\<close>

theorem benchmark_never_fails:
  assumes "w \<in> {CrossWorkload, CancelWorkload, ReplaceWorkload, SweepWorkload, MixedWorkload}" "requested < 2 ^ 63" "0 < requested"
  shows "(\<exists>book. run_core w requested = Some (bench_operations w requested, 0, book) \<and> st_rejected (ob_stats book) = 0) \<and>
    run_protocol requested = Some requested"
proof (rule bench_book)
  fix b assume b: "order_book bench_config = Inr b" "reachable bench_config b" "view b = spec_book [] [] 0"
    "st_last_sequence (ob_stats b) = 0" "st_rejected (ob_stats b) = 0"
  have empty: "\<exists>book. run_core v requested = Some (bench_operations v requested, 0, book) \<and> st_rejected (ob_stats book) = 0"
    if "\<not> wl_replace v" "wl_block v \<le> 10" "spec_quiet (wl_call v) P" "P 0 (spec_book [] [] 0)" for v P
    by (rule run_core_quiet [OF that(3,2) assms(2) b(1), of b]) (use that b in \<open>simp_all add: bench_prepare_def\<close>)
  have "spec_process bench_config (spec_book [] [] 0) (bench_order 1 New Buy Limit 1 9999 100) =
      (spec_book [rest_order Buy 1 9999 100 1] [] 1, [make_event Accepted (bench_order 1 New Buy Limit 1 9999 100) 0 0 0 NoReason,
        make_event Rested (bench_order 1 New Buy Limit 1 9999 100) 0 9999 100 NoReason])"
    by (simp add: bench_eval)
  then obtain b0 where b0: "process b (bench_order 1 New Buy Limit 1 9999 100) [] =
      Some (b0, [make_event Accepted (bench_order 1 New Buy Limit 1 9999 100) 0 0 0 NoReason,
        make_event Rested (bench_order 1 New Buy Limit 1 9999 100) 0 9999 100 NoReason])"
    "reachable bench_config b0" "view b0 = spec_book [rest_order Buy 1 9999 100 1] [] 1"
    "st_rejected (ob_stats b0) = st_rejected (ob_stats b)"
    by (rule process_quiet [OF b(2,3)]) (simp_all add: spec_book_def make_event_def)
  have "st_last_sequence (ob_stats b0) = 1" using arg_cong [OF b0(3), of sb_last_sequence] by (simp add: view_def spec_book_def)
  then have "\<exists>book. run_core ReplaceWorkload requested = Some (bench_operations ReplaceWorkload requested, 0, book) \<and>
      st_rejected (ob_stats book) = 0"
    by (intro run_core_quiet [OF replace_quiet _ assms(2) b(1), of b0])
      (use b(5) b0 in \<open>auto simp: bench_prepare_def ReplaceWorkload_def replace_state_def\<close>)
  then show ?thesis
    using assms(1) run_protocol_completes [OF assms(3)] empty [OF _ _ cross_quiet] empty [OF _ _ cancel_quiet] empty [OF _ _ sweep_quiet] empty [OF _ _ mixed_quiet]
    by (auto simp: CrossWorkload_def CancelWorkload_def SweepWorkload_def MixedWorkload_def cross_state_def cancel_state_def
        sweep_state_def sweep_asks_def mixed_state_def Let_def)
qed

theorem benchmark_never_fails_witness:
  "(\<exists>book. run_core SweepWorkload 2000000 = Some (2000000, 0, book) \<and> st_rejected (ob_stats book) = 0) \<and>
   (\<exists>book. run_core MixedWorkload 2000000 = Some (1999998, 0, book) \<and> st_rejected (ob_stats book) = 0) \<and>
   run_protocol 2000000 = Some 2000000"
  using benchmark_never_fails [of SweepWorkload 2000000] benchmark_never_fails [of MixedWorkload 2000000]
  by (simp add: bench_operations_def SweepWorkload_def MixedWorkload_def)

end
