(* ===== verification/Spec2Isabelle.thy ===== *)
theory Spec2Isabelle
  imports Snapshot Tcp_Theorems Benchmark
begin

text \<open>
  \<^bold>\<open>Verification of the deterministic matching engine\<close>

  The program is a price-time-priority limit order book with a binary TCP gateway in front and
  a journal and snapshots behind.  Its parts, from the inside out:

  \<^item> the order book (\<^verbatim>\<open>order_book.hpp\<close>, \<^verbatim>\<open>order_book.cpp\<close>), which turns one command into events; it
    keeps its orders in a pool of linked nodes, one doubly linked list per price level, one
    bitmap of non-empty levels per side, and finds orders through an open-addressing hash table
    (\<^verbatim>\<open>fixed_hash.hpp\<close>);
  \<^item> the runners (\<^verbatim>\<open>engine_runner.hpp\<close>, \<^verbatim>\<open>gateway.cpp\<close>), each the loop of the one thread that owns a
    book: it takes a request from a queue, journals it, processes it and publishes the events;
  \<^item> the single-producer single-consumer queues between threads (\<^verbatim>\<open>spsc_queue.hpp\<close>);
  \<^item> journal, replay and snapshots (\<^verbatim>\<open>journal.cpp\<close>) with the replay tool (\<^verbatim>\<open>apps/replay.cpp\<close>);
  \<^item> the wire protocol (\<^verbatim>\<open>protocol.cpp\<close>), the session and risk checks (\<^verbatim>\<open>gateway.cpp\<close>) and the epoll
    loop that connects sockets to the engine thread (\<^verbatim>\<open>apps/gateway.cpp\<close>);
  \<^item> the benchmark (\<^verbatim>\<open>apps/benchmark.cpp\<close>).

  \<^bold>\<open>How the code is modelled.\<close>  Definitions carry the names of the functions they translate
  where these are free in HOL (members of \<^verbatim>\<open>FixedOrderIndex\<close> start with \<open>fi_\<close>, constructors are
  the class name in lower case).  Structures are records and enumerations are datatypes.
  64-bit message fields are 64-bit words, so that they wrap as in the code; prices are read as
  signed with \<^const>\<open>sint\<close>.  Sizes and node indices are natural numbers, with the wrapping of the
  32-bit and 64-bit counters written out (\<open>inc_u32\<close>, \<open>inc_size\<close>).  Every operation takes the state and
  returns the new one.  \<^const>\<open>None\<close> is a call that does not return normally: an access outside
  a vector or span, a terminating program, or a loop that never ends.  Exceptions that are part
  of an interface are the left values of \<open>exn + 'a\<close>.

  Loops are recursive functions.  Those that end because a list gets shorter are ordinary
  recursive functions.  Those whose end depends on the data are \<open>partial_function\<close>s, for which
  not ending is \<^const>\<open>None\<close>, and the theorems state that they return.  The three probing loops of
  the hash table count their probes: after as many as the table has slots they return what the
  code returns there (not inserted, not found, not erased), and the invariant of the table (a
  power of two of slots, at least one of them free) is shown to end them before that.

  \<^bold>\<open>The theories\<close>

  \<^item> \<^verbatim>\<open>Dme_Prelude\<close>: word types, results, vectors with checked access, counters, \<^verbatim>\<open>std::bit_ceil\<close>.
  \<^item> \<^verbatim>\<open>Dme_Types\<close>: \<^verbatim>\<open>types.hpp\<close>.
  \<^item> \<^verbatim>\<open>Fixed_Hash\<close>: the hash table.  Linear probing with backward repair on erase implements a finite
    map; the locale \<open>id_index\<close> is the contract, interpreted on the table.
  \<^item> \<^verbatim>\<open>Price_Ladder\<close>: price arithmetic and bitmaps.  Prices and level indices correspond one to one,
    and the scans find the extremal bit.
  \<^item> \<^verbatim>\<open>Level_Fifo\<close>: linking and unlinking of nodes, as operations on the list a level represents.
  \<^item> \<^verbatim>\<open>Order_Book\<close>: every member function of \<^verbatim>\<open>OrderBook\<close>.
  \<^item> \<^verbatim>\<open>Book_Spec\<close>: the reference semantics, two sorted lists of orders and one function per command.
  \<^item> \<^verbatim>\<open>Book_Rep\<close>, \<^verbatim>\<open>Book_Refine\<close>: the representation invariant relating nodes, levels, bitmaps, hash
    table, free list and counters, and the proof that each operation keeps it and implements
    the reference semantics.
  \<^item> \<^verbatim>\<open>Book_Laws\<close>: laws of the reference semantics (sorting, uncrossed sides, conservation).
  \<^item> \<^verbatim>\<open>Book_Restore\<close>: listing and restoring orders, and the predicate \<open>reachable\<close>: the books that
    construction, restoring and processing give.
  \<^item> \<^verbatim>\<open>Engine_Theorems\<close>, \<^verbatim>\<open>Engine_Runs\<close>: what single commands and runs of commands do on reachable books:
    totality, refinement, price and time priority, conservation of quantity, fill-or-kill,
    cancellation, rejections, and the configurations the constructor accepts.
  \<^item> \<^verbatim>\<open>Protocol\<close>: encoders and decoders.  Round trips, no access outside a span on arbitrary bytes,
    framing.  The locale \<open>codec\<close> derives that streams are unambiguous, for both directions.
  \<^item> \<^verbatim>\<open>Spsc_Queue\<close>: the queue as sequential operations (the locale \<open>fifo_queue\<close>) and as interleaved
    steps of two threads, in which an acquire load may return any earlier value of the other
    thread's index that coherence permits.  Order, no loss, no race on a slot.
  \<^item> \<^verbatim>\<open>Journal\<close>, \<^verbatim>\<open>Snapshot\<close>: files as byte lists.  Replay after a crash at any byte, detection of
    damage, and the round trip of a snapshot with all further behaviour of the book.  A failing
    append may leave any part of its record, and the padding of each order in a snapshot is its own.
  \<^item> \<^verbatim>\<open>Gateway\<close>: risk limits and session sequence.
  \<^item> \<^verbatim>\<open>Runner\<close>, \<^verbatim>\<open>Runner_Theorems\<close>: both runners as step functions with the shared shape \<open>run_step\<close>, the
    replay tool, and \<open>system_step\<close>, the interleaving of a runner with the clients at its two queues.
    The stop flag may be raised at any time and is seen by the runner at any later step.
    Every interleaving has the effect of serving the requests one after the other, no response is
    lost before the stop flag is raised, only a failed journal write loses a request, and
    replaying the journal rebuilds the book.
  \<^item> \<^verbatim>\<open>Tcp_Gateway\<close>: the gateway thread.  \<^verbatim>\<open>Tcp_Ok\<close>: its invariant.  \<^verbatim>\<open>Tcp_Stream\<close>: reading a
    stream of frames through any sequence of \<^verbatim>\<open>recv\<close> calls, and partial writes.  \<^verbatim>\<open>Tcp_Theorems\<close>: all
    states the process can reach (\<open>tcp_reachable\<close>), independence of TCP fragmentation in them,
    termination of a pass of the event loop, and the composition of gateway checks, queues,
    runner and book: only requests that passed the checks reach the book.
    Responses follow the session identifier, so that a connection that takes over a session
    gets those its predecessor left behind; the last theorem there states it.
  \<^item> \<^verbatim>\<open>Benchmark\<close>: the workloads, and that the benchmark rejects no command, in the warm-up or later.

  \<^bold>\<open>Bounds in the theorems.\<close>  The 64-bit sum of the quantities at a price level can wrap, and
  a fill-or-kill order is then rejected wrongly; refinement of the reference semantics assumes
  that the open quantities stay below \<open>2 ^ 64\<close>, while totality, priority, conservation,
  well-formedness and the equality of a book with its restored snapshot hold without that
  assumption.  Statements on sequence numbers of whole runs
  assume fewer than \<open>2 ^ 64\<close> commands.

  \<^bold>\<open>Parameters.\<close>  What the operating system decides is an argument of the operation: success of
  file operations and how much of a record a failing append writes, results of \<^verbatim>\<open>recv\<close>, \<^verbatim>\<open>send\<close>,
  \<^verbatim>\<open>accept\<close> and \<^verbatim>\<open>epoll_wait\<close>, and the values of padding bytes of structures that are written to
  files.  Theorems on journals that are replayed assume
  that a command keeps its padding when it is copied into a record, because the checksum is
  taken over the original.

  \<^bold>\<open>Not modelled\<close>

  \<^item> exhaustion of memory, including the \<^verbatim>\<open>std::length_error\<close> or \<^verbatim>\<open>std::bad_alloc\<close> with which the
    constructor of a book fails for a price ladder too large for a vector, and enumerators
    outside their declared values in a command;
  \<^item> in \<^verbatim>\<open>apps/gateway.cpp\<close>, \<^verbatim>\<open>initialize\<close>, the destructor, \<^verbatim>\<open>set_nonblocking\<close>, the signal handler and
    \<^verbatim>\<open>main\<close>, which only make system calls and start threads; a registered descriptor is
    assumed to stay usable for \<^verbatim>\<open>epoll_ctl\<close>;
  \<^item> the Windows branch of \<^verbatim>\<open>write_snapshot\<close>;
  \<^item> clocks, rates, percentiles, CPU pinning and printing in \<^verbatim>\<open>apps/benchmark.cpp\<close>; its queue and
    journal benchmarks and its \<^verbatim>\<open>main\<close> only drive operations modelled elsewhere;
  \<^item> memory orderings at the level of the runners: there a queue operation is one step, and a
    stale index read, which the queue theory treats, appears as a delay of the step.  In
    the queue theory only the loads of the indices may be stale; the slots are sequentially
    consistent memory, and it is shown that the two threads never use the same one at once;
  \<^item> endless streams of socket results: the results of the \<^verbatim>\<open>recv\<close>, \<^verbatim>\<open>send\<close> and \<^verbatim>\<open>accept\<close> calls of one
    handler are a finite list, at whose end the call reports that it would block;
  \<^item> the interleaving of a handler of the gateway thread, such as draining the response queue,
    with the engine thread: a handler is one step, which is adequate because the two share
    only the queues and the stop flag.
\<close>

end
